(* ===== verification/Prelude.thy ===== *)
theory Prelude
  imports Complex_Main "HOL-Library.Word" "HOL-Library.Multiset"
begin

text \<open>
  Shared vocabulary of the development: the machine types of the C++ sources, the
  conversions between them, the collections of hints the component theories extend, and
  the generic facts on lists and on sums of errors that several components use.
\<close>

section \<open>Machine types\<close>

text \<open>
  \<open>unsigned char\<close>, \<open>uint32_t\<close> and \<open>unsigned long int\<close> (64 bits on the Linux containers the
  program runs in) are words. A signed \<open>int\<close> is an Isabelle integer that every operation keeps
  inside \<open>int_range\<close>; the increment \<open>x++\<close> of a signed \<open>int\<close> that is already \<open>INT_MAX\<close> is undefined
  behaviour in C++ and is a value of the error type of the component that does it.
\<close>

type_synonym u8 = "8 word"
type_synonym u32 = "32 word"
type_synonym u64 = "64 word"

definition INT_MAX :: int where
  "INT_MAX = 2147483647"

definition int_range :: "int set" where
  "int_range = {- 2147483648 .. 2147483647}"

text \<open>Implicit conversions: \<open>int\<close> to \<open>uint32_t\<close> is modulo $2^{32}$, the other way is two's complement.\<close>

definition to_u32 :: "int \<Rightarrow> u32" where
  "to_u32 x = word_of_int x"

definition to_int :: "u32 \<Rightarrow> int" where
  "to_int w = sint w"

section \<open>Collections of hints\<close>

named_theorems frame \<open>which fields an operation leaves alone\<close>
named_theorems wf_intros \<open>introduction rules of the invariants\<close>

section \<open>Conversions\<close>

lemma to_int_to_u32 [simp]: "x \<in> int_range \<Longrightarrow> to_int (to_u32 x) = x"
  unfolding to_int_def to_u32_def int_range_def
  by (simp add: sint_sbintrunc' signed_take_bit_int_eq_self_iff)

lemma to_u32_to_int [simp]: "to_u32 (to_int w) = w"
  by (simp add: to_int_def to_u32_def)

lemma to_int_range [simp]: "to_int w \<in> int_range"
  using sint_range_size [of w] by (auto simp: to_int_def int_range_def word_size)

lemma to_u32_inject: "x \<in> int_range \<Longrightarrow> y \<in> int_range \<Longrightarrow> to_u32 x = to_u32 y \<longleftrightarrow> x = y"
  by (metis to_int_to_u32)

lemma to_int_inject: "to_int v = to_int w \<longleftrightarrow> v = w"
  by (metis to_u32_to_int)

lemma int_rangeI: "0 \<le> x \<Longrightarrow> x \<le> INT_MAX \<Longrightarrow> x \<in> int_range"
  by (simp add: int_range_def INT_MAX_def)

section \<open>Lists\<close>

lemma distinct_map_filter_unique:
  assumes "distinct (map f xs)" "x \<in> set xs" "y \<in> set xs" "f x = f y"
  shows "x = y"
  using assms by (auto simp: distinct_map inj_on_def)

lemma find_Some_memD: "find P xs = Some x \<Longrightarrow> x \<in> set xs \<and> P x"
  by (auto simp: find_Some_iff)

lemma list_update_swap_mset:
  assumes "i < length xs" "j < length xs" "i \<noteq> j"
  shows "mset (xs[i := xs ! j, j := v]) = mset (xs[i := v])"
proof -
  have "mset (xs[i := v, i := xs[i := v] ! j, j := xs[i := v] ! i]) = mset (xs[i := v])"
    using assms by (intro mset_swap) simp_all
  then show ?thesis using assms by simp
qed

lemma mset_butlast_last: "xs \<noteq> [] \<Longrightarrow> mset xs = add_mset (last xs) (mset (butlast xs))"
  by (metis append_butlast_last_id mset_append mset.simps add_mset_add_single)

end
