(* ===== verification/HostFile.thy ===== *)
theory HostFile
  imports Prelude
begin

text \<open>
  The host file: \<open>wait_to_sync::read_from_file\<close> of \<open>waittosync.cpp\<close>, on the C library's \<open>fgets\<close> and
  \<open>strcspn\<close>. A file that cannot be opened is \<open>None\<close>, the contents of one that can are a string.
\<close>

section \<open>Reading lines\<close>

definition ARRAY_MAX_SIZE :: nat where "ARRAY_MAX_SIZE = 16"
definition MAX_HOST_NAME :: nat where "MAX_HOST_NAME = 256"

abbreviation LF :: char where "LF \<equiv> CHR 0x0A"
abbreviation CR :: char where "CR \<equiv> CHR 0x0D"
abbreviation NUL :: char where "NUL \<equiv> CHR 0x00"

text \<open>
  \<open>fgets\<close> with room for \<open>n\<close> characters and the terminating zero: it stops behind a newline, when the
  room is used up, or at the end of the file. The second component is what is left of the file.
\<close>

fun fgets :: "nat \<Rightarrow> string \<Rightarrow> string \<times> string" where
  "fgets 0 s = ([], s)"
| "fgets (Suc n) [] = ([], [])"
| "fgets (Suc n) (c # s) =
     (if c = LF then ([c], s) else case fgets n s of (l, r) \<Rightarrow> (c # l, r))"

text \<open>
  \<open>line[strcspn(line, "\r\n")] = 0\<close>: the C string in the buffer ends at its first zero, carriage
  return or newline.
\<close>

definition cut_line :: "string \<Rightarrow> string" where
  "cut_line l = takeWhile (\<lambda>c. c \<noteq> NUL \<and> c \<noteq> CR \<and> c \<noteq> LF) l"

lemma fgets_rest: "length (snd (fgets n s)) \<le> length s"
  by (induction n s rule: fgets.induct) (auto split: prod.splits)

lemma fgets_progress: "(line, rest) = fgets n s \<Longrightarrow> s \<noteq> [] \<Longrightarrow> 0 < n \<Longrightarrow> length rest < length s"
proof (cases n; cases s)
  fix m c t assume n: "n = Suc m" "s = c # t" and f: "(line, rest) = fgets n s"
  have "length rest \<le> length t"
    using f fgets_rest [of m t] by (auto simp: n split: if_splits prod.splits)
  then show "length rest < length s" by (simp add: n)
qed simp_all

lemma fgets_length: "length (fst (fgets n s)) \<le> n"
  by (induction n s rule: fgets.induct) (auto split: prod.splits)

section \<open>read_from_file\<close>

datatype file_error = CannotOpen | TooManyHosts

text \<open>The loop: \<open>acc\<close> are the entries of \<open>lineArray\<close> that have been filled.\<close>

function read_lines :: "string list \<Rightarrow> string \<Rightarrow> file_error + string list" where
  "read_lines acc s =
     (if s = [] then Inr acc
      else if length acc = ARRAY_MAX_SIZE then Inl TooManyHosts
      else case fgets (MAX_HOST_NAME - 1) s of (line, rest) \<Rightarrow> read_lines (acc @ [cut_line line]) rest)"
  by pat_completeness auto
termination
  by (relation "measure (\<lambda>(acc, s). length s)") (auto simp: MAX_HOST_NAME_def intro: fgets_progress)

declare read_lines.simps [simp del]

fun read_from_file :: "string option \<Rightarrow> file_error + string list" where
  "read_from_file None = Inl CannotOpen"
| "read_from_file (Some s) = read_lines [] s"

section \<open>Facts\<close>

lemma cut_line_clean: "\<forall>c \<in> set (cut_line l). c \<noteq> NUL \<and> c \<noteq> CR \<and> c \<noteq> LF"
  by (auto simp: cut_line_def dest: set_takeWhileD)

lemma length_cut_line: "length (cut_line l) \<le> length l"
  by (simp add: cut_line_def length_takeWhile_le)

text \<open>The characters of a host name, and the two line ends a host file may have.\<close>

definition plain_name :: "string \<Rightarrow> bool" where
  "plain_name h \<longleftrightarrow> (\<forall>c \<in> set h. c \<noteq> NUL \<and> c \<noteq> CR \<and> c \<noteq> LF)"

lemma fgets_line:
  assumes "LF \<notin> set l" "length l < n"
  shows "fgets n (l @ LF # rest) = (l @ [LF], rest)"
  using assms
proof (induction l arbitrary: n)
  case Nil
  then show ?case by (cases n) simp_all
next
  case (Cons c l)
  then show ?case by (cases n) auto
qed

lemma fgets_last_line:
  assumes "LF \<notin> set l" "length l \<le> n"
  shows "fgets n l = (l, [])"
  using assms
proof (induction l arbitrary: n)
  case Nil
  show ?case by (cases n) simp_all
next
  case (Cons c l)
  then show ?case by (cases n) auto
qed

lemma cut_line_ended:
  assumes "plain_name h" "rest = [] \<or> hd rest \<in> {CR, LF}"
  shows "cut_line (h @ rest) = h"
proof -
  let ?P = "\<lambda>c. c \<noteq> NUL \<and> c \<noteq> CR \<and> c \<noteq> LF"
  have "takeWhile ?P (h @ rest) = h @ takeWhile ?P rest"
    using assms(1) by (intro takeWhile_append2) (simp add: plain_name_def)
  moreover have "takeWhile ?P rest = []" using assms(2) by (cases rest) auto
  ultimately show ?thesis by (simp add: cut_line_def)
qed

lemma read_lines_step:
  assumes "plain_name h" "eol \<in> {[LF], [CR, LF]}" "length (h @ eol) < MAX_HOST_NAME"
  shows "read_lines acc (h @ eol @ rest) =
    (if length acc = ARRAY_MAX_SIZE then Inl TooManyHosts else read_lines (acc @ [h]) rest)"
proof -
  obtain pre where pre: "eol = pre @ [LF]" "set pre \<subseteq> {CR}" using assms(2) by force
  have eol: "eol \<noteq> []" "hd eol \<in> {CR, LF}" using assms(2) by auto
  have "LF \<notin> set (h @ pre)" using assms(1) pre(2) by (auto simp: plain_name_def)
  from fgets_line [OF this, of "MAX_HOST_NAME - 1" rest] assms(3)
  have "fgets (MAX_HOST_NAME - 1) (h @ eol @ rest) = (h @ eol, rest)" by (simp add: pre(1))
  moreover have "cut_line (h @ eol) = h" using assms(1) eol(2) by (intro cut_line_ended) simp_all
  ultimately show ?thesis using eol(1) by (subst read_lines.simps) simp
qed

lemma read_lines_all:
  assumes "\<forall>h \<in> set hs. plain_name h \<and> length (h @ eol) < MAX_HOST_NAME" "eol \<in> {[LF], [CR, LF]}"
  shows "length acc \<le> ARRAY_MAX_SIZE \<Longrightarrow> read_lines acc (concat (map (\<lambda>h. h @ eol) hs)) =
    (if length acc + length hs \<le> ARRAY_MAX_SIZE then Inr (acc @ hs) else Inl TooManyHosts)"
  using assms(1)
proof (induction hs arbitrary: acc)
  case Nil
  then show ?case by (simp add: read_lines.simps)
next
  case (Cons h hs)
  have "read_lines acc (concat (map (\<lambda>h. h @ eol) (h # hs))) =
    (if length acc = ARRAY_MAX_SIZE then Inl TooManyHosts
     else read_lines (acc @ [h]) (concat (map (\<lambda>h. h @ eol) hs)))"
    using read_lines_step [of h eol acc "concat (map (\<lambda>h. h @ eol) hs)"] Cons.prems(2) assms(2) by simp
  then show ?case using Cons.IH [of "acc @ [h]"] Cons.prems by auto
qed

text \<open>
  C33. Reading inverts writing: a file with one plain host name per line, with Unix or DOS line ends
  and lines of at most 255 characters, is read as exactly those names, up to 16 of them; a file with
  more is refused.
\<close>

theorem host_file_roundtrip:
  assumes "\<forall>h \<in> set hs. plain_name h \<and> length (h @ eol) < MAX_HOST_NAME" "eol \<in> {[LF], [CR, LF]}"
  shows "read_from_file (Some (concat (map (\<lambda>h. h @ eol) hs))) =
    (if length hs \<le> ARRAY_MAX_SIZE then Inr hs else Inl TooManyHosts)"
  using read_lines_all [OF assms, of "[]"] by simp

theorem host_file_roundtrip_witness:
  "read_from_file (Some (''container1'' @ [CR, LF] @ ''container2'' @ [CR, LF])) =
    Inr [''container1'', ''container2'']"
  using host_file_roundtrip [of "[''container1'', ''container2'']" "[CR, LF]"]
  by (simp add: plain_name_def MAX_HOST_NAME_def ARRAY_MAX_SIZE_def)

lemma read_lines_bounds:
  "read_lines acc s = Inr hs \<Longrightarrow> length acc \<le> ARRAY_MAX_SIZE \<Longrightarrow>
   (\<forall>h \<in> set acc. plain_name h \<and> length h < MAX_HOST_NAME) \<Longrightarrow>
   length hs \<le> ARRAY_MAX_SIZE \<and> (\<forall>h \<in> set hs. plain_name h \<and> length h < MAX_HOST_NAME)"
proof (induction acc s rule: read_lines.induct)
  case (1 acc s)
  show ?case
  proof (cases "s = []")
    case True
    with 1 show ?thesis by (simp add: read_lines.simps)
  next
    case False
    obtain line rest where f: "fgets (MAX_HOST_NAME - 1) s = (line, rest)" by fastforce
    have full: "length acc \<noteq> ARRAY_MAX_SIZE" and r: "read_lines (acc @ [cut_line line]) rest = Inr hs"
      using 1(2) False f by (auto simp: read_lines.simps [of acc s] split: if_splits)
    have "length line \<le> MAX_HOST_NAME - 1" using fgets_length [of "MAX_HOST_NAME - 1" s] f by simp
    then have "length (cut_line line) < MAX_HOST_NAME"
      using length_cut_line [of line] by (simp add: MAX_HOST_NAME_def)
    moreover have "plain_name (cut_line line)" using cut_line_clean [of line] by (simp add: plain_name_def)
    ultimately have new: "\<forall>h \<in> set (acc @ [cut_line line]). plain_name h \<and> length h < MAX_HOST_NAME"
      using 1(4) by simp
    have "length (acc @ [cut_line line]) \<le> ARRAY_MAX_SIZE" using 1(3) full by simp
    from 1(1) [OF False full f [symmetric] r this new] show ?thesis .
  qed
qed

text \<open>
  Whatever the file holds, what is read fits the arrays: at most 16 entries, each shorter than
  the 256 characters \<open>strcpy\<close> has room for, without line ends.
\<close>

lemma host_names_fit:
  assumes "read_from_file f = Inr hs"
  shows "length hs \<le> ARRAY_MAX_SIZE \<and> (\<forall>h \<in> set hs. plain_name h \<and> length h < MAX_HOST_NAME)"
  using assms read_lines_bounds [of "[]"] by (cases f) simp_all

end
