(* ===== verification/Wire.thy ===== *)
theory Wire
  imports Prelude
begin

unbundle bit_operations_syntax

text \<open>
  The wire format of the three protocol messages: the structs of \<open>reliable_multicast.h\<close> and the
  big-endian packers of \<open>reliable_multicast.cpp\<close>. A \<open>unsigned char *buf\<close> with an offset is a byte
  list and a position in it. Every caller passes a \<open>unsigned char [MAX_STRUCT_SIZE]\<close>, so the stores
  below are always inside the list; \<open>serialize_*\<close> overwrite the bytes they name and leave the rest of
  the buffer as it was (the tail of a data message is whatever was on the stack).
\<close>

section \<open>Sizes and message tags\<close>

definition MAX_MSG_SIZE :: nat where "MAX_MSG_SIZE = 256"
definition MAX_STRUCT_SIZE :: nat where "MAX_STRUCT_SIZE = 20"
definition DATAMSG_TYPE :: u32 where "DATAMSG_TYPE = 1"
definition ACKMSG_TYPE :: u32 where "ACKMSG_TYPE = 2"
definition SEQMSG_TYPE :: u32 where "SEQMSG_TYPE = 3"

section \<open>The structs\<close>

record DataMessage =
  dm_type :: u32
  dm_sender :: u32
  dm_msg_id :: u32
  dm_data :: u32

record AckMessage =
  am_type :: u32
  am_sender :: u32
  am_msg_id :: u32
  am_proposed_seq :: u32
  am_proposer :: u32

record SeqMessage =
  sm_type :: u32
  sm_sender :: u32
  sm_msg_id :: u32
  sm_final_seq :: u32
  sm_final_seq_proposer :: u32

section \<open>Packing and unpacking\<close>

text \<open>\<open>packi32\<close> stores the low 32 bits of an \<open>unsigned long\<close>, most significant byte first.\<close>

definition packi32 :: "u8 list \<Rightarrow> nat \<Rightarrow> u64 \<Rightarrow> u8 list" where
  "packi32 buf off i =
     buf[off := ucast (drop_bit 24 i), off + 1 := ucast (drop_bit 16 i),
         off + 2 := ucast (drop_bit 8 i), off + 3 := ucast i]"

definition unpacku32 :: "u8 list \<Rightarrow> nat \<Rightarrow> u64" where
  "unpacku32 buf off =
     push_bit 24 (ucast (buf ! off)) OR push_bit 16 (ucast (buf ! (off + 1))) OR
     push_bit 8 (ucast (buf ! (off + 2))) OR ucast (buf ! (off + 3))"

text \<open>A \<open>uint32_t\<close> argument is widened on the call; a \<open>uint32_t\<close> target truncates the result.\<close>

definition put32 :: "u8 list \<Rightarrow> nat \<Rightarrow> u32 \<Rightarrow> u8 list" where
  "put32 buf off w = packi32 buf off (ucast w)"

definition get32 :: "u8 list \<Rightarrow> nat \<Rightarrow> u32" where
  "get32 buf off = ucast (unpacku32 buf off)"

definition serialize_data_message :: "DataMessage \<Rightarrow> u8 list \<Rightarrow> u8 list" where
  "serialize_data_message m buf =
     put32 (put32 (put32 (put32 buf 0 (dm_type m)) 4 (dm_sender m)) 8 (dm_msg_id m)) 12 (dm_data m)"

definition deserialize_data_message :: "u8 list \<Rightarrow> DataMessage" where
  "deserialize_data_message buf =
     \<lparr>dm_type = get32 buf 0, dm_sender = get32 buf 4, dm_msg_id = get32 buf 8, dm_data = get32 buf 12\<rparr>"

definition serialize_ack_message :: "AckMessage \<Rightarrow> u8 list \<Rightarrow> u8 list" where
  "serialize_ack_message m buf =
     put32 (put32 (put32 (put32 (put32 buf 0 (am_type m)) 4 (am_sender m)) 8 (am_msg_id m))
       12 (am_proposed_seq m)) 16 (am_proposer m)"

definition deserialize_ack_message :: "u8 list \<Rightarrow> AckMessage" where
  "deserialize_ack_message buf =
     \<lparr>am_type = get32 buf 0, am_sender = get32 buf 4, am_msg_id = get32 buf 8,
      am_proposed_seq = get32 buf 12, am_proposer = get32 buf 16\<rparr>"

definition serialize_seq_message :: "SeqMessage \<Rightarrow> u8 list \<Rightarrow> u8 list" where
  "serialize_seq_message m buf =
     put32 (put32 (put32 (put32 (put32 buf 0 (sm_type m)) 4 (sm_sender m)) 8 (sm_msg_id m))
       12 (sm_final_seq m)) 16 (sm_final_seq_proposer m)"

definition deserialize_seq_message :: "u8 list \<Rightarrow> SeqMessage" where
  "deserialize_seq_message buf =
     \<lparr>sm_type = get32 buf 0, sm_sender = get32 buf 4, sm_msg_id = get32 buf 8,
      sm_final_seq = get32 buf 12, sm_final_seq_proposer = get32 buf 16\<rparr>"

section \<open>One 32-bit field\<close>

lemma length_put32 [simp]: "length (put32 buf off w) = length buf"
  by (simp add: put32_def packi32_def)

lemma put32_nth_other:
  "k < off \<or> off + 3 < k \<Longrightarrow> put32 buf off w ! k = buf ! k"
  by (auto simp: put32_def packi32_def nth_list_update)

lemma unpacku32_bound: "unpacku32 buf off = ucast (get32 buf off)"
proof (rule bit_word_eqI)
  fix n assume "n < LENGTH(64)"
  then show "bit (unpacku32 buf off) n = bit (ucast (get32 buf off) :: u64) n"
    by (auto simp: unpacku32_def get32_def bit_simps dest: bit_imp_le_length)
qed

lemma ucast_bytes_of_u32:
  fixes w :: u32
  defines "i \<equiv> ucast w :: u64"
  shows "ucast (push_bit 24 (ucast (ucast (drop_bit 24 i) :: u8)) OR
     push_bit 16 (ucast (ucast (drop_bit 16 i) :: u8)) OR
     push_bit 8 (ucast (ucast (drop_bit 8 i) :: u8)) OR ucast (ucast i :: u8) :: u64) = w"
proof (rule bit_word_eqI)
  fix n assume "n < LENGTH(32)"
  then consider "n < 8" | "8 \<le> n" "n < 16" | "16 \<le> n" "n < 24" | "24 \<le> n" "n < 32"
    by force
  then show "bit (ucast (push_bit 24 (ucast (ucast (drop_bit 24 i) :: u8)) OR
     push_bit 16 (ucast (ucast (drop_bit 16 i) :: u8)) OR
     push_bit 8 (ucast (ucast (drop_bit 8 i) :: u8)) OR ucast (ucast i :: u8) :: u64) :: u32) n = bit w n"
    by cases (auto simp: i_def bit_simps)
qed

lemma get32_put32_same [simp]:
  assumes "off + 3 < length buf"
  shows "get32 (put32 buf off w) off = w"
  using assms ucast_bytes_of_u32 [of w]
  by (simp add: get32_def put32_def unpacku32_def packi32_def nth_list_update)

lemma get32_put32_other [simp]:
  assumes "off + 4 \<le> off' \<or> off' + 4 \<le> off"
  shows "get32 (put32 buf off w) off' = get32 buf off'"
  using assms by (auto simp: get32_def unpacku32_def put32_nth_other)

section \<open>Whole messages\<close>

text \<open>
  What every message format promises its users. The laws are stated once, for an encoder that
  overwrites a buffer of \<open>MAX_STRUCT_SIZE\<close> bytes; the client lemmas say that a receiver can tell
  from the first word which decoder to use, and that two different messages never share a packet.
\<close>

locale message_format =
  fixes enc :: "'m \<Rightarrow> u8 list \<Rightarrow> u8 list"
    and dec :: "u8 list \<Rightarrow> 'm"
    and tag :: "'m \<Rightarrow> u32"
  assumes enc_length: "length buf = MAX_STRUCT_SIZE \<Longrightarrow> length (enc m buf) = MAX_STRUCT_SIZE"
    and dec_enc: "length buf = MAX_STRUCT_SIZE \<Longrightarrow> dec (enc m buf) = m"
    and tag_enc: "length buf = MAX_STRUCT_SIZE \<Longrightarrow> get32 (enc m buf) 0 = tag m"
begin

lemma enc_inject:
  "length buf = MAX_STRUCT_SIZE \<Longrightarrow> length buf' = MAX_STRUCT_SIZE \<Longrightarrow>
   enc m buf = enc m' buf' \<Longrightarrow> m = m'"
  by (metis dec_enc)

lemma first_word:
  "length buf = MAX_STRUCT_SIZE \<Longrightarrow> unpacku32 (enc m buf) 0 = ucast (tag m)"
  by (simp add: unpacku32_bound tag_enc)

end

interpretation data_format:
  message_format serialize_data_message deserialize_data_message dm_type
  by unfold_locales
    (simp_all add: serialize_data_message_def deserialize_data_message_def MAX_STRUCT_SIZE_def)

interpretation ack_format:
  message_format serialize_ack_message deserialize_ack_message am_type
  by unfold_locales
    (simp_all add: serialize_ack_message_def deserialize_ack_message_def MAX_STRUCT_SIZE_def)

interpretation seq_format:
  message_format serialize_seq_message deserialize_seq_message sm_type
  by unfold_locales
    (simp_all add: serialize_seq_message_def deserialize_seq_message_def MAX_STRUCT_SIZE_def)

lemmas format_length [simp] = data_format.enc_length ack_format.enc_length seq_format.enc_length
lemmas format_roundtrip [simp] = data_format.dec_enc ack_format.dec_enc seq_format.dec_enc
lemmas format_first_word [simp] = data_format.first_word ack_format.first_word seq_format.first_word

text \<open>The bytes of a data packet behind its fourth word are the caller's.\<close>

lemma serialize_data_message_tail:
  "16 \<le> k \<Longrightarrow> serialize_data_message m buf ! k = buf ! k"
  by (simp add: serialize_data_message_def put32_nth_other)

end
