(* ===== verification/StdHeap.thy ===== *)
theory StdHeap
  imports Prelude
begin

text \<open>
  The heap algorithms of the C++ standard library that the delivery queue uses:
  \<open>std::push_heap\<close>, \<open>std::pop_heap\<close> and \<open>std::make_heap\<close> on a vector with a comparison \<open>lt\<close> (the \<open>comp\<close> of the standard).
  They are written after the GNU implementation (\<open>bits/stl_heap.h\<close>): a hole is moved through the
  array and the value is put into it at the end. Which of two equivalent elements comes first is
  therefore the one the shipped program shows. A heap is a maximum heap for \<open>lt\<close>, as in C++.
\<close>

section \<open>The algorithms\<close>

definition parent :: "nat \<Rightarrow> nat" where
  "parent i = (i - 1) div 2"

lemma parent_less [simp]: "0 < i \<Longrightarrow> parent i < i"
  by (simp add: parent_def)

lemma parent_less' [simp]: "base < i \<Longrightarrow> parent i < i"
  by (simp add: parent_def)

lemma parent_less_length [simp]: "i < n \<Longrightarrow> parent i < n"
  by (simp add: parent_def)


text \<open>\<open>__push_heap\<close>: move the hole up while the parent compares less than the value.\<close>

function sift_up :: "('a \<Rightarrow> 'a \<Rightarrow> bool) \<Rightarrow> 'a list \<Rightarrow> nat \<Rightarrow> nat \<Rightarrow> 'a \<Rightarrow> 'a list" where
  "sift_up lt xs hole base v =
     (if base < hole \<and> lt (xs ! parent hole) v
      then sift_up lt (xs[hole := xs ! parent hole]) (parent hole) base v
      else xs[hole := v])"
  by pat_completeness auto
termination
  by (relation "measure (\<lambda>(lt, xs, hole, base, v). hole)") auto

declare sift_up.simps [simp del]

text \<open>
  \<open>__adjust_heap\<close>: move the hole down to the bottom along the greater child, where a last left
  child without a sibling counts, and sift the value up from there.
\<close>

function sift_down :: "('a \<Rightarrow> 'a \<Rightarrow> bool) \<Rightarrow> 'a list \<Rightarrow> nat \<Rightarrow> nat \<Rightarrow> 'a list \<times> nat" where
  "sift_down lt xs hole len =
     (if hole < (len - 1) div 2
      then let c = (if lt (xs ! (2 * (hole + 1))) (xs ! (2 * (hole + 1) - 1))
                    then 2 * (hole + 1) - 1 else 2 * (hole + 1))
           in sift_down lt (xs[hole := xs ! c]) c len
      else if even len \<and> hole = (len - 2) div 2 \<and> 2 \<le> len
      then (xs[hole := xs ! (2 * (hole + 1) - 1)], 2 * (hole + 1) - 1)
      else (xs, hole))"
  by pat_completeness auto
termination
  by (relation "measure (\<lambda>(lt, xs, hole, len). len - hole)") (auto simp: Let_def)

declare sift_down.simps [simp del]

definition adjust_heap :: "('a \<Rightarrow> 'a \<Rightarrow> bool) \<Rightarrow> 'a list \<Rightarrow> nat \<Rightarrow> nat \<Rightarrow> 'a \<Rightarrow> 'a list" where
  "adjust_heap lt xs hole len v =
     (case sift_down lt xs hole len of (ys, h) \<Rightarrow> sift_up lt ys h hole v)"

text \<open>\<open>push_heap\<close>: the last element joins the heap formed by the others.\<close>

definition push_heap :: "('a \<Rightarrow> 'a \<Rightarrow> bool) \<Rightarrow> 'a list \<Rightarrow> 'a list" where
  "push_heap lt xs =
     (if xs = [] then xs else sift_up lt xs (length xs - 1) 0 (last xs))"

text \<open>\<open>pop_heap\<close>: the front goes to the last position, the rest is a heap again.\<close>

definition pop_heap :: "('a \<Rightarrow> 'a \<Rightarrow> bool) \<Rightarrow> 'a list \<Rightarrow> 'a list" where
  "pop_heap lt xs =
     (if 1 < length xs
      then adjust_heap lt (butlast xs) 0 (length xs - 1) (last xs) @ [hd xs]
      else xs)"

text \<open>\<open>make_heap\<close>: adjust every inner position, from the last parent to the root.\<close>

fun make_heap_from :: "('a \<Rightarrow> 'a \<Rightarrow> bool) \<Rightarrow> 'a list \<Rightarrow> nat \<Rightarrow> 'a list" where
  "make_heap_from lt xs 0 = adjust_heap lt xs 0 (length xs) (xs ! 0)"
| "make_heap_from lt xs (Suc p) =
     make_heap_from lt (adjust_heap lt xs (Suc p) (length xs) (xs ! Suc p)) p"

definition make_heap :: "('a \<Rightarrow> 'a \<Rightarrow> bool) \<Rightarrow> 'a list \<Rightarrow> 'a list" where
  "make_heap lt xs =
     (if length xs < 2 then xs else make_heap_from lt xs ((length xs - 2) div 2))"

section \<open>What a heap is\<close>

text \<open>\<open>heap_from lt k xs\<close>: the heap condition at every position whose parent is at least \<open>k\<close>.\<close>

definition heap_from :: "('a \<Rightarrow> 'a \<Rightarrow> bool) \<Rightarrow> nat \<Rightarrow> 'a list \<Rightarrow> bool" where
  "heap_from lt k xs \<longleftrightarrow>
     (\<forall>i < length xs. 0 < i \<and> k \<le> parent i \<longrightarrow> \<not> lt (xs ! parent i) (xs ! i))"

definition is_heap :: "('a \<Rightarrow> 'a \<Rightarrow> bool) \<Rightarrow> 'a list \<Rightarrow> bool" where
  "is_heap lt xs = heap_from lt 0 xs"

lemma heap_fromD:
  "heap_from lt k xs \<Longrightarrow> i < length xs \<Longrightarrow> 0 < i \<Longrightarrow> k \<le> parent i \<Longrightarrow>
   \<not> lt (xs ! parent i) (xs ! i)"
  by (simp add: heap_from_def)

text \<open>
  The condition with a hole: every pair that avoids the hole is in order, and the parent of the
  hole dominates the children of the hole.
\<close>

definition hole_heap :: "('a \<Rightarrow> 'a \<Rightarrow> bool) \<Rightarrow> nat \<Rightarrow> 'a list \<Rightarrow> nat \<Rightarrow> bool" where
  "hole_heap lt base xs hole \<longleftrightarrow>
     (\<forall>i < length xs. 0 < i \<and> base \<le> parent i \<and> i \<noteq> hole \<and> parent i \<noteq> hole \<longrightarrow>
        \<not> lt (xs ! parent i) (xs ! i)) \<and>
     (\<forall>i < length xs. 0 < i \<and> parent i = hole \<and> base < hole \<longrightarrow>
        \<not> lt (xs ! parent hole) (xs ! i))"

lemma hole_heap_pair:
  "hole_heap lt base xs hole \<Longrightarrow> i < length xs \<Longrightarrow> 0 < i \<Longrightarrow> base \<le> parent i \<Longrightarrow> i \<noteq> hole \<Longrightarrow>
   parent i \<noteq> hole \<Longrightarrow> \<not> lt (xs ! parent i) (xs ! i)"
  by (simp add: hole_heap_def)

lemma hole_heap_grandchild:
  "hole_heap lt base xs hole \<Longrightarrow> i < length xs \<Longrightarrow> 0 < i \<Longrightarrow> parent i = hole \<Longrightarrow> base < hole \<Longrightarrow>
   \<not> lt (xs ! parent hole) (xs ! i)"
  by (simp add: hole_heap_def)

text \<open>The value fits into the hole as far as the children of the hole are concerned.\<close>

definition fits_below :: "('a \<Rightarrow> 'a \<Rightarrow> bool) \<Rightarrow> 'a list \<Rightarrow> nat \<Rightarrow> 'a \<Rightarrow> bool" where
  "fits_below lt xs hole v \<longleftrightarrow>
     (\<forall>i < length xs. 0 < i \<and> parent i = hole \<longrightarrow> \<not> lt v (xs ! i))"

section \<open>Lengths and contents\<close>

lemma length_sift_up [simp]: "length (sift_up lt xs hole base v) = length xs"
  by (induction lt xs hole base v rule: sift_up.induct) (subst sift_up.simps, simp)

lemma mset_sift_up:
  "hole < length xs \<Longrightarrow> mset (sift_up lt xs hole base v) = mset (xs[hole := v])"
proof (induction lt xs hole base v rule: sift_up.induct)
  case (1 lt xs hole base v)
  show ?case
  proof (cases "base < hole \<and> lt (xs ! parent hole) v")
    case True
    let ?p = "parent hole"
    from True have "?p < hole" by simp
    with "1.prems" have p: "?p < length xs" "hole \<noteq> ?p" by simp_all
    with True 1 have "mset (sift_up lt xs hole base v) = mset (xs[hole := xs ! ?p, ?p := v])"
      by (simp add: sift_up.simps [of lt xs hole])
    with p "1.prems" show ?thesis by (simp add: list_update_swap_mset)
  next
    case False
    then show ?thesis by (subst sift_up.simps) auto
  qed
qed

definition greater_child :: "('a \<Rightarrow> 'a \<Rightarrow> bool) \<Rightarrow> 'a list \<Rightarrow> nat \<Rightarrow> nat" where
  "greater_child lt xs hole =
     (if lt (xs ! (2 * (hole + 1))) (xs ! (2 * (hole + 1) - 1))
      then 2 * (hole + 1) - 1 else 2 * (hole + 1))"

lemma sift_down_unfold:
  "sift_down lt xs hole len =
     (if hole < (len - 1) div 2
      then sift_down lt (xs[hole := xs ! greater_child lt xs hole]) (greater_child lt xs hole) len
      else if even len \<and> hole = (len - 2) div 2 \<and> 2 \<le> len
      then (xs[hole := xs ! (2 * hole + 1)], 2 * hole + 1)
      else (xs, hole))"
  by (subst sift_down.simps) (simp add: greater_child_def Let_def)

lemma sift_down_last_child:
  "\<not> hole < (len - 1) div 2 \<Longrightarrow> even len \<and> hole = (len - 2) div 2 \<and> 2 \<le> len \<Longrightarrow>
   sift_down lt xs hole len = (xs[hole := xs ! (2 * hole + 1)], 2 * hole + 1)"
  by (subst sift_down_unfold, subst if_not_P, assumption, subst if_P, assumption, rule refl)

lemma greater_child_bounds:
  "hole < (len - 1) div 2 \<Longrightarrow>
   greater_child lt xs hole < len \<and> hole < greater_child lt xs hole \<and>
   parent (greater_child lt xs hole) = hole"
  by (auto simp: greater_child_def parent_def)

text \<open>The positions below \<open>base\<close>, those the hole can reach.\<close>

function in_subtree :: "nat \<Rightarrow> nat \<Rightarrow> bool" where
  "in_subtree base h = (if h = base then True else if base < h then in_subtree base (parent h) else False)"
  by pat_completeness auto
termination
  by (relation "measure snd") auto

declare in_subtree.simps [simp del]

lemma in_subtree_refl [simp]: "in_subtree base base"
  by (simp add: in_subtree.simps)

lemma in_subtree_zero [simp]: "in_subtree 0 h"
proof (induction h rule: less_induct)
  case (less h)
  then show ?case by (subst in_subtree.simps) auto
qed

lemma in_subtree_ge: "in_subtree base h \<Longrightarrow> base \<le> h"
  by (subst (asm) in_subtree.simps) (auto split: if_splits)

lemma in_subtree_parent: "in_subtree base h \<Longrightarrow> base < h \<Longrightarrow> in_subtree base (parent h)"
  by (subst (asm) in_subtree.simps) (auto split: if_splits)

lemma in_subtree_child:
  "in_subtree base h \<Longrightarrow> h < c \<Longrightarrow> parent c = h \<Longrightarrow> in_subtree base c"
  by (subst in_subtree.simps) (auto dest: in_subtree_ge)

section \<open>Correctness for a strict weak ordering\<close>

text \<open>
  The standard requires the comparison of a heap to be a strict weak ordering and promises the
  heap operations under that condition only. The locale is that requirement; \<open>cmp\<close> of the
  delivery queue interprets it.
\<close>

locale strict_weak_order =
  fixes lt :: "'a \<Rightarrow> 'a \<Rightarrow> bool"
  assumes lt_asym: "lt x y \<Longrightarrow> \<not> lt y x"
    and lt_negtrans: "\<not> lt x y \<Longrightarrow> \<not> lt y z \<Longrightarrow> \<not> lt x z"
begin

lemma sift_up_step:
  assumes hole: "hole_heap lt base xs hole" and h: "hole < length xs" and base: "base < hole"
    and sub: "in_subtree base hole" and lt: "lt (xs ! parent hole) v"
  shows "hole_heap lt base (xs[hole := xs ! parent hole]) (parent hole)"
    and "fits_below lt (xs[hole := xs ! parent hole]) (parent hole) v"
proof -
  let ?p = "parent hole" and ?ys = "xs[hole := xs ! parent hole]"
  have p: "?p < hole" "base \<le> ?p" "in_subtree base ?p"
    using base in_subtree_parent [OF sub base] by (auto dest: in_subtree_ge)
  have sib: "\<not> lt (xs ! ?p) (xs ! i)" if "i < length xs" "0 < i" "parent i = ?p" "i \<noteq> hole" for i
    using hole that p by (auto simp: hole_heap_def)
  have below: "\<not> lt (xs ! ?p) (xs ! i)" if "i < length xs" "0 < i" "parent i = hole" for i
    using hole that base by (auto simp: hole_heap_def)
  have up: "\<not> lt (xs ! parent ?p) (xs ! ?p)" if "base < ?p"
  proof -
    have "base \<le> parent ?p" "parent ?p < ?p"
      using in_subtree_parent [OF p(3) that] that by (auto dest: in_subtree_ge)
    with that p h show ?thesis by (intro hole_heap_pair [OF hole]) auto
  qed
  show "fits_below lt ?ys ?p v"
    unfolding fits_below_def
  proof (intro allI impI)
    fix i assume i: "i < length ?ys" "0 < i \<and> parent i = ?p"
    have v: "\<not> lt v (xs ! ?p)" using lt by (rule lt_asym)
    show "\<not> lt v (?ys ! i)"
    proof (cases "i = hole")
      case True
      with v h show ?thesis by simp
    next
      case False
      with sib i have "\<not> lt (xs ! ?p) (xs ! i)" by simp
      with v False show ?thesis by (simp add: lt_negtrans)
    qed
  qed
  show "hole_heap lt base ?ys ?p"
    unfolding hole_heap_def
  proof (intro conjI allI impI)
    fix i assume i: "i < length ?ys"
      "0 < i \<and> base \<le> parent i \<and> i \<noteq> ?p \<and> parent i \<noteq> ?p"
    show "\<not> lt (?ys ! parent i) (?ys ! i)"
    proof (cases "parent i = hole")
      case True
      with i have "i \<noteq> hole" by (metis parent_less less_irrefl)
      with below [of i] i True h show ?thesis by simp
    next
      case False
      moreover from i have "i \<noteq> hole" by auto
      ultimately show ?thesis using hole i by (simp add: hole_heap_def)
    qed
  next
    fix i assume i: "i < length ?ys" "0 < i \<and> parent i = ?p \<and> base < ?p"
    then have "parent ?p < hole" using p by (meson parent_less' less_trans)
    then have "?ys ! parent ?p = xs ! parent ?p" by simp
    moreover have "\<not> lt (xs ! parent ?p) (?ys ! i)"
    proof (cases "i = hole")
      case True
      with up i h show ?thesis by simp
    next
      case False
      with sib [of i] i have "\<not> lt (xs ! ?p) (xs ! i)" by simp
      with up i False show ?thesis by (simp add: lt_negtrans)
    qed
    ultimately show "\<not> lt (?ys ! parent ?p) (?ys ! i)" by simp
  qed
qed

lemma sift_up_stop:
  assumes hole: "hole_heap lt base xs hole" and h: "hole < length xs"
    and fits: "fits_below lt xs hole v" and stop: "\<not> (base < hole \<and> lt (xs ! parent hole) v)"
  shows "heap_from lt base (xs[hole := v])"
  unfolding heap_from_def
proof (intro allI impI)
  fix i assume i: "i < length (xs[hole := v])" "0 < i \<and> base \<le> parent i"
  then have ip: "parent i < i" by simp
  consider "i = hole" | "parent i = hole" "i \<noteq> hole" | "i \<noteq> hole" "parent i \<noteq> hole" by blast
  then show "\<not> lt (xs[hole := v] ! parent i) (xs[hole := v] ! i)"
  proof cases
    case 1
    with i ip stop h show ?thesis by auto
  next
    case 2
    with i fits show ?thesis by (auto simp: fits_below_def)
  next
    case 3
    with i hole show ?thesis by (simp add: hole_heap_def)
  qed
qed

lemma sift_up_heap:
  "\<lbrakk>hole < length xs; in_subtree base hole; hole_heap lt base xs hole; fits_below lt xs hole v\<rbrakk>
   \<Longrightarrow> heap_from lt base (sift_up lt xs hole base v)"
proof (induction hole arbitrary: xs rule: less_induct)
  case (less hole)
  show ?case
  proof (cases "base < hole \<and> lt (xs ! parent hole) v")
    case True
    with less.prems have "hole_heap lt base (xs[hole := xs ! parent hole]) (parent hole)"
      and "fits_below lt (xs[hole := xs ! parent hole]) (parent hole) v"
      by (auto intro: sift_up_step)
    moreover from True less.prems have "in_subtree base (parent hole)"
      by (simp add: in_subtree_parent)
    ultimately have "heap_from lt base (sift_up lt (xs[hole := xs ! parent hole]) (parent hole) base v)"
      using True less.prems by (intro less.IH) auto
    with True show ?thesis by (subst sift_up.simps) simp
  next
    case False
    with less.prems have "heap_from lt base (xs[hole := v])"
      by (intro sift_up_stop) auto
    with False show ?thesis by (subst sift_up.simps) auto
  qed
qed

lemma greater_child_dominates:
  assumes "hole < (length xs - 1) div 2" "i < length xs" "0 < i" "parent i = hole"
  shows "\<not> lt (xs ! greater_child lt xs hole) (xs ! i)"
proof -
  from assms(3,4) have "i = 2 * hole + 1 \<or> i = 2 * (hole + 1)"
    by (auto simp: parent_def)
  then show ?thesis
    using lt_asym [of "xs ! (2 * (hole + 1))" "xs ! (2 * (hole + 1) - 1)"]
      lt_asym [of "xs ! i" "xs ! i"]
    by (auto simp: greater_child_def)
qed

lemma hole_heap_move_down:
  assumes hole: "hole_heap lt base xs hole" and sub: "in_subtree base hole"
    and c: "c < length xs" "hole < c" "parent c = hole"
    and dom: "\<And>i. i < length xs \<Longrightarrow> 0 < i \<Longrightarrow> parent i = hole \<Longrightarrow> \<not> lt (xs ! c) (xs ! i)"
  shows "hole_heap lt base (xs[hole := xs ! c]) c"
  unfolding hole_heap_def
proof (intro conjI allI impI)
  let ?ys = "xs[hole := xs ! c]"
  have base: "base \<le> hole" using sub by (rule in_subtree_ge)
  fix i assume i: "i < length ?ys" "0 < i \<and> base \<le> parent i \<and> i \<noteq> c \<and> parent i \<noteq> c"
  then have ip: "parent i < i" by simp
  consider "i = hole" | "parent i = hole" "i \<noteq> hole" | "i \<noteq> hole" "parent i \<noteq> hole" by blast
  then show "\<not> lt (?ys ! parent i) (?ys ! i)"
  proof cases
    case 1
    with i ip c have "\<not> lt (xs ! parent hole) (xs ! c)"
      by (intro hole_heap_grandchild [OF hole]) auto
    with 1 i ip show ?thesis by simp
  next
    case 2
    with i c dom [of i] show ?thesis by simp
  next
    case 3
    with i show ?thesis using hole_heap_pair [OF hole, of i] by simp
  qed
next
  let ?ys = "xs[hole := xs ! c]"
  have base: "base \<le> hole" using sub by (rule in_subtree_ge)
  fix i assume i: "i < length ?ys" "0 < i \<and> parent i = c \<and> base < c"
  with parent_less [of i] have ip: "parent i < i" by simp
  with i c base have "\<not> lt (xs ! parent i) (xs ! i)"
    by (intro hole_heap_pair [OF hole]) auto
  with i ip c show "\<not> lt (?ys ! parent c) (?ys ! i)" by simp
qed

text \<open>What the descent establishes: the hole is at the bottom and the contents are the same.\<close>

definition sunk :: "nat \<Rightarrow> 'a list \<Rightarrow> nat \<Rightarrow> 'a list \<Rightarrow> nat \<Rightarrow> bool" where
  "sunk base xs hole ys h \<longleftrightarrow>
     length ys = length xs \<and> h < length ys \<and> in_subtree base h \<and> hole_heap lt base ys h \<and>
     length ys \<le> 2 * h + 1 \<and> (\<forall>v. mset (ys[h := v]) = mset (xs[hole := v]))"

lemma mset_move_hole:
  "hole < length xs \<Longrightarrow> c < length xs \<Longrightarrow> hole \<noteq> c \<Longrightarrow>
   mset (xs[hole := xs ! c, c := v]) = mset (xs[hole := v])"
  by (rule list_update_swap_mset)

lemma sift_down_sunk:
  assumes "hole < length xs" "in_subtree base hole" "hole_heap lt base xs hole"
    and "sift_down lt xs hole (length xs) = (ys, h)"
  shows "sunk base xs hole ys h"
  using assms
proof (induction "length xs - hole" arbitrary: xs hole rule: less_induct)
  case less
  let ?n = "length xs"
  consider "hole < (?n - 1) div 2"
    | "\<not> hole < (?n - 1) div 2" "even ?n" "hole = (?n - 2) div 2" "2 \<le> ?n"
    | "\<not> hole < (?n - 1) div 2" "\<not> (even ?n \<and> hole = (?n - 2) div 2 \<and> 2 \<le> ?n)"
    by blast
  then show ?case
  proof cases
    case 1
    let ?c = "greater_child lt xs hole"
    let ?xs = "xs[hole := xs ! ?c]"
    have c: "?c < ?n" "hole < ?c" "parent ?c = hole"
      using greater_child_bounds [OF 1, where lt = lt and xs = xs] by auto
    have "hole_heap lt base ?xs ?c"
      by (rule hole_heap_move_down [OF less.prems(3,2) c greater_child_dominates [OF 1]])
    moreover have "in_subtree base ?c"
      by (rule in_subtree_child [OF less.prems(2) c(2,3)])
    moreover have "sift_down lt ?xs ?c (length ?xs) = (ys, h)"
      using less.prems(4) 1 by (simp add: sift_down_unfold [of lt xs hole])
    moreover have "length ?xs - ?c < ?n - hole" "?c < length ?xs" using c by simp_all
    ultimately have "sunk base ?xs ?c ys h"
      by (intro less.hyps)
    with less.prems c(1,2) show ?thesis by (simp add: sunk_def mset_move_hole)
  next
    case 2
    let ?c = "2 * hole + 1"
    have c: "?c < ?n" "hole < ?c" "parent ?c = hole" "?n \<le> 2 * ?c + 1"
      using 2 by (auto simp: parent_def elim!: evenE)
    have only: "i = ?c" if "i < ?n" "0 < i" "parent i = hole" for i
    proof -
      from 2(2) obtain b where "?n = 2 * b" by (elim evenE)
      with that 2 show ?thesis unfolding parent_def by arith
    qed
    have "\<not> lt (xs ! ?c) (xs ! i)" if "i < ?n" "0 < i" "parent i = hole" for i
      using only [OF that] lt_asym by blast
    then have "hole_heap lt base (xs[hole := xs ! ?c]) ?c"
      by (rule hole_heap_move_down [OF less.prems(3,2) c(1-3)])
    moreover have "in_subtree base ?c"
      by (rule in_subtree_child [OF less.prems(2) c(2,3)])
    moreover have "sift_down lt xs hole ?n = (xs[hole := xs ! ?c], ?c)"
      by (rule sift_down_last_child [OF 2(1) conjI [OF 2(2) conjI [OF 2(3,4)]]])
    then have "ys = xs[hole := xs ! ?c]" "h = ?c" using less.prems(4) by simp_all
    ultimately show ?thesis using less.prems c by (simp add: sunk_def mset_move_hole)
  next
    case 3
    then have "sift_down lt xs hole ?n = (xs, hole)"
      by (simp only: sift_down_unfold [of lt xs hole] if_False)
    with less.prems(4) have "ys = xs" "h = hole" by simp_all
    moreover have "?n \<le> 2 * hole + 1"
      using 3 less.prems(1) by (cases "even ?n") (auto elim!: evenE oddE)
    ultimately show ?thesis using less.prems by (simp add: sunk_def)
  qed
qed

lemma sunk_fits: "sunk base xs hole ys h \<Longrightarrow> fits_below lt ys h v"
  by (auto simp: sunk_def fits_below_def parent_def)

lemma adjust_heap_correct:
  assumes "heap_from lt (Suc base) xs" "base < length xs"
  shows "heap_from lt base (adjust_heap lt xs base (length xs) v)"
    and "mset (adjust_heap lt xs base (length xs) v) = mset (xs[base := v])"
    and "length (adjust_heap lt xs base (length xs) v) = length xs"
proof -
  obtain ys h where sd: "sift_down lt xs base (length xs) = (ys, h)" by force
  have "hole_heap lt base xs base"
    using assms(1) by (auto simp: hole_heap_def heap_from_def)
  with sd assms have sunk: "sunk base xs base ys h"
    by (intro sift_down_sunk) auto
  with sd show "heap_from lt base (adjust_heap lt xs base (length xs) v)"
    and "mset (adjust_heap lt xs base (length xs) v) = mset (xs[base := v])"
    and "length (adjust_heap lt xs base (length xs) v) = length xs"
    using sunk_fits [OF sunk, of v]
    by (auto simp: adjust_heap_def sunk_def mset_sift_up intro: sift_up_heap)
qed

lemma heap_from_list_update: "k < j \<Longrightarrow> heap_from lt j xs \<Longrightarrow> heap_from lt j (xs[k := v])"
  by (auto simp: heap_from_def nth_list_update dest: parent_less)

lemma push_heap_correct:
  assumes "is_heap lt (butlast xs)"
  shows "is_heap lt (push_heap lt xs)" and "mset (push_heap lt xs) = mset xs"
proof -
  let ?h = "length xs - 1"
  show "is_heap lt (push_heap lt xs)"
  proof (cases "xs = []")
    case False
    have "hole_heap lt 0 xs ?h"
      unfolding hole_heap_def
    proof (intro conjI allI impI)
      fix i assume i: "i < length xs" "0 < i \<and> 0 \<le> parent i \<and> i \<noteq> ?h \<and> parent i \<noteq> ?h"
      then have "i < length (butlast xs)" "parent i < length (butlast xs)" by auto
      with i heap_fromD [of lt 0 "butlast xs" i] assms
      show "\<not> lt (xs ! parent i) (xs ! i)" by (simp add: is_heap_def nth_butlast)
    qed (auto simp: parent_def)
    moreover have "fits_below lt xs ?h (last xs)"
      by (auto simp: fits_below_def parent_def)
    ultimately have "heap_from lt 0 (sift_up lt xs ?h 0 (last xs))"
      using False by (intro sift_up_heap) auto
    with False show ?thesis by (simp add: push_heap_def is_heap_def)
  qed (simp add: push_heap_def is_heap_def heap_from_def)
  show "mset (push_heap lt xs) = mset xs"
    by (cases "xs = []") (simp_all add: push_heap_def mset_sift_up last_conv_nth)
qed

lemma pop_heap_correct:
  assumes "is_heap lt xs" "xs \<noteq> []"
  shows "is_heap lt (butlast (pop_heap lt xs))" and "last (pop_heap lt xs) = hd xs"
    and "mset (pop_heap lt xs) = mset xs"
proof -
  show "is_heap lt (butlast (pop_heap lt xs))" "last (pop_heap lt xs) = hd xs"
    "mset (pop_heap lt xs) = mset xs"
  proof (atomize (full), cases "1 < length xs")
    case True
    let ?ys = "butlast xs"
    have len: "length ?ys = length xs - 1" "0 < length ?ys" using True by auto
    have "heap_from lt (Suc 0) ?ys"
      using assms(1) by (auto simp: heap_from_def is_heap_def nth_butlast)
    note adj = adjust_heap_correct [OF this len(2), of "last xs"]
    have "mset (?ys[0 := last xs]) + {#hd xs#} = mset xs"
      using True assms(2) by (cases xs) (auto simp: mset_butlast_last)
    with adj len True show "is_heap lt (butlast (pop_heap lt xs)) \<and>
      last (pop_heap lt xs) = hd xs \<and> mset (pop_heap lt xs) = mset xs"
      by (simp add: pop_heap_def is_heap_def butlast_append)
  next
    case False
    with assms(2) obtain x where "xs = [x]" by (cases xs) auto
    then show "is_heap lt (butlast (pop_heap lt xs)) \<and>
      last (pop_heap lt xs) = hd xs \<and> mset (pop_heap lt xs) = mset xs"
      by (simp add: pop_heap_def is_heap_def heap_from_def)
  qed
qed

lemma make_heap_from_correct:
  "\<lbrakk>heap_from lt (Suc k) xs; k < length xs\<rbrakk> \<Longrightarrow>
   is_heap lt (make_heap_from lt xs k) \<and> mset (make_heap_from lt xs k) = mset xs"
proof (induction k arbitrary: xs)
  case 0
  then show ?case
    using adjust_heap_correct [of 0 xs "xs ! 0"] by (simp add: is_heap_def)
next
  case (Suc k)
  let ?ys = "adjust_heap lt xs (Suc k) (length xs) (xs ! Suc k)"
  from Suc.prems have "heap_from lt (Suc k) ?ys" "mset ?ys = mset xs" "length ?ys = length xs"
    using adjust_heap_correct [of "Suc k" xs "xs ! Suc k"] by simp_all
  with Suc.prems Suc.IH [of ?ys] show ?case by simp
qed

lemma make_heap_correct:
  shows "is_heap lt (make_heap lt xs)" and "mset (make_heap lt xs) = mset xs"
proof -
  show "is_heap lt (make_heap lt xs)" "mset (make_heap lt xs) = mset xs"
  proof (atomize (full), cases "length xs < 2")
    case True
    then show "is_heap lt (make_heap lt xs) \<and> mset (make_heap lt xs) = mset xs"
      by (auto simp: make_heap_def is_heap_def heap_from_def)
  next
    case False
    have "heap_from lt (Suc ((length xs - 2) div 2)) xs"
      by (auto simp: heap_from_def parent_def)
    with False show "is_heap lt (make_heap lt xs) \<and> mset (make_heap lt xs) = mset xs"
      using make_heap_from_correct by (simp add: make_heap_def)
  qed
qed

lemma heap_front_greatest:
  assumes "is_heap lt xs" "i < length xs"
  shows "\<not> lt (xs ! 0) (xs ! i)"
  using assms(2)
proof (induction i rule: less_induct)
  case (less i)
  show ?case
  proof (cases "i = 0")
    case True
    then show ?thesis using lt_asym by blast
  next
    case False
    with less have "\<not> lt (xs ! 0) (xs ! parent i)" by simp
    moreover from False less.prems assms(1) have "\<not> lt (xs ! parent i) (xs ! i)"
      by (intro heap_fromD [of lt 0]) (auto simp: is_heap_def)
    ultimately show ?thesis by (rule lt_negtrans)
  qed
qed

lemma heap_hd_greatest:
  assumes "is_heap lt xs" "x \<in> set xs"
  shows "\<not> lt (hd xs) x"
proof -
  from assms(2) obtain i where "i < length xs" "x = xs ! i" by (auto simp: in_set_conv_nth)
  moreover from assms(2) have "hd xs = xs ! 0" by (cases xs) simp_all
  ultimately show ?thesis using heap_front_greatest [OF assms(1)] by simp
qed

end

end
