(* ===== verification/DeliveryQueue.thy ===== *)
theory DeliveryQueue
  imports StdHeap
begin

text \<open>
  The delivery queue of a process: \<open>QueuedMessage\<close> (\<open>CL_global_snapshot.h\<close>), the comparison \<open>cmp\<close>
  (\<open>reliable_multicast.h\<close>) and the four operations of \<open>reliable_multicast.cpp\<close> on the vector
  \<open>deliveryQueue\<close>. The vector is a heap whose front has the least sequence number, ties broken by
  the proposer.
\<close>

section \<open>Data\<close>

record QueuedMessage =
  qm_sequence_number :: u32
  qm_status :: u8
  qm_sender :: u32
  qm_msg_id :: u32
  qm_data :: u32
  qm_proposer :: u32

definition UNDELIVERABLE :: u8 where "UNDELIVERABLE = 0"
definition DELIVERABLE :: u8 where "DELIVERABLE = 1"

definition cmp :: "QueuedMessage \<Rightarrow> QueuedMessage \<Rightarrow> bool" where
  "cmp left right =
     (if qm_sequence_number left = qm_sequence_number right
      then qm_proposer left > qm_proposer right
      else qm_sequence_number left > qm_sequence_number right)"

definition make_queued_msg :: "u32 \<Rightarrow> u8 \<Rightarrow> u32 \<Rightarrow> u32 \<Rightarrow> u32 \<Rightarrow> u32 \<Rightarrow> QueuedMessage" where
  "make_queued_msg sequence_number status sender msg_id data proposer =
     \<lparr>qm_sequence_number = sequence_number, qm_status = status, qm_sender = sender,
      qm_msg_id = msg_id, qm_data = data, qm_proposer = proposer\<rparr>"

section \<open>Operations on the vector\<close>

definition push_msg_to_deliveryqueue ::
    "QueuedMessage \<Rightarrow> QueuedMessage list \<Rightarrow> QueuedMessage list" where
  "push_msg_to_deliveryqueue qm q = push_heap cmp (q @ [qm])"

text \<open>The loop over the queue that changes the first matching element in place.\<close>

fun set_first_match :: "('a \<Rightarrow> bool) \<Rightarrow> ('a \<Rightarrow> 'a) \<Rightarrow> 'a list \<Rightarrow> 'a list option" where
  "set_first_match p f [] = None"
| "set_first_match p f (x # xs) =
     (if p x then Some (f x # xs) else map_option ((#) x) (set_first_match p f xs))"

definition is_msg :: "u32 \<Rightarrow> u32 \<Rightarrow> QueuedMessage \<Rightarrow> bool" where
  "is_msg sender msg_id qm \<longleftrightarrow> qm_sender qm = sender \<and> qm_msg_id qm = msg_id"

definition change_queued_msg_seq_and_status ::
    "u32 \<Rightarrow> u32 \<Rightarrow> u32 \<Rightarrow> u32 \<Rightarrow> u8 \<Rightarrow> QueuedMessage list \<Rightarrow> int \<times> QueuedMessage list" where
  "change_queued_msg_seq_and_status sender msg_id seq_to_change seq_proposer status q =
     (case set_first_match (is_msg sender msg_id)
             (\<lambda>qm. qm\<lparr>qm_sequence_number := seq_to_change, qm_status := status,
                      qm_proposer := seq_proposer\<rparr>) q of
        None \<Rightarrow> (- 1, q)
      | Some q' \<Rightarrow> (0, make_heap cmp q'))"

lemma length_sift_down: "sift_down lt xs hole len = (ys, h) \<Longrightarrow> length ys = length xs"
  by (induction lt xs hole len rule: sift_down.induct)
    (subst (asm) sift_down.simps, auto simp: Let_def split: if_splits)

lemma length_pop_heap [simp]: "length (pop_heap lt xs) = length xs"
  by (auto simp: pop_heap_def adjust_heap_def length_sift_down split: prod.splits)

text \<open>
  \<open>deliver_msg_from_deliveryqueue\<close>: while the front of the queue is deliverable, append it to the
  delivered messages and pop it. The second argument is \<open>deliveredMessage\<close>.
\<close>

function deliver_loop ::
    "QueuedMessage list \<Rightarrow> QueuedMessage list \<Rightarrow> QueuedMessage list \<times> QueuedMessage list" where
  "deliver_loop q delivered =
     (if q \<noteq> [] \<and> qm_status (hd q) = DELIVERABLE
      then deliver_loop (butlast (pop_heap cmp q)) (delivered @ [hd q])
      else (q, delivered))"
  by pat_completeness auto
termination
  by (relation "measure (\<lambda>(q, d). length q)") auto

declare deliver_loop.simps [simp del]

section \<open>The order of messages\<close>

text \<open>The final order of messages is the lexicographic order of sequence number and proposer.\<close>

datatype seq_key = SeqKey (key_seq: u32) (key_proposer: u32)

instantiation seq_key :: linorder
begin

definition less_eq_seq_key :: "seq_key \<Rightarrow> seq_key \<Rightarrow> bool" where
  "less_eq_seq_key a b \<longleftrightarrow>
     key_seq a < key_seq b \<or> key_seq a = key_seq b \<and> key_proposer a \<le> key_proposer b"

definition less_seq_key :: "seq_key \<Rightarrow> seq_key \<Rightarrow> bool" where
  "less_seq_key a b \<longleftrightarrow>
     key_seq a < key_seq b \<or> key_seq a = key_seq b \<and> key_proposer a < key_proposer b"

instance
  by standard (auto simp: less_eq_seq_key_def less_seq_key_def intro: seq_key.expand)

end

definition msg_key :: "QueuedMessage \<Rightarrow> seq_key" where
  "msg_key m = SeqKey (qm_sequence_number m) (qm_proposer m)"

text \<open>The identity of a message: its sender and the sender's number for it.\<close>

definition uid :: "QueuedMessage \<Rightarrow> u32 \<times> u32" where
  "uid m = (qm_sender m, qm_msg_id m)"

lemma is_msg_uid: "is_msg sender msg_id m \<longleftrightarrow> uid m = (sender, msg_id)"
  by (auto simp: is_msg_def uid_def)

lemma cmp_key: "cmp l r \<longleftrightarrow> msg_key r < msg_key l"
  by (auto simp: cmp_def msg_key_def less_seq_key_def)

interpretation cmp_order: strict_weak_order cmp
  by unfold_locales (auto simp: cmp_key)

section \<open>The queue as a priority queue\<close>

text \<open>
  The contract of the vector with its heap operations, and what the delivery loop achieves over
  any queue that meets it: it delivers a prefix of the messages in their order and stops at a
  message that is not ready yet.
\<close>

locale priority_queue = strict_weak_order lt for lt :: "'a \<Rightarrow> 'a \<Rightarrow> bool" +
  fixes inv :: "'a list \<Rightarrow> bool"
    and push :: "'a \<Rightarrow> 'a list \<Rightarrow> 'a list"
    and pop :: "'a list \<Rightarrow> 'a list"
    and rebuild :: "'a list \<Rightarrow> 'a list"
  assumes inv_Nil: "inv []"
    and inv_push: "inv q \<Longrightarrow> inv (push x q)"
    and mset_push: "inv q \<Longrightarrow> mset (push x q) = add_mset x (mset q)"
    and inv_pop: "inv q \<Longrightarrow> q \<noteq> [] \<Longrightarrow> inv (pop q)"
    and mset_pop: "inv q \<Longrightarrow> q \<noteq> [] \<Longrightarrow> mset q = add_mset (hd q) (mset (pop q))"
    and front: "inv q \<Longrightarrow> x \<in> set q \<Longrightarrow> \<not> lt (hd q) x"
    and inv_rebuild: "inv (rebuild q)"
    and mset_rebuild: "mset (rebuild q) = mset q"
begin

lemma set_push: "inv q \<Longrightarrow> set (push x q) = insert x (set q)"
  by (metis mset_push set_mset_add_mset_insert set_mset_mset)

lemma set_rebuild: "set (rebuild q) = set q"
  by (metis mset_rebuild set_mset_mset)

end

locale drained_queue = priority_queue lt inv push pop rebuild
  for lt :: "'a \<Rightarrow> 'a \<Rightarrow> bool" and inv push pop rebuild +
  fixes ready :: "'a \<Rightarrow> bool"
    and loop :: "'a list \<Rightarrow> 'a list \<Rightarrow> 'a list \<times> 'a list"
  assumes loop_stop: "q = [] \<or> \<not> ready (hd q) \<Longrightarrow> loop q d = (q, d)"
    and loop_go: "q \<noteq> [] \<Longrightarrow> ready (hd q) \<Longrightarrow> loop q d = loop (pop q) (d @ [hd q])"
begin

definition drained :: "'a list \<Rightarrow> 'a list \<Rightarrow> 'a list \<Rightarrow> bool" where
  "drained q rest out \<longleftrightarrow>
     inv rest \<and> mset q = mset out + mset rest \<and> (\<forall>x \<in> set out. ready x) \<and>
     sorted_wrt (\<lambda>x y. \<not> lt x y) out \<and> (\<forall>x \<in> set out. \<forall>y \<in> set rest. \<not> lt x y) \<and>
     (rest = [] \<or> \<not> ready (hd rest))"

lemma loop_drains:
  "inv q \<Longrightarrow> \<exists>rest out. loop q d = (rest, d @ out) \<and> drained q rest out"
proof (induction "length q" arbitrary: q d rule: less_induct)
  case less
  show ?case
  proof (cases "q = [] \<or> \<not> ready (hd q)")
    case True
    with less.prems have "loop q d = (q, d @ []) \<and> drained q q []"
      by (auto simp: loop_stop drained_def)
    then show ?thesis by blast
  next
    case False
    with less.prems have ms: "mset q = add_mset (hd q) (mset (pop q))" and inv: "inv (pop q)"
      by (simp_all add: mset_pop inv_pop)
    from ms have len: "length (pop q) < length q"
      by (metis lessI size_add_mset size_mset)
    then obtain rest out where r: "loop (pop q) (d @ [hd q]) = (rest, (d @ [hd q]) @ out)"
      "drained (pop q) rest out"
      using less.hyps inv by blast
    have "set out \<union> set rest \<subseteq> set q"
      using r(2) ms by (metis drained_def set_mset_mset set_mset_union set_mset_add_mset_insert
          subset_insertI)
    with r(2) False ms less.prems have "drained q rest (hd q # out)"
      by (auto simp: drained_def dest: front)
    with r False show ?thesis by (auto simp: loop_go)
  qed
qed

lemma loop_complete:
  assumes "inv q" "loop q d = (rest, d @ out)" "m \<in> set q" "ready m"
    and "\<And>u. u \<in> set q \<Longrightarrow> \<not> ready u \<Longrightarrow> lt u m"
  shows "m \<in> set out"
proof -
  obtain rest' out' where "loop q d = (rest', d @ out')" "drained q rest' out'"
    using loop_drains [OF assms(1)] by blast
  with assms(2) have dr: "drained q rest out" by simp
  then have sets: "set q = set out \<union> set rest"
    by (metis drained_def set_mset_mset set_mset_union)
  show ?thesis
  proof (rule ccontr)
    assume "m \<notin> set out"
    with sets assms(3) have m: "m \<in> set rest" by blast
    then have "rest \<noteq> []" by auto
    with dr have "\<not> ready (hd rest)" by (auto simp: drained_def)
    with \<open>rest \<noteq> []\<close> sets have "lt (hd rest) m" by (intro assms(5)) auto
    with dr m show False by (auto simp: drained_def dest: front)
  qed
qed

end

section \<open>The delivery queue meets the contract\<close>

text \<open>A vector under the heap operations is a priority queue whatever the ordering.\<close>

context strict_weak_order
begin

lemma heap_is_priority_queue:
  "priority_queue lt (is_heap lt) (\<lambda>x q. push_heap lt (q @ [x])) (\<lambda>q. butlast (pop_heap lt q)) (make_heap lt)"
proof
  fix q :: "'a list" and x
  show "is_heap lt []" by (simp add: is_heap_def heap_from_def)
  show "is_heap lt (make_heap lt q)" "mset (make_heap lt q) = mset q" by (rule make_heap_correct)+
  assume inv: "is_heap lt q"
  then show "is_heap lt (push_heap lt (q @ [x]))" "mset (push_heap lt (q @ [x])) = add_mset x (mset q)"
    using push_heap_correct [of "q @ [x]"] by simp_all
  show "\<not> lt (hd q) x" if "x \<in> set q" using inv that by (rule heap_hd_greatest)
  assume ne: "q \<noteq> []"
  note pop = pop_heap_correct [OF inv ne]
  show "is_heap lt (butlast (pop_heap lt q))" by (rule pop)
  have "pop_heap lt q \<noteq> []" using ne by (metis length_0_conv length_pop_heap)
  then show "mset q = add_mset (hd q) (mset (butlast (pop_heap lt q)))"
    using pop(2,3) by (metis mset_butlast_last)
qed

end

interpretation dq: priority_queue cmp "is_heap cmp" push_msg_to_deliveryqueue
    "\<lambda>q. butlast (pop_heap cmp q)" "make_heap cmp"
  unfolding push_msg_to_deliveryqueue_def [abs_def] by (rule cmp_order.heap_is_priority_queue)

interpretation dq: drained_queue cmp "is_heap cmp" push_msg_to_deliveryqueue
    "\<lambda>q. butlast (pop_heap cmp q)" "make_heap cmp" "\<lambda>m. qm_status m = DELIVERABLE" deliver_loop
  by unfold_locales (subst deliver_loop.simps, auto)+

section \<open>Changing a message\<close>

lemma set_first_match_None: "set_first_match p f xs = None \<longleftrightarrow> (\<forall>x \<in> set xs. \<not> p x)"
  by (induction xs) auto

lemma set_first_match_Some:
  "set_first_match p f xs = Some ys \<Longrightarrow>
   \<exists>pre x post. xs = pre @ x # post \<and> p x \<and> (\<forall>y \<in> set pre. \<not> p y) \<and> ys = pre @ f x # post"
proof (induction xs arbitrary: ys)
  case (Cons a xs)
  show ?case
  proof (cases "p a")
    case True
    with Cons.prems have "a # xs = [] @ a # xs \<and> ys = [] @ f a # xs" by simp
    with True show ?thesis by (metis empty_iff list.set(1))
  next
    case False
    with Cons.prems obtain zs where zs: "set_first_match p f xs = Some zs" "ys = a # zs" by auto
    from Cons.IH [OF zs(1)] obtain pre x post where "xs = pre @ x # post" "p x"
      "\<forall>y \<in> set pre. \<not> p y" "zs = pre @ f x # post" by blast
    with False zs(2) show ?thesis
      by (intro exI [of _ "a # pre"] exI [of _ x] exI [of _ post]) simp
  qed
qed simp

text \<open>
  With pairwise different identities, the operation is a map over the queue's contents: the one
  message with the given identity gets the new number, proposer and status.
\<close>

definition finalize :: "u32 \<Rightarrow> u32 \<Rightarrow> u32 \<Rightarrow> u32 \<Rightarrow> u8 \<Rightarrow> QueuedMessage \<Rightarrow> QueuedMessage" where
  "finalize sender msg_id sn prop st m =
     (if uid m = (sender, msg_id)
      then m\<lparr>qm_sequence_number := sn, qm_status := st, qm_proposer := prop\<rparr> else m)"

lemma uid_finalize [simp]: "uid (finalize sender msg_id sn prop st m) = uid m"
  by (simp add: finalize_def uid_def)

lemma data_finalize [simp]: "qm_data (finalize sender msg_id sn prop st m) = qm_data m"
  by (simp add: finalize_def)

lemma change_not_found:
  assumes "(sender, msg_id) \<notin> uid ` set q"
  shows "change_queued_msg_seq_and_status sender msg_id sn prop st q = (- 1, q)"
proof -
  from assms have "\<forall>m \<in> set q. \<not> is_msg sender msg_id m" by (auto simp: is_msg_uid image_iff)
  then have "set_first_match (is_msg sender msg_id)
      (\<lambda>m. m\<lparr>qm_sequence_number := sn, qm_status := st, qm_proposer := prop\<rparr>) q = None"
    by (simp only: set_first_match_None)
  then show ?thesis by (simp add: change_queued_msg_seq_and_status_def)
qed

lemma map_finalize_other:
  "(sender, msg_id) \<notin> uid ` set q \<Longrightarrow> map (finalize sender msg_id sn prop st) q = q"
  by (rule map_idI) (auto simp: finalize_def image_iff)

lemma change_found:
  assumes "(sender, msg_id) \<in> uid ` set q" "distinct (map uid q)"
  shows "\<exists>q'. change_queued_msg_seq_and_status sender msg_id sn prop st q = (0, q') \<and>
     is_heap cmp q' \<and> mset q' = image_mset (finalize sender msg_id sn prop st) (mset q)"
proof -
  let ?f = "\<lambda>m. m\<lparr>qm_sequence_number := sn, qm_status := st, qm_proposer := prop\<rparr>"
  let ?g = "finalize sender msg_id sn prop st"
  from assms(1) have "\<not> (\<forall>m \<in> set q. \<not> is_msg sender msg_id m)" by (auto simp: is_msg_uid)
  then obtain ys where ys: "set_first_match (is_msg sender msg_id) ?f q = Some ys"
    by (metis option.exhaust set_first_match_None)
  then obtain pre x post where split: "q = pre @ x # post" "is_msg sender msg_id x"
    "ys = pre @ ?f x # post"
    using set_first_match_Some by fast
  then have x: "uid x = (sender, msg_id)" by (simp add: is_msg_uid)
  with assms(2) split(1) have "(sender, msg_id) \<notin> uid ` set pre" "(sender, msg_id) \<notin> uid ` set post"
    by auto
  then have "map ?g q = ys"
    using split x by (simp add: map_finalize_other) (simp add: finalize_def)
  then have "mset ys = image_mset ?g (mset q)" by (metis mset_map)
  with ys show ?thesis
    by (simp add: change_queued_msg_seq_and_status_def dq.inv_rebuild dq.mset_rebuild)
qed

end
