(* ===== verification/StdMap.thy ===== *)
theory StdMap
  imports Prelude
begin

text \<open>
  \<open>std::map\<close> as the program uses it (\<open>hostIDtoHostName\<close>, \<open>ackHistory\<close>, \<open>ProposerSeq\<close>,
  \<open>dataHistory\<close>, the channel states of the snapshot): a list of pairs in ascending key order, so
  that \<open>size()\<close> and the iteration order of \<open>for (auto const& kv : m)\<close> are those of the code.
  Lookup is \<open>map_of\<close>. \<open>insert\<close> keeps an existing entry, as the standard says; \<open>m[k]\<close> is
  \<open>subscript\<close>, which inserts a default value when the key is missing.
\<close>

section \<open>Operations\<close>

type_synonym ('k, 'v) std_map = "('k \<times> 'v) list"

fun map_insert :: "'k::linorder \<Rightarrow> 'v \<Rightarrow> ('k, 'v) std_map \<Rightarrow> ('k, 'v) std_map" where
  "map_insert k v [] = [(k, v)]"
| "map_insert k v ((k', v') # m) =
     (if k < k' then (k, v) # (k', v') # m
      else if k = k' then (k', v') # m
      else (k', v') # map_insert k v m)"

fun map_store :: "'k::linorder \<Rightarrow> 'v \<Rightarrow> ('k, 'v) std_map \<Rightarrow> ('k, 'v) std_map" where
  "map_store k v [] = [(k, v)]"
| "map_store k v ((k', v') # m) =
     (if k < k' then (k, v) # (k', v') # m
      else if k = k' then (k', v) # m
      else (k', v') # map_store k v m)"

definition map_count :: "('k, 'v) std_map \<Rightarrow> 'k \<Rightarrow> nat" where
  "map_count m k = (case map_of m k of None \<Rightarrow> 0 | Some _ \<Rightarrow> 1)"

definition subscript :: "'v \<Rightarrow> ('k::linorder, 'v) std_map \<Rightarrow> 'k \<Rightarrow> ('k, 'v) std_map \<times> 'v" where
  "subscript d m k =
     (case map_of m k of None \<Rightarrow> (map_insert k d m, d) | Some v \<Rightarrow> (m, v))"

definition map_ok :: "('k::linorder, 'v) std_map \<Rightarrow> bool" where
  "map_ok m \<longleftrightarrow> sorted_wrt (<) (map fst m)"

section \<open>The laws of an ordered map\<close>

text \<open>
  The contract the clients rely on, over any representation with a lookup function. The last two
  lemmas are the counting argument of the acknowledgement history: a map whose keys all lie in a
  finite set of hosts and that has as many entries as there are hosts has an entry for every host.
\<close>

locale ordered_map =
  fixes lookup :: "'m \<Rightarrow> 'k::linorder \<Rightarrow> 'v option"
    and ins :: "'k \<Rightarrow> 'v \<Rightarrow> 'm \<Rightarrow> 'm"
    and store :: "'k \<Rightarrow> 'v \<Rightarrow> 'm \<Rightarrow> 'm"
    and size_of :: "'m \<Rightarrow> nat"
    and ok :: "'m \<Rightarrow> bool"
  assumes lookup_ins: "ok m \<Longrightarrow>
      lookup (ins k v m) = (lookup m)(k \<mapsto> (case lookup m k of None \<Rightarrow> v | Some w \<Rightarrow> w))"
    and lookup_store: "ok m \<Longrightarrow> lookup (store k v m) = (lookup m)(k \<mapsto> v)"
    and ok_ins: "ok m \<Longrightarrow> ok (ins k v m)"
    and ok_store: "ok m \<Longrightarrow> ok (store k v m)"
    and finite_dom: "ok m \<Longrightarrow> finite (dom (lookup m))"
    and size_card: "ok m \<Longrightarrow> size_of m = card (dom (lookup m))"
begin

lemma ins_fresh: "ok m \<Longrightarrow> lookup m k = None \<Longrightarrow> lookup (ins k v m) = (lookup m)(k \<mapsto> v)"
  by (simp add: lookup_ins)

lemma ins_known: "ok m \<Longrightarrow> lookup m k = Some w \<Longrightarrow> lookup (ins k v m) = lookup m"
  by (simp add: lookup_ins fun_upd_idem)

lemma size_ins_fresh: "ok m \<Longrightarrow> lookup m k = None \<Longrightarrow> size_of (ins k v m) = Suc (size_of m)"
  by (simp add: size_card ok_ins ins_fresh finite_dom domIff)

lemma size_le_universe:
  "ok m \<Longrightarrow> dom (lookup m) \<subseteq> U \<Longrightarrow> finite U \<Longrightarrow> size_of m \<le> card U"
  by (simp add: size_card card_mono)

lemma full_map:
  "ok m \<Longrightarrow> dom (lookup m) \<subseteq> U \<Longrightarrow> finite U \<Longrightarrow> size_of m = card U \<Longrightarrow> dom (lookup m) = U"
  by (simp add: size_card card_subset_eq)

lemma not_full_before_ins:
  assumes "ok m" "lookup m k = None" "dom (lookup m) \<subseteq> U" "k \<in> U" "finite U"
  shows "size_of m < card U"
proof -
  have "dom (lookup m) \<subset> U" using assms by auto
  then show ?thesis using assms(1,5) by (simp add: size_card psubset_card_mono)
qed

end

section \<open>The list representation meets the contract\<close>

lemma map_ok_Nil [simp]: "map_ok []"
  by (simp add: map_ok_def)

lemma map_ok_Cons: "map_ok ((k, v) # m) \<longleftrightarrow> map_ok m \<and> (\<forall>k' \<in> fst ` set m. k < k')"
  by (auto simp: map_ok_def)

lemma keys_map_insert [simp]: "fst ` set (map_insert k v m) = insert k (fst ` set m)"
  by (induction k v m rule: map_insert.induct) auto

lemma keys_map_store [simp]: "fst ` set (map_store k v m) = insert k (fst ` set m)"
  by (induction k v m rule: map_store.induct) auto

lemma map_ok_insert [simp]: "map_ok m \<Longrightarrow> map_ok (map_insert k v m)"
  by (induction k v m rule: map_insert.induct) (auto simp: map_ok_Cons)

lemma map_ok_store [simp]: "map_ok m \<Longrightarrow> map_ok (map_store k v m)"
  by (induction k v m rule: map_store.induct) (auto simp: map_ok_Cons)

lemma map_of_not_key: "k \<notin> fst ` set m \<Longrightarrow> map_of m k = None"
  by (simp add: map_of_eq_None_iff)

lemma map_of_insert:
  "map_ok m \<Longrightarrow>
   map_of (map_insert k v m) = (map_of m)(k \<mapsto> (case map_of m k of None \<Rightarrow> v | Some w \<Rightarrow> w))"
  by (induction k v m rule: map_insert.induct)
    (fastforce simp: map_ok_Cons fun_eq_iff dest: map_of_SomeD split: option.splits)+

lemma map_of_store: "map_ok m \<Longrightarrow> map_of (map_store k v m) = (map_of m)(k \<mapsto> v)"
  by (induction k v m rule: map_store.induct) (auto simp: map_ok_Cons fun_eq_iff)

lemma map_ok_distinct: "map_ok m \<Longrightarrow> distinct (map fst m)"
  by (simp add: map_ok_def strict_sorted_iff)

lemma length_map_ok: "map_ok m \<Longrightarrow> length m = card (dom (map_of m))"
  by (metis dom_map_of_conv_image_fst list.set_map map_ok_distinct distinct_card length_map)

interpretation smap: ordered_map map_of map_insert map_store length map_ok
  by unfold_locales (simp_all add: map_of_insert map_of_store length_map_ok finite_dom_map_of)

lemma map_count_zero: "map_count m k = 0 \<longleftrightarrow> map_of m k = None"
  by (simp add: map_count_def split: option.splits)

lemma subscript_present: "map_of m k = Some v \<Longrightarrow> subscript d m k = (m, v)"
  by (simp add: subscript_def)

lemma subscript_absent: "map_of m k = None \<Longrightarrow> subscript d m k = (map_insert k d m, d)"
  by (simp add: subscript_def)

end
