(* ===== verification/CText.thy ===== *)
theory CText
  imports Prelude
begin

text \<open>
  The C library's handling of numbers in text, as far as the program uses it: \<open>isdigit\<close>,
  \<open>strtol\<close> and \<open>atoi\<close> in base ten, and the decimal output of \<open>std::stringstream << int\<close>. On these
  stands \<open>extract_int_from_string\<close>, which turns a container name into the process id.
\<close>

section \<open>Characters and digits\<close>

definition is_digit :: "char \<Rightarrow> bool" where
  "is_digit c \<longleftrightarrow> 48 \<le> (of_char c :: nat) \<and> (of_char c :: nat) \<le> 57"

definition digit_val :: "char \<Rightarrow> int" where
  "digit_val c = int (of_char c) - 48"

definition digit_char :: "nat \<Rightarrow> char" where
  "digit_char d = char_of (48 + d)"

definition is_space :: "char \<Rightarrow> bool" where
  "is_space c \<longleftrightarrow> c = CHR '' '' \<or> (9 \<le> (of_char c :: nat) \<and> (of_char c :: nat) \<le> 13)"

definition digits_value :: "char list \<Rightarrow> int" where
  "digits_value ds = foldl (\<lambda>n c. 10 * n + digit_val c) 0 ds"

section \<open>strtol and atoi\<close>

definition LONG_MAX :: int where "LONG_MAX = 9223372036854775807"
definition LONG_MIN :: int where "LONG_MIN = - 9223372036854775808"

text \<open>White space, an optional sign, digits up to the first other character; saturating.\<close>

definition strtol :: "string \<Rightarrow> int" where
  "strtol s =
     (let t = dropWhile is_space s;
          neg = (t \<noteq> [] \<and> hd t = CHR ''-'');
          u = (if t \<noteq> [] \<and> (hd t = CHR ''-'' \<or> hd t = CHR ''+'') then tl t else t);
          n = digits_value (takeWhile is_digit u)
      in max LONG_MIN (min LONG_MAX (if neg then - n else n)))"

text \<open>\<open>atoi\<close> of the GNU library is \<open>(int) strtol(s, NULL, 10)\<close>: the low 32 bits of the long.\<close>

definition atoi :: "string \<Rightarrow> int" where
  "atoi s = to_int (to_u32 (strtol s))"

section \<open>extract_int_from_string\<close>

text \<open>
  The loop stops at the first digit, or at the end of the string; \<open>substr\<close> keeps the rest.
\<close>

definition extract_int_from_string :: "string \<Rightarrow> int" where
  "extract_int_from_string str = atoi (dropWhile (\<lambda>c. \<not> is_digit c) str)"

section \<open>Decimal output\<close>

fun nat_to_string :: "nat \<Rightarrow> string" where
  "nat_to_string n =
     (if n < 10 then [digit_char n] else nat_to_string (n div 10) @ [digit_char (n mod 10)])"

declare nat_to_string.simps [simp del]

definition int_to_string :: "int \<Rightarrow> string" where
  "int_to_string x = (if x < 0 then CHR ''-'' # nat_to_string (nat (- x)) else nat_to_string (nat x))"

section \<open>Facts\<close>

lemma digit_char_digit: "d < 10 \<Longrightarrow> is_digit (digit_char d) \<and> digit_val (digit_char d) = int d"
  by (simp add: is_digit_def digit_val_def digit_char_def)

lemma is_digit_not_space: "is_digit c \<Longrightarrow> \<not> is_space c"
  by (auto simp: is_digit_def is_space_def)

lemma is_digit_not_sign: "is_digit c \<Longrightarrow> c \<noteq> CHR ''-'' \<and> c \<noteq> CHR ''+''"
  by (auto simp: is_digit_def)

lemma digits_value_snoc: "digits_value (ds @ [c]) = 10 * digits_value ds + digit_val c"
  by (simp add: digits_value_def)

lemma nat_to_string_digits: "\<forall>c \<in> set (nat_to_string n). is_digit c"
proof (induction n rule: nat_to_string.induct)
  case (1 n)
  then show ?case
    by (subst nat_to_string.simps) (auto simp: digit_char_digit)
qed

lemma nat_to_string_value: "digits_value (nat_to_string n) = int n"
proof (induction n rule: nat_to_string.induct)
  case (1 n)
  show ?case
  proof (cases "n < 10")
    case True
    then show ?thesis
      by (subst nat_to_string.simps) (simp add: digits_value_def digit_char_digit)
  next
    case False
    with 1 show ?thesis
      by (subst nat_to_string.simps) (simp add: digits_value_snoc digit_char_digit zmod_int zdiv_int)
  qed
qed

lemma nat_to_string_nonempty: "nat_to_string n \<noteq> []"
  by (subst nat_to_string.simps) simp

lemma strtol_digits:
  assumes ds: "\<forall>c \<in> set ds. is_digit c" "ds \<noteq> []" and rest: "rest = [] \<or> \<not> is_digit (hd rest)"
    and max: "digits_value ds \<le> LONG_MAX" "LONG_MIN \<le> digits_value ds"
  shows "strtol (ds @ rest) = digits_value ds"
proof -
  obtain d ds' where d: "ds = d # ds'" using ds(2) by (cases ds) auto
  then have first: "is_digit d" using ds by simp
  have drop: "dropWhile is_space (ds @ rest) = ds @ rest"
    using d is_digit_not_space [OF first] by simp
  have "takeWhile is_digit (ds @ rest) = ds"
    using ds(1) rest by (cases rest) (auto simp: takeWhile_append)
  with drop d is_digit_not_sign [OF first] max show ?thesis
    by (simp add: strtol_def Let_def)
qed

lemma atoi_int_to_string: "0 \<le> p \<Longrightarrow> p \<le> INT_MAX \<Longrightarrow> atoi (int_to_string p) = p"
proof -
  assume p: "0 \<le> p" "p \<le> INT_MAX"
  have "strtol (nat_to_string (nat p) @ []) = p"
    using p strtol_digits [OF nat_to_string_digits nat_to_string_nonempty, of "[]" "nat p"]
    by (simp add: nat_to_string_value LONG_MAX_def LONG_MIN_def INT_MAX_def)
  with p int_rangeI [OF p] show ?thesis by (simp add: atoi_def int_to_string_def)
qed

lemma length_nat_to_string: "n < 100 \<Longrightarrow> length (nat_to_string n) \<le> 2"
proof -
  assume "n < 100"
  then have "n div 10 < 10" by simp
  then have "length (nat_to_string (n div 10)) = 1" by (subst nat_to_string.simps) simp
  then show ?thesis by (subst nat_to_string.simps) simp
qed

text \<open>A number of at most two digits is below 100.\<close>

lemma digit_val_range: "is_digit c \<Longrightarrow> 0 \<le> digit_val c \<and> digit_val c \<le> 9"
  by (simp add: is_digit_def digit_val_def)

lemma atoi_short_digits:
  assumes "\<forall>c \<in> set ds. is_digit c" "length ds \<le> 2" "ds \<noteq> []"
  shows "0 \<le> atoi ds \<and> atoi ds < 100"
proof -
  have "0 \<le> digits_value ds \<and> digits_value ds < 100"
  proof (cases ds)
    case (Cons a ds')
    show ?thesis
    proof (cases ds')
      case Nil
      with Cons assms(1) digit_val_range [of a] show ?thesis by (simp add: digits_value_def)
    next
      case (Cons b rest)
      with \<open>ds = a # ds'\<close> assms(1,2) digit_val_range [of a] digit_val_range [of b]
      show ?thesis by (simp add: digits_value_def)
    qed
  qed (use assms(3) in simp)
  moreover from this have "strtol (ds @ []) = digits_value ds"
    using assms(1,3) by (intro strtol_digits) (auto simp: LONG_MAX_def LONG_MIN_def)
  moreover from calculation have "digits_value ds \<in> int_range" by (intro int_rangeI) (auto simp: INT_MAX_def)
  ultimately show ?thesis by (simp add: atoi_def)
qed

lemma length_nat_to_string_le: "n < 10 ^ Suc k \<Longrightarrow> length (nat_to_string n) \<le> Suc k"
proof (induction k arbitrary: n)
  case 0
  then show ?case by (subst nat_to_string.simps) simp
next
  case (Suc k)
  have "n div 10 < 10 ^ Suc k" using Suc.prems by (simp add: div_less_iff_less_mult)
  from Suc.IH [OF this] show ?case by (subst nat_to_string.simps) simp
qed

lemma length_int_to_string: "x \<in> int_range \<Longrightarrow> length (int_to_string x) \<le> 11"
proof -
  assume "x \<in> int_range"
  then have "- x < 10000000000" "x < 10000000000" by (simp_all add: int_range_def)
  then have "nat (- x) < 10 ^ Suc 9" "nat x < 10 ^ Suc 9" by (simp_all add: nat_less_iff)
  from this [THEN length_nat_to_string_le] show ?thesis by (simp add: int_to_string_def)
qed

lemma extract_int_numbered:
  assumes "\<forall>c \<in> set pre. \<not> is_digit c" "rest = [] \<or> \<not> is_digit (hd rest)" "int n \<le> INT_MAX"
  shows "extract_int_from_string (pre @ nat_to_string n @ rest) = int n"
proof -
  let ?t = "nat_to_string n @ rest"
  have "?t \<noteq> [] \<and> is_digit (hd ?t)"
    using nat_to_string_nonempty [of n] nat_to_string_digits [of n] by (cases "nat_to_string n") auto
  then have "dropWhile (\<lambda>c. \<not> is_digit c) (pre @ ?t) = ?t"
    using assms(1) by (cases ?t) (auto simp: dropWhile_append)
  moreover have "strtol ?t = int n"
    using assms strtol_digits [OF nat_to_string_digits nat_to_string_nonempty]
    by (simp add: nat_to_string_value LONG_MAX_def LONG_MIN_def INT_MAX_def)
  moreover have "int n \<in> int_range" using assms by (intro int_rangeI) auto
  ultimately show ?thesis by (simp add: extract_int_from_string_def atoi_def)
qed

lemma extract_int_no_digit: "\<forall>c \<in> set s. \<not> is_digit c \<Longrightarrow> extract_int_from_string s = 0"
proof -
  assume "\<forall>c \<in> set s. \<not> is_digit c"
  then have none: "dropWhile (\<lambda>c. \<not> is_digit c) s = []" by simp
  have "strtol [] = 0"
    by (simp add: strtol_def digits_value_def LONG_MAX_def LONG_MIN_def)
  moreover have "(0::int) \<in> int_range" by (simp add: int_range_def)
  ultimately show ?thesis
    unfolding extract_int_from_string_def none atoi_def by simp
qed

lemma extract_int_range [simp]: "extract_int_from_string s \<in> int_range"
  by (simp add: extract_int_from_string_def atoi_def)

end
