(* ===== verification/Process.thy ===== *)
theory Process
  imports Wire DeliveryQueue StdMap CText
begin

text \<open>
  One process of the group: the data members of \<open>class ReliableMulticast\<close> and of the
  \<open>CL_Global_Snapshot\<close> object inside it, the sending primitives with their simulated drops, and the
  protocol handlers of \<open>reliable_multicast.cpp\<close>. A handler is a function from the state to the next
  state, or to the reason why the process called \<open>exit\<close> together with the state it died in.

  What the program asks the operating system is an oracle: the \<open>k\<close>-th question of a process is
  answered by the \<open>k\<close>-th entries of the streams of its environment, so that a
  theorem over all oracles covers every pattern of drops, send errors and stack contents.
\<close>

section \<open>The environment\<close>

definition RAND_MAX :: int where "RAND_MAX = 2147483647"

text \<open>
  \<open>rand_draw k\<close> is what \<open>rand()\<close> returns, \<open>sendto_rv k\<close> what \<open>UDP_Server::reply\<close> or \<open>send_to\<close>
  return (\<open>-1\<close> also when \<open>getaddrinfo\<close> fails), \<open>stack_junk k\<close> the old contents of the stack array
  that \<open>unsigned char serialized_packet[MAX_STRUCT_SIZE]\<close> does not initialise. \<open>tcp_connect k\<close> is how
  the \<open>getaddrinfo\<close>, \<open>socket\<close> and \<open>connect\<close> calls of \<open>TCP_Server::connect_and_get_socket\<close> go, and
  \<open>tcp_send_rv k\<close> what \<open>send\<close> on the socket returns.
\<close>

datatype connect_outcome = Connected int | GetaddrinfoFailed | NoCandidateConnected

record env =
  rand_draw :: "nat \<Rightarrow> int"
  sendto_rv :: "nat \<Rightarrow> int"
  stack_junk :: "nat \<Rightarrow> nat \<Rightarrow> u8"
  tcp_connect :: "nat \<Rightarrow> connect_outcome"
  tcp_send_rv :: "nat \<Rightarrow> int \<Rightarrow> int"

text \<open>A UDP datagram. Addresses are the host names the containers resolve.\<close>

record packet =
  p_src :: string
  p_dst :: string
  p_payload :: "u8 list"

text \<open>A marker of the snapshot daemons, sent over a TCP connection of its own.\<close>

record marker =
  mk_src :: string
  mk_dst :: string
  mk_text :: string

section \<open>State\<close>

text \<open>The reasons to call \<open>exit\<close>; the last two stand for undefined behaviour of C++.\<close>

datatype exit_reason =
    RecvFailed
  | WrongType u64
  | SendFailed
  | SeqMsgNotInHistory
  | UnknownSeqMessage
  | DataMsgNotInAckHistory
  | MarkerSendFailed
  | MarkerRecvFailed
  | SignedOverflow
  | BufferOverflow

text \<open>The two kinds of watchdog threads, with their arguments and \<open>watchdog_resend_cap\<close>.\<close>

datatype watchdog =
    DataWatchdog DataMessage string nat
  | AckWatchdog AckMessage string nat

record LocalStateSnapshot =
  ls_deliveryQueue :: "QueuedMessage list"
  ls_deliveredMessage :: "QueuedMessage list"

text \<open>
  The members of \<open>CL_Global_Snapshot\<close>. The pointer back to the \<open>ReliableMulticast\<close> object is the
  state the object is part of; \<open>set_rm\<close> copies the four members behind it.
\<close>

record CL_Global_Snapshot =
  locsnap :: LocalStateSnapshot
  snap_num_hosts :: int
  snap_hostNames :: "string list"
  curr_container_id :: int
  curr_container_name :: string
  amInitiator :: bool
  alreadyReceivedProc :: "int list"
  inboundMessageBuffer :: "u8 list list"
  outboundMessageBuffer :: "u8 list list"
  inboundChannelState :: "(int, string list) std_map"
  outboundChannelState :: "(int, string list) std_map"

type_synonym ProposerSeq = "(int, int) std_map"

text \<open>
  The members of \<open>ReliableMulticast\<close>; \<open>their_addr\<close> is that of its \<open>communicator\<close>, \<open>msg_buf\<close> the
  local buffer of the receiver thread, \<open>listener_pc\<close> and \<open>marker_buf\<close> the position and the buffer
  \<open>char buf[MAX_MARKER_SIZE]\<close> of the snapshot listener thread. The last four fields record what is
  outside the object: the datagrams and the markers handed to the network so far, the live
  watchdog threads and the number of questions put to the environment.
\<close>

datatype listener_pc = AwaitFirst | AwaitNext | Finished

record rm =
  hostIDtoHostName :: "(int, string) std_map"
  num_hosts :: int
  current_container_name :: string
  current_container_id :: int
  curr_msg_id :: int
  curr_seq_number :: int
  hostNames :: "string list"
  their_addr :: string
  deliveryQueue :: "QueuedMessage list"
  deliveredMessage :: "QueuedMessage list"
  alreadyAckedMessages :: "AckMessage list"
  seqMessageHistory :: "SeqMessage list"
  ackHistory :: "(int, ProposerSeq) std_map"
  dataHistory :: "(int, int) std_map"
  recv_cap :: int
  drop_rate :: rat
  snapshot :: CL_Global_Snapshot
  recordMessages :: bool
  msg_buf :: "u8 list"
  listener_pc :: listener_pc
  marker_buf :: string
  outbox :: "packet list"
  marker_outbox :: "marker list"
  watchdogs :: "watchdog list"
  ticks :: nat

type_synonym outcome = "(exit_reason \<times> rm) + rm"

definition RECV_CAP :: int where "RECV_CAP = 10000"
definition WATCHDOG_RESEND_CAP :: nat where "WATCHDOG_RESEND_CAP = 500"

section \<open>The constructor\<close>

definition new_snapshot :: CL_Global_Snapshot where
  "new_snapshot =
     \<lparr>locsnap = \<lparr>ls_deliveryQueue = [], ls_deliveredMessage = []\<rparr>, snap_num_hosts = 0,
      snap_hostNames = [], curr_container_id = 0, curr_container_name = [], amInitiator = False,
      alreadyReceivedProc = [], inboundMessageBuffer = [], outboundMessageBuffer = [],
      inboundChannelState = [], outboundChannelState = []\<rparr>"

definition set_rm :: "rm \<Rightarrow> rm" where
  "set_rm s = s\<lparr>snapshot := (snapshot s)
     \<lparr>snap_num_hosts := num_hosts s, snap_hostNames := hostNames s,
      curr_container_id := current_container_id s,
      curr_container_name := current_container_name s\<rparr>\<rparr>"

fun fill_host_map :: "string list \<Rightarrow> (int, string) std_map \<Rightarrow> (int, string) std_map" where
  "fill_host_map [] m = m"
| "fill_host_map (h # hs) m = fill_host_map hs (map_insert (extract_int_from_string h) h m)"

text \<open>
  \<open>ReliableMulticast::ReliableMulticast\<close> after \<open>read_from_file\<close> has returned \<open>hosts\<close> and
  \<open>waittosync\<close> the name of this container; \<open>buf\<close> and \<open>mbuf\<close> are the uninitialised buffers of the
  two threads that are started next.
\<close>

definition ReliableMulticast ::
    "string list \<Rightarrow> string \<Rightarrow> rat \<Rightarrow> u8 list \<Rightarrow> string \<Rightarrow> rm" where
  "ReliableMulticast hosts name rate buf mbuf = set_rm
     \<lparr>hostIDtoHostName = fill_host_map hosts [],
      num_hosts = int (length hosts),
      current_container_name = name,
      current_container_id = extract_int_from_string name,
      curr_msg_id = 0,
      curr_seq_number = 1,
      hostNames = hosts,
      their_addr = [],
      deliveryQueue = [],
      deliveredMessage = [],
      alreadyAckedMessages = [],
      seqMessageHistory = [],
      ackHistory = [],
      dataHistory = [],
      recv_cap = 1,
      drop_rate = rate,
      snapshot = new_snapshot,
      recordMessages = False,
      msg_buf = buf,
      listener_pc = AwaitFirst,
      marker_buf = mbuf,
      outbox = [],
      marker_outbox = [],
      watchdogs = [],
      ticks = 0\<rparr>"

section \<open>Making messages\<close>

definition make_ack_msg :: "u32 \<Rightarrow> u32 \<Rightarrow> u32 \<Rightarrow> u32 \<Rightarrow> AckMessage" where
  "make_ack_msg sender msg_id proposed_seq proposer =
     \<lparr>am_type = ACKMSG_TYPE, am_sender = sender, am_msg_id = msg_id,
      am_proposed_seq = proposed_seq, am_proposer = proposer\<rparr>"

definition make_seq_msg :: "u32 \<Rightarrow> u32 \<Rightarrow> u32 \<Rightarrow> u32 \<Rightarrow> SeqMessage" where
  "make_seq_msg sender msg_id final_seq final_seq_proposer =
     \<lparr>sm_type = SEQMSG_TYPE, sm_sender = sender, sm_msg_id = msg_id,
      sm_final_seq = final_seq, sm_final_seq_proposer = final_seq_proposer\<rparr>"

text \<open>The maximum proposal; among equal proposals the first in the order of the map, the least id.\<close>

fun max_sequence :: "ProposerSeq \<Rightarrow> u32 \<times> u32 \<Rightarrow> u32 \<times> u32" where
  "max_sequence [] acc = acc"
| "max_sequence ((k, v) # pm) (result_seq, result_proposer) =
     (if to_u32 v > result_seq then max_sequence pm (to_u32 v, to_u32 k)
      else max_sequence pm (result_seq, result_proposer))"

definition get_max_sequence_from_proposerseq_map :: "ProposerSeq \<Rightarrow> u32 \<times> u32" where
  "get_max_sequence_from_proposerseq_map pm = max_sequence pm (0, 0)"

section \<open>Sending\<close>

definition uninit_packet :: "env \<Rightarrow> rm \<Rightarrow> u8 list" where
  "uninit_packet e s = map (stack_junk e (ticks s)) [0..<MAX_STRUCT_SIZE]"

definition random_uniform_from_0_to_1 :: "env \<Rightarrow> rm \<Rightarrow> rat" where
  "random_uniform_from_0_to_1 e s = of_int (rand_draw e (ticks s)) / of_int RAND_MAX"

definition record_outbound :: "u8 list \<Rightarrow> rm \<Rightarrow> rm" where
  "record_outbound pkt s =
     (if recordMessages s
      then s\<lparr>snapshot := (snapshot s)\<lparr>outboundMessageBuffer := outboundMessageBuffer (snapshot s) @ [pkt]\<rparr>\<rparr>
      else s)"

text \<open>
  \<open>reply_msg_with_drop_and_delay\<close> answers the sender of the last datagram received,
  \<open>send_msg_with_drop_and_delay\<close> sends to a named host. Both draw a random number first and return
  \<open>-22\<close> when the message is dropped on purpose. (\<open>start_delay\<close> only sleeps.)
\<close>

definition transmit :: "env \<Rightarrow> string \<Rightarrow> u8 list \<Rightarrow> rm \<Rightarrow> int \<times> rm" where
  "transmit e dst pkt s =
     (let s1 = s\<lparr>ticks := Suc (ticks s)\<rparr> in
      if random_uniform_from_0_to_1 e s < drop_rate s then (- 22, s1)
      else let s2 = record_outbound pkt s1; rv = sendto_rv e (ticks s) in
        if rv = - 1 then (- 1, s2)
        else (rv, s2\<lparr>outbox := outbox s2 @
               [\<lparr>p_src = current_container_name s2, p_dst = dst, p_payload = pkt\<rparr>]\<rparr>))"

definition reply_msg_with_drop_and_delay :: "env \<Rightarrow> u8 list \<Rightarrow> rm \<Rightarrow> int \<times> rm" where
  "reply_msg_with_drop_and_delay e pkt s = transmit e (their_addr s) pkt s"

definition send_msg_with_drop_and_delay :: "env \<Rightarrow> string \<Rightarrow> u8 list \<Rightarrow> rm \<Rightarrow> int \<times> rm" where
  "send_msg_with_drop_and_delay e hostname pkt s = transmit e hostname pkt s"

text \<open>\<open>x++\<close> on a signed \<open>int\<close>.\<close>

definition incr_int :: "int \<Rightarrow> int option" where
  "incr_int x = (if x = INT_MAX then None else Some (x + 1))"

definition incr_seq_number :: "rm \<Rightarrow> outcome" where
  "incr_seq_number s =
     (case incr_int (curr_seq_number s) of
        None \<Rightarrow> Inl (SignedOverflow, s)
      | Some n \<Rightarrow> Inr (s\<lparr>curr_seq_number := n\<rparr>))"

section \<open>Delivery\<close>

definition deliver_msg_from_deliveryqueue :: "rm \<Rightarrow> rm" where
  "deliver_msg_from_deliveryqueue s =
     (case deliver_loop (deliveryQueue s) (deliveredMessage s) of
        (q, d) \<Rightarrow> s\<lparr>deliveryQueue := q, deliveredMessage := d\<rparr>)"

definition push_queue :: "QueuedMessage \<Rightarrow> rm \<Rightarrow> rm" where
  "push_queue qm s = s\<lparr>deliveryQueue := push_msg_to_deliveryqueue qm (deliveryQueue s)\<rparr>"

section \<open>Handling a data message\<close>

definition handle_datamsg :: "env \<Rightarrow> DataMessage \<Rightarrow> rm \<Rightarrow> outcome" where
  "handle_datamsg e dm s =
     (case find (\<lambda>am. am_sender am = dm_sender dm \<and> am_msg_id am = dm_msg_id dm)
             (alreadyAckedMessages s) of
        Some am \<Rightarrow>
          Inr (snd (reply_msg_with_drop_and_delay e (serialize_ack_message am (uninit_packet e s)) s))
      | None \<Rightarrow>
          let toQueue = make_queued_msg (to_u32 (curr_seq_number s)) UNDELIVERABLE (dm_sender dm)
                (dm_msg_id dm) (dm_data dm) (to_u32 (current_container_id s));
              s1 = push_queue toQueue s;
              ackMessage = make_ack_msg (dm_sender dm) (dm_msg_id dm) (to_u32 (curr_seq_number s1))
                (to_u32 (current_container_id s1));
              s2 = s1\<lparr>alreadyAckedMessages := alreadyAckedMessages s1 @ [ackMessage]\<rparr>;
              s3 = snd (reply_msg_with_drop_and_delay e
                     (serialize_ack_message ackMessage (uninit_packet e s2)) s2)
          in (case incr_seq_number s3 of
                Inl err \<Rightarrow> Inl err
              | Inr s4 \<Rightarrow>
                  (case subscript [] (hostIDtoHostName s4) (to_int (dm_sender dm)) of
                     (m, rep_host_name) \<Rightarrow>
                       Inr (s4\<lparr>hostIDtoHostName := m,
                               watchdogs := watchdogs s4 @ [AckWatchdog ackMessage rep_host_name 0]\<rparr>))))"

section \<open>Handling an acknowledgement\<close>

fun broadcast_loop :: "env \<Rightarrow> u8 list \<Rightarrow> string list \<Rightarrow> rm \<Rightarrow> outcome" where
  "broadcast_loop e pkt [] s = Inr s"
| "broadcast_loop e pkt (h # hs) s =
     (if h \<noteq> current_container_name s
      then (case send_msg_with_drop_and_delay e h pkt s of
              (rv, s1) \<Rightarrow> if rv = - 1 then Inl (SendFailed, s1) else broadcast_loop e pkt hs s1)
      else broadcast_loop e pkt hs s)"

definition broadcast_seq_msg :: "env \<Rightarrow> SeqMessage \<Rightarrow> rm \<Rightarrow> outcome" where
  "broadcast_seq_msg e sm s =
     broadcast_loop e (serialize_seq_message sm (uninit_packet e s))
       (take (nat (num_hosts s)) (hostNames s)) s"

text \<open>The branch in which the last missing acknowledgement has arrived.\<close>

definition finalize_message :: "env \<Rightarrow> AckMessage \<Rightarrow> ProposerSeq \<Rightarrow> rm \<Rightarrow> outcome" where
  "finalize_message e am pm s =
     (case get_max_sequence_from_proposerseq_map pm of
        (finalseq, finalseq_proposer) \<Rightarrow>
          let seqMessage = make_seq_msg (am_sender am) (am_msg_id am) finalseq finalseq_proposer;
              s1 = s\<lparr>seqMessageHistory := seqMessageHistory s @ [seqMessage]\<rparr>
          in (case broadcast_seq_msg e seqMessage s1 of
                Inl err \<Rightarrow> Inl err
              | Inr s2 \<Rightarrow>
                  (case change_queued_msg_seq_and_status (am_sender am) (am_msg_id am) finalseq
                          finalseq_proposer DELIVERABLE (deliveryQueue s2) of
                     (rv, q) \<Rightarrow> Inr (deliver_msg_from_deliveryqueue (s2\<lparr>deliveryQueue := q\<rparr>)))))"

text \<open>The branch of a duplicate acknowledgement of a message that has its final number.\<close>

definition resend_seq_msg :: "env \<Rightarrow> AckMessage \<Rightarrow> rm \<Rightarrow> outcome" where
  "resend_seq_msg e am s =
     (case find (\<lambda>sm. sm_msg_id sm = am_msg_id am \<and> sm_sender sm = am_sender am)
             (seqMessageHistory s) of
        None \<Rightarrow> Inl (SeqMsgNotInHistory, s)
      | Some sm \<Rightarrow>
          (case reply_msg_with_drop_and_delay e (serialize_seq_message sm (uninit_packet e s)) s of
             (rv, s1) \<Rightarrow> if rv = - 1 then Inl (SendFailed, s1) else Inr s1))"

definition handle_ackmsg :: "env \<Rightarrow> AckMessage \<Rightarrow> rm \<Rightarrow> outcome" where
  "handle_ackmsg e am s =
     (let msg_id = to_int (am_msg_id am); prop = to_int (am_proposer am) in
      case subscript [] (ackHistory s) msg_id of
        (hist, pm) \<Rightarrow>
          let s1 = s\<lparr>ackHistory := hist\<rparr> in
          if map_count pm prop = 0
          then (case incr_seq_number s1 of
                  Inl err \<Rightarrow> Inl err
                | Inr s2 \<Rightarrow>
                    let pm' = map_insert prop (to_int (am_proposed_seq am)) pm;
                        s3 = s2\<lparr>ackHistory := map_store msg_id pm' (ackHistory s2)\<rparr>
                    in if int (length pm') = num_hosts s3 then finalize_message e am pm' s3
                       else Inr s3)
          else if int (length pm) = num_hosts s1 then resend_seq_msg e am s1
          else Inr s1)"

section \<open>Handling a sequence message\<close>

definition handle_seqmsg :: "env \<Rightarrow> SeqMessage \<Rightarrow> rm \<Rightarrow> outcome" where
  "handle_seqmsg e sm s =
     (case change_queued_msg_seq_and_status (sm_sender sm) (sm_msg_id sm) (sm_final_seq sm)
             (sm_final_seq_proposer sm) DELIVERABLE (deliveryQueue s) of
        (rv, q) \<Rightarrow>
          let s1 = s\<lparr>deliveryQueue := q\<rparr> in
          if rv = - 1
          then if list_ex (is_msg (sm_sender sm) (sm_msg_id sm)) (deliveredMessage s1) then Inr s1
               else Inl (UnknownSeqMessage, s1)
          else Inr (deliver_msg_from_deliveryqueue
                      (s1\<lparr>seqMessageHistory := seqMessageHistory s1 @ [sm]\<rparr>)))"

section \<open>Multicasting\<close>

text \<open>
  An increment beyond \<open>INT_MAX\<close> has no defined effect; the state paired with \<open>SignedOverflow\<close> is
  the one in which the function was called.
\<close>

fun multicast_loop :: "env \<Rightarrow> DataMessage \<Rightarrow> u8 list \<Rightarrow> string list \<Rightarrow> rm \<Rightarrow> outcome" where
  "multicast_loop e dm pkt [] s = Inr s"
| "multicast_loop e dm pkt (h # hs) s =
     (if h \<noteq> current_container_name s
      then (case send_msg_with_drop_and_delay e h pkt s of
              (rv, s1) \<Rightarrow>
                if rv = - 1 then Inl (SendFailed, s1)
                else multicast_loop e dm pkt hs (s1\<lparr>watchdogs := watchdogs s1 @ [DataWatchdog dm h 0]\<rparr>))
      else multicast_loop e dm pkt hs s)"

definition multicast_datamsg :: "env \<Rightarrow> u32 \<Rightarrow> rm \<Rightarrow> outcome" where
  "multicast_datamsg e data s =
     (case incr_int (curr_msg_id s) of
        None \<Rightarrow> Inl (SignedOverflow, s)
      | Some next_id \<Rightarrow>
          let dm = \<lparr>dm_type = DATAMSG_TYPE, dm_sender = to_u32 (current_container_id s),
                dm_msg_id = to_u32 (curr_msg_id s), dm_data = data\<rparr>;
              s1 = s\<lparr>curr_msg_id := next_id,
                dataHistory := map_insert (to_int (dm_msg_id dm)) (to_int (dm_data dm)) (dataHistory s)\<rparr>
          in (case incr_int (curr_seq_number s1) of
                None \<Rightarrow> Inl (SignedOverflow, s)
              | Some next_seq \<Rightarrow>
                  let s2 = s1\<lparr>curr_seq_number := next_seq\<rparr>;
                      ackHistForThisMes =
                        map_insert (current_container_id s2) (curr_seq_number s2) [];
                      s3 = s2\<lparr>ackHistory :=
                        map_insert (to_int (dm_msg_id dm)) ackHistForThisMes (ackHistory s2)\<rparr>;
                      queuedMessage = make_queued_msg (to_u32 (curr_seq_number s3)) UNDELIVERABLE
                        (dm_sender dm) (dm_msg_id dm) (dm_data dm) (to_u32 (current_container_id s3));
                      s4 = push_queue queuedMessage s3
                  in multicast_loop e dm (serialize_data_message dm (uninit_packet e s4))
                       (take (nat (num_hosts s4)) (hostNames s4)) s4))"

section \<open>The watchdog threads\<close>

text \<open>
  One pass of the loop of a watchdog after its sleep. \<open>Inr (True, s)\<close> is the \<open>return\<close> inside the
  loop, \<open>Inr (False, s)\<close> another turn.
\<close>

definition datamsg_watchdog_pass ::
    "env \<Rightarrow> DataMessage \<Rightarrow> string \<Rightarrow> rm \<Rightarrow> (exit_reason \<times> rm) + (bool \<times> rm)" where
  "datamsg_watchdog_pass e dm hostName s =
     (case map_of (ackHistory s) (to_int (dm_msg_id dm)) of
        None \<Rightarrow> Inl (DataMsgNotInAckHistory, s)
      | Some pm \<Rightarrow>
          if map_count pm (extract_int_from_string hostName) = 0
          then (case send_msg_with_drop_and_delay e hostName
                       (serialize_data_message dm (uninit_packet e s)) s of
                  (rv, s1) \<Rightarrow> if rv = - 1 then Inl (SendFailed, s1) else Inr (False, s1))
          else Inr (True, s))"

definition ackmsg_watchdog_pass ::
    "env \<Rightarrow> AckMessage \<Rightarrow> string \<Rightarrow> rm \<Rightarrow> (exit_reason \<times> rm) + (bool \<times> rm)" where
  "ackmsg_watchdog_pass e am hostName s =
     (if list_ex (\<lambda>sm. sm_sender sm = am_sender am \<and> sm_msg_id sm = am_msg_id am) (seqMessageHistory s)
      then Inr (True, s)
      else (case send_msg_with_drop_and_delay e hostName
                   (serialize_ack_message am (uninit_packet e s)) s of
              (rv, s1) \<Rightarrow> if rv = - 1 then Inl (SendFailed, s1) else Inr (False, s1)))"

text \<open>
  A turn of the thread at position \<open>i\<close> of the live watchdogs: the loop condition, then the pass.
  A thread that returns, or has had its \<open>WATCHDOG_RESEND_CAP\<close> attempts, leaves the list.
\<close>

fun attempts :: "watchdog \<Rightarrow> nat" where
  "attempts (DataWatchdog dm h n) = n"
| "attempts (AckWatchdog am h n) = n"

fun next_attempt :: "watchdog \<Rightarrow> watchdog" where
  "next_attempt (DataWatchdog dm h n) = DataWatchdog dm h (Suc n)"
| "next_attempt (AckWatchdog am h n) = AckWatchdog am h (Suc n)"

fun watchdog_pass :: "env \<Rightarrow> watchdog \<Rightarrow> rm \<Rightarrow> (exit_reason \<times> rm) + (bool \<times> rm)" where
  "watchdog_pass e (DataWatchdog dm h n) s = datamsg_watchdog_pass e dm h s"
| "watchdog_pass e (AckWatchdog am h n) s = ackmsg_watchdog_pass e am h s"

definition remove_nth :: "nat \<Rightarrow> 'a list \<Rightarrow> 'a list" where
  "remove_nth i xs = take i xs @ drop (Suc i) xs"

definition watchdog_turn :: "env \<Rightarrow> nat \<Rightarrow> rm \<Rightarrow> outcome" where
  "watchdog_turn e i s =
     (if i < length (watchdogs s)
      then let w = watchdogs s ! i in
        if attempts w < WATCHDOG_RESEND_CAP
        then (case watchdog_pass e w s of
                Inl err \<Rightarrow> Inl err
              | Inr (finished, s1) \<Rightarrow>
                  Inr (s1\<lparr>watchdogs := (if finished then remove_nth i (watchdogs s1)
                                        else (watchdogs s1)[i := next_attempt w])\<rparr>))
        else Inr (s\<lparr>watchdogs := remove_nth i (watchdogs s)\<rparr>)
      else Inr s)"

section \<open>The receiver thread\<close>

text \<open>
  \<open>recv(msg_buf, MAX_MSG_SIZE)\<close> lets \<open>recvfrom\<close> write up to \<open>MAX_MSG_SIZE - 1\<close> bytes into an array
  of \<open>MAX_STRUCT_SIZE\<close> bytes; \<open>None\<close> is a write past its end. A shorter datagram leaves the rest of
  the array as the previous one left it.
\<close>

definition recv_into :: "u8 list \<Rightarrow> u8 list \<Rightarrow> u8 list option" where
  "recv_into buf payload =
     (let n = min (length payload) (MAX_MSG_SIZE - 1) in
      if length buf < n then None else Some (take n payload @ drop n buf))"

definition record_inbound :: "rm \<Rightarrow> rm" where
  "record_inbound s =
     (if recordMessages s
      then s\<lparr>snapshot := (snapshot s)\<lparr>inboundMessageBuffer := inboundMessageBuffer (snapshot s) @ [msg_buf s]\<rparr>\<rparr>
      else s)"

definition dispatch :: "env \<Rightarrow> rm \<Rightarrow> outcome" where
  "dispatch e s =
     (let type = unpacku32 (msg_buf s) 0 in
      if type = ucast DATAMSG_TYPE then handle_datamsg e (deserialize_data_message (msg_buf s)) s
      else if type = ucast ACKMSG_TYPE then handle_ackmsg e (deserialize_ack_message (msg_buf s)) s
      else if type = ucast SEQMSG_TYPE then handle_seqmsg e (deserialize_seq_message (msg_buf s)) s
      else Inl (WrongType type, s))"

text \<open>
  One turn of the loop of \<open>msg_receiver\<close> with what \<open>recvfrom\<close> gives: \<open>None\<close> for an error. Once
  \<open>recv_cap\<close> has reached \<open>RECV_CAP\<close> the thread no longer reads from the socket.
\<close>

definition msg_receiver_turn :: "env \<Rightarrow> packet option \<Rightarrow> rm \<Rightarrow> outcome" where
  "msg_receiver_turn e received s =
     (if recv_cap s < RECV_CAP
      then (case received of
              None \<Rightarrow> Inl (RecvFailed, s)
            | Some p \<Rightarrow>
                (case recv_into (msg_buf s) (p_payload p) of
                   None \<Rightarrow> Inl (BufferOverflow, s)
                 | Some buf \<Rightarrow>
                     (case dispatch e (record_inbound (s\<lparr>msg_buf := buf, their_addr := p_src p\<rparr>)) of
                        Inl err \<Rightarrow> Inl err
                      | Inr s1 \<Rightarrow> Inr (s1\<lparr>recv_cap := recv_cap s1 + 1\<rparr>))))
      else Inr s)"

section \<open>The state for a snapshot\<close>

definition get_local_state_snapshot :: "rm \<Rightarrow> LocalStateSnapshot" where
  "get_local_state_snapshot s =
     \<lparr>ls_deliveryQueue = deliveryQueue s, ls_deliveredMessage = deliveredMessage s\<rparr>"

end
