(* ===== verification/Snapshot.thy ===== *)
theory Snapshot
  imports Process
begin

text \<open>
  The snapshot daemon, \<open>CL_global_snapshot.cpp\<close>: initiating a snapshot, the listener thread that
  reacts to markers, the recording of messages in transit and their filing by channel. Markers
  travel over TCP connections of their own, apart from the datagrams of the multicast.
\<close>

section \<open>Sizes\<close>

definition MAX_MARKER_SIZE :: nat where "MAX_MARKER_SIZE = 3"

text \<open>Conversion of a signed \<open>int\<close> to \<open>size_t\<close> in a comparison with \<open>size()\<close>.\<close>

definition to_size_t :: "int \<Rightarrow> int" where
  "to_size_t x = x mod 18446744073709551616"

section \<open>Recording on and off\<close>

definition tell_rm_to_start_recording_channel :: "rm \<Rightarrow> rm" where
  "tell_rm_to_start_recording_channel s = s\<lparr>recordMessages := True\<rparr>"

definition tell_rm_to_stop_recording :: "rm \<Rightarrow> rm" where
  "tell_rm_to_stop_recording s = s\<lparr>recordMessages := False\<rparr>"

section \<open>Sending markers\<close>

text \<open>
  \<open>TCP_Server::connect_and_get_socket\<close> returns the socket, 1 when the name does not resolve and 2
  when no candidate address accepts the connection.
\<close>

fun connect_and_get_socket :: "connect_outcome \<Rightarrow> int" where
  "connect_and_get_socket (Connected fd) = fd"
| "connect_and_get_socket GetaddrinfoFailed = 1"
| "connect_and_get_socket NoCandidateConnected = 2"

text \<open>The text of the marker, what \<open>stringstream << curr_container_id\<close> prints.\<close>

definition our_id :: "rm \<Rightarrow> string" where
  "our_id s = int_to_string (curr_container_id (snapshot s))"

text \<open>
  \<open>send\<close> is called on whatever number came back; a marker reaches the other host only over a
  connected socket.
\<close>

fun marker_loop :: "env \<Rightarrow> string list \<Rightarrow> rm \<Rightarrow> outcome" where
  "marker_loop e [] s = Inr s"
| "marker_loop e (h # hs) s =
     (if h \<noteq> curr_container_name (snapshot s)
      then let s1 = s\<lparr>ticks := Suc (ticks s)\<rparr>;
             to_send_sock = connect_and_get_socket (tcp_connect e (ticks s));
             rv = tcp_send_rv e (ticks s) to_send_sock in
        if rv = - 1 then Inl (MarkerSendFailed, s1)
        else marker_loop e hs
          (case tcp_connect e (ticks s) of
             Connected fd \<Rightarrow> s1\<lparr>marker_outbox := marker_outbox s1 @
               [\<lparr>mk_src = curr_container_name (snapshot s1), mk_dst = h, mk_text = our_id s1\<rparr>]\<rparr>
           | _ \<Rightarrow> s1)
      else marker_loop e hs s)"

definition broadcast_markers :: "env \<Rightarrow> rm \<Rightarrow> outcome" where
  "broadcast_markers e s =
     marker_loop e (take (nat (snap_num_hosts (snapshot s))) (snap_hostNames (snapshot s))) s"

section \<open>Initiating a snapshot\<close>

definition take_local_snapshot :: "rm \<Rightarrow> rm" where
  "take_local_snapshot s =
     s\<lparr>snapshot := (snapshot s)\<lparr>locsnap := get_local_state_snapshot s\<rparr>\<rparr>"

definition initiate_snapshot :: "env \<Rightarrow> rm \<Rightarrow> outcome" where
  "initiate_snapshot e s =
     (let s1 = take_local_snapshot s;
          s2 = s1\<lparr>snapshot := (snapshot s1)\<lparr>amInitiator := True\<rparr>\<rparr>;
          s3 = tell_rm_to_start_recording_channel s2
      in broadcast_markers e s3)"

section \<open>Filing a recorded message\<close>

datatype direction = INBOUND | OUTBOUND

definition add_to_channel ::
    "int list \<Rightarrow> int \<Rightarrow> string \<Rightarrow> (int, string list) std_map \<Rightarrow> (int, string list) std_map" where
  "add_to_channel received sender text m =
     (let m1 = (if map_count m sender = 0 then map_insert sender [] m else m) in
      if sender \<in> set received then m1
      else case subscript [] m1 sender of (m2, msgs) \<Rightarrow> map_store sender (msgs @ [text]) m2)"

definition add_msg_to_inbound :: "int \<Rightarrow> string \<Rightarrow> CL_Global_Snapshot \<Rightarrow> CL_Global_Snapshot" where
  "add_msg_to_inbound sender text c =
     c\<lparr>inboundChannelState := add_to_channel (alreadyReceivedProc c) sender text (inboundChannelState c)\<rparr>"

definition add_msg_to_outbound :: "int \<Rightarrow> string \<Rightarrow> CL_Global_Snapshot \<Rightarrow> CL_Global_Snapshot" where
  "add_msg_to_outbound sender text c =
     c\<lparr>outboundChannelState := add_to_channel (alreadyReceivedProc c) sender text (outboundChannelState c)\<rparr>"

text \<open>\<open>sprintf\<close> with \<open>%d\<close> prints a \<open>uint32_t\<close> as an \<open>int\<close>.\<close>

definition show_u32 :: "u32 \<Rightarrow> string" where
  "show_u32 w = int_to_string (to_int w)"

definition describe_data :: "DataMessage \<Rightarrow> string" where
  "describe_data m = ''DataMessage: sender '' @ show_u32 (dm_sender m) @ '', msg_id '' @
     show_u32 (dm_msg_id m) @ '', data '' @ show_u32 (dm_data m)"

definition describe_ack :: "AckMessage \<Rightarrow> string" where
  "describe_ack m = ''AckMessage: sender '' @ show_u32 (am_sender m) @ '', msg_id '' @
     show_u32 (am_msg_id m) @ '', seq '' @ show_u32 (am_proposed_seq m) @ '', proposer '' @
     show_u32 (am_proposer m)"

definition describe_seq :: "SeqMessage \<Rightarrow> string" where
  "describe_seq m = ''SeqMessage: sender '' @ show_u32 (sm_sender m) @ '', msg_id '' @
     show_u32 (sm_msg_id m) @ '', seq '' @ show_u32 (sm_final_seq m) @ '', proposer '' @
     show_u32 (sm_final_seq_proposer m)"

text \<open>Who sent a recorded message, and its line in the channel state.\<close>

definition classify_message :: "u8 list \<Rightarrow> exit_reason + (int \<times> string)" where
  "classify_message msg =
     (let type = unpacku32 msg 0 in
      if type = ucast DATAMSG_TYPE
      then let m = deserialize_data_message msg in Inr (to_int (dm_sender m), describe_data m)
      else if type = ucast ACKMSG_TYPE
      then let m = deserialize_ack_message msg in Inr (to_int (am_proposer m), describe_ack m)
      else if type = ucast SEQMSG_TYPE
      then let m = deserialize_seq_message msg in Inr (to_int (sm_sender m), describe_seq m)
      else Inl (WrongType type))"

definition handle_message ::
    "u8 list \<Rightarrow> direction \<Rightarrow> CL_Global_Snapshot \<Rightarrow> exit_reason + CL_Global_Snapshot" where
  "handle_message msg inorout c =
     (case classify_message msg of
        Inl err \<Rightarrow> Inl err
      | Inr (sender, buff) \<Rightarrow>
          Inr (case inorout of INBOUND \<Rightarrow> add_msg_to_inbound sender buff c
                             | OUTBOUND \<Rightarrow> add_msg_to_outbound sender buff c))"

text \<open>The two loops that empty the buffers; a message is popped after it has been handled.\<close>

fun drain_messages ::
    "direction \<Rightarrow> u8 list list \<Rightarrow> CL_Global_Snapshot \<Rightarrow> exit_reason + CL_Global_Snapshot" where
  "drain_messages d [] c = Inr c"
| "drain_messages d (b # bs) c =
     (case handle_message (take MAX_STRUCT_SIZE b) d c of
        Inl err \<Rightarrow> Inl err
      | Inr c1 \<Rightarrow> drain_messages d bs c1)"

definition drain_inbound :: "CL_Global_Snapshot \<Rightarrow> exit_reason + CL_Global_Snapshot" where
  "drain_inbound c =
     (case drain_messages INBOUND (inboundMessageBuffer c) c of
        Inl err \<Rightarrow> Inl err | Inr c1 \<Rightarrow> Inr (c1\<lparr>inboundMessageBuffer := []\<rparr>))"

definition drain_outbound :: "CL_Global_Snapshot \<Rightarrow> exit_reason + CL_Global_Snapshot" where
  "drain_outbound c =
     (case drain_messages OUTBOUND (outboundMessageBuffer c) c of
        Inl err \<Rightarrow> Inl err | Inr c1 \<Rightarrow> Inr (c1\<lparr>outboundMessageBuffer := []\<rparr>))"

section \<open>The listener thread\<close>

text \<open>
  What \<open>accept_and_recv\<close> meets: \<open>accept\<close> fails (the function returns \<open>-1\<close>, the listener does not
  look), \<open>recv\<close> fails (the process exits), or bytes arrive. At most \<open>MAX_MARKER_SIZE - 1\<close> bytes are
  read, and a terminating zero is written behind them.
\<close>

datatype accepted = AcceptFailed | RecvError | Bytes string

definition store_marker :: "string \<Rightarrow> string \<Rightarrow> string" where
  "store_marker bytes buf =
     (let n = min (length bytes) (MAX_MARKER_SIZE - 1) in
      take n bytes @ [CHR 0x00] @ drop (Suc n) buf)"

fun accept_and_recv :: "accepted \<Rightarrow> rm \<Rightarrow> outcome" where
  "accept_and_recv AcceptFailed s = Inr s"
| "accept_and_recv RecvError s = Inl (MarkerRecvFailed, s)"
| "accept_and_recv (Bytes bytes) s = Inr (s\<lparr>marker_buf := store_marker bytes (marker_buf s)\<rparr>)"

text \<open>\<open>atoi(buf)\<close> reads the array up to its zero.\<close>

definition marker_id :: "rm \<Rightarrow> int" where
  "marker_id s = atoi (takeWhile (\<lambda>c. c \<noteq> CHR 0x00) (marker_buf s))"

definition mark_received :: "int \<Rightarrow> rm \<Rightarrow> rm" where
  "mark_received p s =
     s\<lparr>snapshot := (snapshot s)\<lparr>alreadyReceivedProc := alreadyReceivedProc (snapshot s) @ [p]\<rparr>\<rparr>"

definition markers_missing :: "rm \<Rightarrow> bool" where
  "markers_missing s \<longleftrightarrow>
     int (length (alreadyReceivedProc (snapshot s))) < to_size_t (snap_num_hosts (snapshot s) - 1)"

definition all_markers :: "rm \<Rightarrow> bool" where
  "all_markers s \<longleftrightarrow>
     int (length (alreadyReceivedProc (snapshot s))) = to_size_t (snap_num_hosts (snapshot s) - 1)"

text \<open>What follows the loop: stop recording (and print).\<close>

definition finish_snapshot :: "rm \<Rightarrow> rm" where
  "finish_snapshot s = (tell_rm_to_stop_recording s)\<lparr>listener_pc := Finished\<rparr>"

text \<open>
  From the head of the \<open>while\<close> loop to the next \<open>accept\<close> or to the end: file the recorded messages,
  then count the marker in the buffer.
\<close>

definition process_marker :: "rm \<Rightarrow> outcome" where
  "process_marker s =
     (if markers_missing s
      then (case drain_inbound (snapshot s) of
              Inl err \<Rightarrow> Inl (err, s)
            | Inr c1 \<Rightarrow>
                (case drain_outbound c1 of
                   Inl err \<Rightarrow> Inl (err, s\<lparr>snapshot := c1\<rparr>)
                 | Inr c2 \<Rightarrow>
                     let s1 = mark_received (marker_id s) (s\<lparr>snapshot := c2\<rparr>)
                     in Inr (if all_markers s1 then finish_snapshot s1
                             else s1\<lparr>listener_pc := AwaitNext\<rparr>)))
      else Inr (finish_snapshot s))"

text \<open>The first marker: an initiator goes on to the loop, any other process starts recording.\<close>

definition first_marker :: "env \<Rightarrow> rm \<Rightarrow> outcome" where
  "first_marker e s =
     (if amInitiator (snapshot s) then process_marker s
      else let s1 = mark_received (marker_id s) s;
               s2 = take_local_snapshot s1;
               s3 = tell_rm_to_start_recording_channel s2
           in (case broadcast_markers e s3 of
                 Inl err \<Rightarrow> Inl err
               | Inr s4 \<Rightarrow>
                   if markers_missing s4 then Inr (s4\<lparr>listener_pc := AwaitNext\<rparr>)
                   else Inr (finish_snapshot s4)))"

text \<open>\<open>listen_for_incoming_connections\<close>, from one return of \<open>accept_and_recv\<close> to the next call.\<close>

definition listener_turn :: "env \<Rightarrow> accepted \<Rightarrow> rm \<Rightarrow> outcome" where
  "listener_turn e r s =
     (case listener_pc s of
        Finished \<Rightarrow> Inr s
      | AwaitFirst \<Rightarrow>
          (case accept_and_recv r s of Inl err \<Rightarrow> Inl err | Inr s1 \<Rightarrow> first_marker e s1)
      | AwaitNext \<Rightarrow>
          (case accept_and_recv r s of Inl err \<Rightarrow> Inl err | Inr s1 \<Rightarrow> process_marker s1))"

end
