(* ===== verification/Sockets.thy ===== *)
theory Sockets
  imports Snapshot "HOL-Library.Signed_Division"
begin

text \<open>
  The socket wrappers of \<open>networkagent.cpp\<close>: the constructors of \<open>UDP_Server\<close> and \<open>TCP_Server\<close>, the
  search for a candidate address that works, and the resources behind them. The operating system
  is a table of open descriptors and a heap of address lists; what its calls answer is given with
  the candidates. The calls that the protocol makes on the sockets are in the theories of their
  callers; this theory says what they take from and give back to the system.
\<close>

section \<open>The resources of a process\<close>

record os =
  open_fds :: "int list"
  addrinfos :: "nat list"
  next_addrinfo :: nat

text \<open>\<open>getaddrinfo\<close> allocates a new list of candidates.\<close>

definition new_addrinfo :: "os \<Rightarrow> nat \<times> os" where
  "new_addrinfo w =
     (next_addrinfo w, w\<lparr>addrinfos := addrinfos w @ [next_addrinfo w],
                         next_addrinfo := Suc (next_addrinfo w)\<rparr>)"

definition close_fd :: "int \<Rightarrow> os \<Rightarrow> os" where
  "close_fd fd w = w\<lparr>open_fds := remove1 fd (open_fds w)\<rparr>"

definition os_ok :: "os \<Rightarrow> bool" where
  "os_ok w \<longleftrightarrow> distinct (addrinfos w) \<and> (\<forall>k \<in> set (addrinfos w). k < next_addrinfo w)"

text \<open>
  The ways in which the wrappers end the process; the last two stand for undefined behaviour.
\<close>

datatype socket_exit =
    BindFailed
  | SetsockoptFailed
  | ListenFailed
  | SigactionFailed
  | FreeUninitialised
  | DoubleFree

section \<open>The candidate loops\<close>

text \<open>
  One entry of the list that \<open>getaddrinfo\<close> returns, with the answers of the calls made for it:
  \<open>socket\<close>, \<open>setsockopt\<close>, and \<open>bind\<close> or \<open>connect\<close>.
\<close>

record candidate =
  c_socket :: "int option"
  c_setsockopt :: bool
  c_usable :: bool

fun udp_bind_loop :: "candidate list \<Rightarrow> int list \<Rightarrow> int option \<times> int list" where
  "udp_bind_loop [] fds = (None, fds)"
| "udp_bind_loop (p # ps) fds =
     (case c_socket p of
        None \<Rightarrow> udp_bind_loop ps fds
      | Some fd \<Rightarrow>
          if \<not> c_usable p then udp_bind_loop ps (remove1 fd (fds @ [fd]))
          else (Some fd, fds @ [fd]))"

fun tcp_bind_loop :: "candidate list \<Rightarrow> int list \<Rightarrow> socket_exit + (int option \<times> int list)" where
  "tcp_bind_loop [] fds = Inr (None, fds)"
| "tcp_bind_loop (p # ps) fds =
     (case c_socket p of
        None \<Rightarrow> tcp_bind_loop ps fds
      | Some fd \<Rightarrow>
          if \<not> c_setsockopt p then Inl SetsockoptFailed
          else if \<not> c_usable p then tcp_bind_loop ps (remove1 fd (fds @ [fd]))
          else Inr (Some fd, fds @ [fd]))"

fun connect_loop :: "candidate list \<Rightarrow> int list \<Rightarrow> int option \<times> int list" where
  "connect_loop [] fds = (None, fds)"
| "connect_loop (p # ps) fds =
     (case c_socket p of
        None \<Rightarrow> connect_loop ps fds
      | Some fd \<Rightarrow>
          if \<not> c_usable p then connect_loop ps (remove1 fd (fds @ [fd]))
          else (Some fd, fds @ [fd]))"

text \<open>
  What the three loops share. \<open>fatal\<close> says which candidates end the process. The client lemma: the
  loop takes the first candidate that has a socket and works or is fatal, and every descriptor it
  opened on the way is closed again, provided the system hands out descriptors that are not open.
\<close>

locale candidate_loop =
  fixes loop :: "candidate list \<Rightarrow> int list \<Rightarrow> 'r"
    and fatal :: "candidate \<Rightarrow> bool"
    and chosen :: "int \<Rightarrow> int list \<Rightarrow> 'r"
    and exhausted :: "int list \<Rightarrow> 'r"
    and died :: 'r
  assumes loop_Nil: "loop [] fds = exhausted fds"
    and no_socket: "c_socket p = None \<Longrightarrow> loop (p # ps) fds = loop ps fds"
    and is_fatal: "c_socket p = Some fd \<Longrightarrow> fatal p \<Longrightarrow> loop (p # ps) fds = died"
    and refused: "c_socket p = Some fd \<Longrightarrow> \<not> fatal p \<Longrightarrow> \<not> c_usable p \<Longrightarrow>
      loop (p # ps) fds = loop ps (remove1 fd (fds @ [fd]))"
    and accepted: "c_socket p = Some fd \<Longrightarrow> \<not> fatal p \<Longrightarrow> c_usable p \<Longrightarrow>
      loop (p # ps) fds = chosen fd (fds @ [fd])"
begin

definition stops :: "candidate \<Rightarrow> bool" where
  "stops p \<longleftrightarrow> c_socket p \<noteq> None \<and> (fatal p \<or> c_usable p)"

lemma first_candidate:
  assumes "\<forall>p \<in> set ps. \<forall>fd. c_socket p = Some fd \<longrightarrow> fd \<notin> set fds"
  shows "loop ps fds =
    (case find stops ps of
       None \<Rightarrow> exhausted fds
     | Some p \<Rightarrow> if fatal p then died else chosen (the (c_socket p)) (fds @ [the (c_socket p)]))"
  using assms
proof (induction ps)
  case Nil
  show ?case by (simp add: loop_Nil)
next
  case (Cons p ps)
  show ?case
  proof (cases "c_socket p")
    case None
    with Cons show ?thesis by (simp add: no_socket stops_def)
  next
    case (Some fd)
    then have "remove1 fd (fds @ [fd]) = fds" using Cons.prems by (simp add: remove1_append)
    with Some Cons show ?thesis
      by (cases "fatal p"; cases "c_usable p") (simp_all add: stops_def is_fatal refused accepted)
  qed
qed

end

interpretation udp_loop: candidate_loop udp_bind_loop "\<lambda>p. False"
    "\<lambda>fd fds. (Some fd, fds)" "\<lambda>fds. (None, fds)" "(None, [])"
  by unfold_locales simp_all

interpretation tcp_loop: candidate_loop tcp_bind_loop "\<lambda>p. \<not> c_setsockopt p"
    "\<lambda>fd fds. Inr (Some fd, fds)" "\<lambda>fds. Inr (None, fds)" "Inl SetsockoptFailed"
  by unfold_locales simp_all

interpretation con_loop: candidate_loop connect_loop "\<lambda>p. False"
    "\<lambda>fd fds. (Some fd, fds)" "\<lambda>fds. (None, fds)" "(None, [])"
  by unfold_locales simp_all

section \<open>UDP\_Server\<close>

text \<open>\<open>snprintf\<close> of the port into a buffer of 16 characters.\<close>

definition decimal_port :: "int \<Rightarrow> string" where
  "decimal_port port = take 15 (int_to_string port)"

text \<open>
  The members; \<open>None\<close> is a member that the constructor has left uninitialised, which it does when
  \<open>getaddrinfo\<close> fails. The implicit copy constructor copies the members.
\<close>

record UDP_Server =
  us_sockfd :: "int option"
  us_port :: int
  us_addrinfo :: "nat option"

definition UDP_Server_ctor ::
    "int \<Rightarrow> (string \<Rightarrow> candidate list option) \<Rightarrow> os \<Rightarrow> socket_exit + (UDP_Server \<times> os)" where
  "UDP_Server_ctor port getaddrinfo w =
     (case getaddrinfo (decimal_port port) of
        None \<Rightarrow> Inr (\<lparr>us_sockfd = None, us_port = port, us_addrinfo = None\<rparr>, w)
      | Some servinfo \<Rightarrow>
          (case new_addrinfo w of
             (k, w1) \<Rightarrow>
               (case udp_bind_loop servinfo (open_fds w1) of
                  (None, fds) \<Rightarrow> Inl BindFailed
                | (Some fd, fds) \<Rightarrow>
                    Inr (\<lparr>us_sockfd = Some fd, us_port = port, us_addrinfo = Some k\<rparr>,
                         w1\<lparr>open_fds := fds\<rparr>))))"

definition freeaddrinfo :: "nat option \<Rightarrow> os \<Rightarrow> socket_exit + os" where
  "freeaddrinfo ai w =
     (case ai of
        None \<Rightarrow> Inl FreeUninitialised
      | Some k \<Rightarrow> if k \<in> set (addrinfos w) then Inr (w\<lparr>addrinfos := remove1 k (addrinfos w)\<rparr>)
                  else Inl DoubleFree)"

definition UDP_Server_dtor :: "UDP_Server \<Rightarrow> os \<Rightarrow> socket_exit + os" where
  "UDP_Server_dtor u w =
     (case freeaddrinfo (us_addrinfo u) w of
        Inl err \<Rightarrow> Inl err
      | Inr w1 \<Rightarrow> Inr (case us_sockfd u of None \<Rightarrow> w1 | Some fd \<Rightarrow> close_fd fd w1))"

text \<open>
  \<open>send_to\<close>: \<open>resolved\<close> says whether \<open>getaddrinfo\<close> succeeds, \<open>rv\<close> is what \<open>sendto\<close> returns. The list of
  addresses is not freed.
\<close>

definition UDP_Server_send_to :: "bool \<Rightarrow> int \<Rightarrow> os \<Rightarrow> int \<times> os" where
  "UDP_Server_send_to resolved rv w =
     (if \<not> resolved then (- 1, w) else case new_addrinfo w of (k, w1) \<Rightarrow> (rv, w1))"

text \<open>
  \<open>timed_recv\<close>: the timeout in seconds and microseconds, and the result from that of \<open>select\<close> and of
  \<open>recv\<close>.
\<close>

definition timed_recv_timeout :: "int \<Rightarrow> int \<times> int" where
  "timed_recv_timeout max_wait_ms = (max_wait_ms sdiv 1000, (max_wait_ms smod 1000) * 1000)"

definition timed_recv :: "int \<Rightarrow> int \<Rightarrow> int" where
  "timed_recv select_rv recv_rv =
     (if select_rv = - 1 then - 1 else if select_rv > 0 then recv_rv else - 1)"

section \<open>TCP\_Server\<close>

record TCP_Server =
  ts_sockfd :: "int option"
  ts_port :: int
  ts_addrinfo :: "nat option"

definition TCP_Server_ctor ::
    "int \<Rightarrow> (string \<Rightarrow> candidate list option) \<Rightarrow> bool \<Rightarrow> bool \<Rightarrow> os \<Rightarrow> socket_exit + (TCP_Server \<times> os)" where
  "TCP_Server_ctor port getaddrinfo listens sigaction w =
     (case getaddrinfo (decimal_port port) of
        None \<Rightarrow> Inr (\<lparr>ts_sockfd = None, ts_port = port, ts_addrinfo = None\<rparr>, w)
      | Some servinfo \<Rightarrow>
          (case new_addrinfo w of
             (k, w1) \<Rightarrow>
               (case tcp_bind_loop servinfo (open_fds w1) of
                  Inl err \<Rightarrow> Inl err
                | Inr (None, fds) \<Rightarrow> Inl BindFailed
                | Inr (Some fd, fds) \<Rightarrow>
                    if \<not> listens then Inl ListenFailed
                    else if \<not> sigaction then Inl SigactionFailed
                    else Inr (\<lparr>ts_sockfd = Some fd, ts_port = port, ts_addrinfo = Some k\<rparr>,
                              w1\<lparr>open_fds := fds\<rparr>))))"

text \<open>
  \<open>connect_and_get_socket\<close> with the system calls it makes: the number it returns and what it has
  taken from the system. The list of addresses is freed on success only.
\<close>

definition tcp_connect_to :: "candidate list option \<Rightarrow> os \<Rightarrow> int \<times> os" where
  "tcp_connect_to servinfo w =
     (case servinfo of
        None \<Rightarrow> (1, w)
      | Some ps \<Rightarrow>
          (case new_addrinfo w of
             (k, w1) \<Rightarrow>
               (case connect_loop ps (open_fds w1) of
                  (None, fds) \<Rightarrow> (2, w1\<lparr>open_fds := fds\<rparr>)
                | (Some fd, fds) \<Rightarrow>
                    (fd, w1\<lparr>open_fds := fds, addrinfos := remove1 k (addrinfos w1)\<rparr>))))"

section \<open>Facts\<close>

text \<open>The system hands out descriptors that are not open.\<close>

definition fresh_sockets :: "candidate list \<Rightarrow> os \<Rightarrow> bool" where
  "fresh_sockets ps w \<longleftrightarrow> (\<forall>p \<in> set ps. \<forall>fd. c_socket p = Some fd \<longrightarrow> fd \<notin> set (open_fds w))"

definition works :: "candidate \<Rightarrow> bool" where
  "works p \<longleftrightarrow> c_socket p \<noteq> None \<and> c_usable p"

lemma stops_works: "udp_loop.stops = works" "con_loop.stops = works"
  by (simp_all add: udp_loop.stops_def con_loop.stops_def works_def fun_eq_iff)

lemma find_works: "find works ps = Some p \<Longrightarrow> \<exists>fd. c_socket p = Some fd"
  by (auto simp: find_Some_iff works_def)

lemma udp_first:
  "fresh_sockets ps w \<Longrightarrow> udp_bind_loop ps (open_fds w) =
    (case find works ps of None \<Rightarrow> (None, open_fds w)
     | Some p \<Rightarrow> (c_socket p, open_fds w @ [the (c_socket p)]))"
  using udp_loop.first_candidate [of ps "open_fds w"]
  by (cases "find works ps") (auto simp: fresh_sockets_def stops_works dest: find_works)

lemma connect_first:
  "fresh_sockets ps w \<Longrightarrow> connect_loop ps (open_fds w) =
    (case find works ps of None \<Rightarrow> (None, open_fds w)
     | Some p \<Rightarrow> (c_socket p, open_fds w @ [the (c_socket p)]))"
  using con_loop.first_candidate [of ps "open_fds w"]
  by (cases "find works ps") (auto simp: fresh_sockets_def stops_works dest: find_works)

lemma decimal_port_fits: "port \<in> int_range \<Longrightarrow> decimal_port port = int_to_string port"
  using length_int_to_string [of port] by (simp add: decimal_port_def)

text \<open>
  The constructor of \<open>UDP_Server\<close> serves the first candidate address on which a socket can be
  bound and has opened exactly that socket, whatever was tried before; without one the process ends
  and when the address cannot be looked up the object is left without a socket.
\<close>

lemma udp_server_binds_first:
  assumes "\<forall>ps. gai (int_to_string port) = Some ps \<longrightarrow> fresh_sockets ps w" "port \<in> int_range"
  shows "UDP_Server_ctor port gai w =
    (case gai (int_to_string port) of
       None \<Rightarrow> Inr (\<lparr>us_sockfd = None, us_port = port, us_addrinfo = None\<rparr>, w)
     | Some ps \<Rightarrow>
         (case find works ps of
            None \<Rightarrow> Inl BindFailed
          | Some p \<Rightarrow>
              Inr (\<lparr>us_sockfd = c_socket p, us_port = port, us_addrinfo = Some (next_addrinfo w)\<rparr>,
                   w\<lparr>open_fds := open_fds w @ [the (c_socket p)],
                     addrinfos := addrinfos w @ [next_addrinfo w],
                     next_addrinfo := Suc (next_addrinfo w)\<rparr>)))"
proof (cases "gai (int_to_string port)")
  case None
  then show ?thesis by (simp add: UDP_Server_ctor_def decimal_port_fits assms(2))
next
  case (Some ps)
  with assms(1) have "fresh_sockets ps w" by blast
  from udp_first [OF this] Some show ?thesis
    by (cases "find works ps")
      (auto simp: UDP_Server_ctor_def decimal_port_fits assms(2) new_addrinfo_def dest: find_works)
qed

text \<open>
  The socket wrapper does not survive copying: \<open>ReliableMulticast\<close> keeps a copy of the \<open>UDP_Server\<close>
  that \<open>main\<close> has built, and where both are destroyed, the second destructor frees the same address
  list again. (The program never gets that far: its receiver thread does not return.)
\<close>

lemma copied_server_freed_twice:
  assumes "UDP_Server_ctor port gai w = Inr (comm, w1)" "us_sockfd comm \<noteq> None" "os_ok w"
    and "communicator = comm"
  shows "\<exists>w2. UDP_Server_dtor communicator w1 = Inr w2 \<and> UDP_Server_dtor comm w2 = Inl DoubleFree"
proof -
  have k: "us_addrinfo comm = Some (next_addrinfo w)" "addrinfos w1 = addrinfos w @ [next_addrinfo w]"
    using assms(1,2) by (auto simp: UDP_Server_ctor_def new_addrinfo_def split: option.splits prod.splits)
  moreover have "next_addrinfo w \<notin> set (addrinfos w)" using assms(3) by (auto simp: os_ok_def)
  ultimately show ?thesis using assms(2,4)
    by (auto simp: UDP_Server_dtor_def freeaddrinfo_def close_fd_def remove1_append)
qed

text \<open>
  Every \<open>send_to\<close> that resolves its destination leaves one more address list allocated, so a
  process that sends keeps growing, while the descriptors stay as they are.
\<close>

lemma send_to_leaks:
  "let w' = fold (\<lambda>(resolved, rv) w. snd (UDP_Server_send_to resolved rv w)) calls w in
   length (addrinfos w') = length (addrinfos w) + length (filter fst calls) \<and> open_fds w' = open_fds w"
proof (induction calls arbitrary: w)
  case (Cons c calls)
  obtain resolved rv where "c = (resolved, rv)" by fastforce
  with Cons.IH [of "snd (UDP_Server_send_to resolved rv w)"] show ?case
    by (simp add: UDP_Server_send_to_def new_addrinfo_def Let_def)
qed simp

text \<open>The contract the snapshot daemon's model takes \<open>connect_and_get_socket\<close> to have.\<close>

definition connect_result :: "candidate list option \<Rightarrow> connect_outcome" where
  "connect_result servinfo =
     (case servinfo of
        None \<Rightarrow> GetaddrinfoFailed
      | Some ps \<Rightarrow> (case find works ps of None \<Rightarrow> NoCandidateConnected
                    | Some p \<Rightarrow> Connected (the (c_socket p))))"

text \<open>
  \<open>connect_and_get_socket\<close>, with its loop over the candidate addresses, implements the outcome the
  daemon works with: the socket of the first address that accepts the connection, and the small
  numbers 1 and 2 for the two failures. It leaves open the returned socket and nothing else; a
  failed connection leaves the list of addresses allocated.
\<close>

lemma connect_refines_outcome:
  assumes "\<forall>ps. ai = Some ps \<longrightarrow> fresh_sockets ps w" "os_ok w" "tcp_connect_to ai w = (rv, w')"
  shows "rv = connect_and_get_socket (connect_result ai) \<and>
    open_fds w' = open_fds w @ (case connect_result ai of Connected fd \<Rightarrow> [fd] | _ \<Rightarrow> []) \<and>
    addrinfos w' = addrinfos w @
      (if connect_result ai = NoCandidateConnected then [next_addrinfo w] else [])"
proof (cases ai)
  case None
  with assms(3) show ?thesis by (simp add: tcp_connect_to_def connect_result_def)
next
  case (Some ps)
  with assms(1) have f: "fresh_sockets ps w" by blast
  have k: "remove1 (next_addrinfo w) (addrinfos w @ [next_addrinfo w]) = addrinfos w"
    using assms(2) by (auto simp: os_ok_def remove1_append)
  show ?thesis
  proof (cases "find works ps")
    case None
    then show ?thesis using assms(3) connect_first [OF f] \<open>ai = Some ps\<close>
      by (auto simp: tcp_connect_to_def connect_result_def new_addrinfo_def)
  next
    case (Some p)
    then obtain fd where "c_socket p = Some fd" using find_works by blast
    then show ?thesis using assms(3) connect_first [OF f] \<open>ai = Some ps\<close> Some k
      by (auto simp: tcp_connect_to_def connect_result_def new_addrinfo_def)
  qed
qed

text \<open>The timeout of \<open>timed_recv\<close> is the time asked for.\<close>

lemma timed_recv_timeout_exact:
  assumes "0 \<le> ms" "timed_recv_timeout ms = (sec, usec)"
  shows "sec * 1000000 + usec = ms * 1000 \<and> 0 \<le> usec \<and> usec < 1000000"
proof -
  have "sec = ms div 1000" "usec = (ms mod 1000) * 1000"
    using assms by (auto simp: timed_recv_timeout_def signed_divide_int_def signed_modulo_int_def sgn_if)
  moreover have "0 \<le> ms mod 1000" "ms mod 1000 < 1000" by simp_all
  ultimately show ?thesis using div_mult_mod_eq [of ms 1000] by linarith
qed

end
