(* ===== verification/Group.thy ===== *)
theory Group
  imports Snapshot
begin

text \<open>
  The whole group: one process per line of the host file, each with its main thread, its receiver,
  its watchdogs and its snapshot listener, over a network that may lose, delay, reorder and repeat
  datagrams. A step is one turn of one thread of one process; the network is the history of the
  datagrams handed to it, from which any may be received by the host it is addressed to, any
  number of times or never.
\<close>

section \<open>Reachability and invariants of transition systems\<close>

inductive reach :: "('s \<Rightarrow> bool) \<Rightarrow> ('s \<Rightarrow> 's \<Rightarrow> bool) \<Rightarrow> 's \<Rightarrow> bool"
  for start :: "'s \<Rightarrow> bool" and step :: "'s \<Rightarrow> 's \<Rightarrow> bool" where
  reach_start: "start s \<Longrightarrow> reach start step s"
| reach_step: "reach start step s \<Longrightarrow> step s t \<Longrightarrow> reach start step t"

locale invariant =
  fixes start :: "'s \<Rightarrow> bool" and step :: "'s \<Rightarrow> 's \<Rightarrow> bool" and I :: "'s \<Rightarrow> bool"
  assumes start_inv: "start s \<Longrightarrow> I s"
    and step_inv: "I s \<Longrightarrow> step s t \<Longrightarrow> I t"
begin

lemma always: "reach start step s \<Longrightarrow> I s"
  by (induction rule: reach.induct) (auto intro: start_inv step_inv)

end

section \<open>Events of a process\<close>

datatype event =
    Multicast u32
  | Receive "packet option"
  | WatchdogTurn nat
  | InitiateSnapshot
  | ListenerTurn accepted

fun process_event :: "env \<Rightarrow> event \<Rightarrow> rm \<Rightarrow> outcome" where
  "process_event e (Multicast data) s = multicast_datamsg e data s"
| "process_event e (Receive r) s = msg_receiver_turn e r s"
| "process_event e (WatchdogTurn i) s = watchdog_turn e i s"
| "process_event e InitiateSnapshot s = initiate_snapshot e s"
| "process_event e (ListenerTurn r) s = listener_turn e r s"

section \<open>The group\<close>

text \<open>Entry \<open>i\<close> is the process on host \<open>i\<close>: running, or exited with its reason.\<close>

type_synonym group = "outcome list"

fun state_of :: "outcome \<Rightarrow> rm" where
  "state_of (Inl (err, s)) = s"
| "state_of (Inr s) = s"

definition wire :: "group \<Rightarrow> packet list" where
  "wire g = concat (map (\<lambda>r. outbox (state_of r)) g)"

definition marker_wire :: "group \<Rightarrow> marker list" where
  "marker_wire g = concat (map (\<lambda>r. marker_outbox (state_of r)) g)"

text \<open>
  What can be received: a datagram on the wire addressed to this host, a receive error at any
  time, some first bytes of a marker sent to this host.
\<close>

fun possible :: "group \<Rightarrow> event \<Rightarrow> rm \<Rightarrow> bool" where
  "possible g (Receive (Some p)) s = (p \<in> set (wire g) \<and> p_dst p = current_container_name s)"
| "possible g (ListenerTurn (Bytes b)) s =
     list_ex (\<lambda>m. mk_dst m = current_container_name s \<and> take (length b) (mk_text m) = b) (marker_wire g)"
| "possible g ev s = True"

inductive group_step :: "(nat \<Rightarrow> env) \<Rightarrow> group \<Rightarrow> group \<Rightarrow> bool" for envs :: "nat \<Rightarrow> env" where
  turn: "i < length g \<Longrightarrow> g ! i = Inr s \<Longrightarrow> possible g ev s \<Longrightarrow>
     group_step envs g (g[i := process_event (envs i) ev s])"

inductive_cases group_stepE: "group_step envs g g'"

text \<open>The state after every host has been seen by every other one and the constructors have run.\<close>

record config =
  c_hosts :: "string list"
  c_drop_rate :: "nat \<Rightarrow> rat"
  c_msg_buf :: "nat \<Rightarrow> u8 list"
  c_marker_buf :: "nat \<Rightarrow> string"

definition initial_process :: "config \<Rightarrow> nat \<Rightarrow> rm" where
  "initial_process c i =
     ReliableMulticast (c_hosts c) (c_hosts c ! i) (c_drop_rate c i) (c_msg_buf c i) (c_marker_buf c i)"

definition initial_group :: "config \<Rightarrow> group" where
  "initial_group c = map (\<lambda>i. Inr (initial_process c i)) [0..<length (c_hosts c)]"

definition reachable :: "config \<Rightarrow> (nat \<Rightarrow> env) \<Rightarrow> group \<Rightarrow> bool" where
  "reachable c envs g = reach (\<lambda>h. h = initial_group c) (group_step envs) g"

text \<open>
  What the README asks of a configuration: the numbers in the host names tell the hosts apart.
  The receive buffers are arrays of \<open>MAX_STRUCT_SIZE\<close> bytes.
\<close>

definition config_ok :: "config \<Rightarrow> bool" where
  "config_ok c \<longleftrightarrow> distinct (map extract_int_from_string (c_hosts c)) \<and>
     (\<forall>i. length (c_msg_buf c i) = MAX_STRUCT_SIZE)"

section \<open>Running a schedule\<close>

text \<open>A schedule names, for every step, the process and the event. It is an executable run.\<close>

fun run :: "(nat \<Rightarrow> env) \<Rightarrow> (nat \<times> event) list \<Rightarrow> group \<Rightarrow> group option" where
  "run envs [] g = Some g"
| "run envs ((i, ev) # sched) g =
     (if i < length g
      then (case g ! i of
              Inl _ \<Rightarrow> None
            | Inr s \<Rightarrow>
                if possible g ev s then run envs sched (g[i := process_event (envs i) ev s]) else None)
      else None)"

lemma run_reaches:
  "reach S (group_step envs) g \<Longrightarrow> run envs sched g = Some h \<Longrightarrow> reach S (group_step envs) h"
proof (induction envs sched g rule: run.induct)
  case (2 envs i ev sched g)
  from "2.prems"(2) obtain s where s: "i < length g" "g ! i = Inr s" "possible g ev s"
    "run envs sched (g[i := process_event (envs i) ev s]) = Some h"
    by (auto split: if_splits sum.splits)
  then have "group_step envs g (g[i := process_event (envs i) ev s])"
    by (intro group_step.turn) auto
  with "2.prems"(1) have "reach S (group_step envs) (g[i := process_event (envs i) ev s])"
    by (rule reach_step)
  with "2.IH" s show ?case by blast
qed simp

lemma run_reach:
  "reachable c envs g \<Longrightarrow> run envs sched g = Some h \<Longrightarrow> reachable c envs h"
  unfolding reachable_def by (rule run_reaches)

lemma run_append:
  "run envs (a @ b) g = (case run envs a g of None \<Rightarrow> None | Some h \<Rightarrow> run envs b h)"
  by (induction envs a g rule: run.induct) (auto split: sum.split)

lemma reachable_start: "reachable c envs (initial_group c)"
  by (simp add: reachable_def reach_start)

end
