(* ===== verification/StartUp.thy ===== *)
theory StartUp
  imports HostFile Sockets Group
begin

text \<open>
  Start-up: \<open>waittosync.cpp\<close> and what the constructor of \<open>ReliableMulticast\<close> does with its results.
  Every process runs one thread per line of the host file. The thread of the own line listens and
  answers each ``hi'' with an ``ACK'' until it has answered all the others; the thread of another line
  says ``hi'' to that host until something comes back.
\<close>

section \<open>One thread\<close>

text \<open>
  What a call of \<open>recvfrom\<close> in the listener gives: an error, or a packet from an address, with the
  success of the \<open>sendto\<close> that answers it. The listener counts an address once.
\<close>

datatype arrival = RecvfromFailed | Packet string bool

fun listener_pass :: "arrival \<Rightarrow> string list \<Rightarrow> string list" where
  "listener_pass RecvfromFailed encountered_ips = encountered_ips"
| "listener_pass (Packet their_ip sent) encountered_ips =
     (if \<not> sent then encountered_ips
      else if list_ex (\<lambda>ip. ip = their_ip) encountered_ips then encountered_ips
      else encountered_ips @ [their_ip])"

definition listening :: "int \<Rightarrow> string list \<Rightarrow> bool" where
  "listening numHost encountered_ips \<longleftrightarrow> int (length encountered_ips) < numHost - 1"

text \<open>The loop over what arrives: whether it has ended, and the addresses counted.\<close>

fun listener_loop :: "int \<Rightarrow> arrival list \<Rightarrow> string list \<Rightarrow> bool \<times> string list" where
  "listener_loop n [] ips = (\<not> listening n ips, ips)"
| "listener_loop n (a # arrivals) ips =
     (if listening n ips then listener_loop n arrivals (listener_pass a ips) else (True, ips))"

text \<open>
  \<open>receive_signals_and_send_ack\<close>: without an address the thread returns at once, without a port the
  process ends.
\<close>

definition receive_signals_and_send_ack ::
    "candidate list option \<Rightarrow> int list \<Rightarrow> int \<Rightarrow> arrival list \<Rightarrow> socket_exit + (bool \<times> string list)" where
  "receive_signals_and_send_ack servinfo fds numHost arrivals =
     (case servinfo of
        None \<Rightarrow> Inr (True, [])
      | Some ps \<Rightarrow>
          (case udp_bind_loop ps fds of
             (None, _) \<Rightarrow> Inl BindFailed
           | (Some sockfd, _) \<Rightarrow> Inr (listener_loop numHost arrivals [])))"

text \<open>
  One attempt of \<open>send_signals_and_wait_for_acks\<close>: \<open>sendto\<close> fails, or \<open>poll\<close> times out, reports data,
  which \<open>recvfrom\<close> gets or not, or reports something else. The loop gives whether it has ended and how
  often ``hi'' was sent.
\<close>

datatype poll_outcome = TimedOut | Readable bool | OtherEvent
datatype attempt = SendtoFailed | Sent poll_outcome

fun sender_pass :: "attempt \<Rightarrow> bool" where
  "sender_pass SendtoFailed = False"
| "sender_pass (Sent TimedOut) = False"
| "sender_pass (Sent (Readable received)) = received"
| "sender_pass (Sent OtherEvent) = False"

fun send_signals_and_wait_for_acks :: "attempt list \<Rightarrow> bool \<times> nat" where
  "send_signals_and_wait_for_acks [] = (False, 0)"
| "send_signals_and_wait_for_acks (a # tries) =
     (let sent = (if a = SendtoFailed then 0 else 1) in
      if sender_pass a then (True, sent)
      else case send_signals_and_wait_for_acks tries of (r, k) \<Rightarrow> (r, sent + k))"

text \<open>
  The first address that \<open>getaddrinfo\<close> gives for a host name; \<open>resolver k\<close> is the answer of attempt
  \<open>k\<close>. A name that is never found keeps the thread in its loop.
\<close>

partial_function (option) resolve_host :: "(nat \<Rightarrow> string option) \<Rightarrow> nat \<Rightarrow> string option" where
  "resolve_host resolver k =
     (case resolver k of Some hostip \<Rightarrow> Some hostip | None \<Rightarrow> resolve_host resolver (Suc k))"

datatype role = Listener | Sender
datatype start_exit = GethostbynameFailed | HostFile file_error | NoContainerName

text \<open>
  \<open>check_up_with_host\<close> up to the call of the thread's loop: its role, and the new value of the global
  \<open>current_container_name\<close>. The outer \<open>None\<close> is a thread that does not get there.
\<close>

definition check_up_with_host ::
    "string option \<Rightarrow> (nat \<Rightarrow> string option) \<Rightarrow> string \<Rightarrow> string option \<Rightarrow>
     (start_exit + (role \<times> string option)) option" where
  "check_up_with_host local_ip resolver hostname name =
     (case local_ip of
        None \<Rightarrow> Some (Inl GethostbynameFailed)
      | Some localipstr \<Rightarrow>
          (case resolve_host resolver 0 of
             None \<Rightarrow> None
           | Some hostipstr \<Rightarrow>
               Some (Inr (if localipstr = hostipstr then (Listener, Some hostname) else (Sender, name)))))"

text \<open>
  The name \<open>waittosync\<close> returns, with the lines in the order in which their threads come to the
  assignment.
\<close>

fun waittosync_name ::
    "string option \<Rightarrow> (string \<Rightarrow> nat \<Rightarrow> string option) \<Rightarrow> string list \<Rightarrow> string option \<Rightarrow>
     (start_exit + string option) option" where
  "waittosync_name local_ip resolver [] name = Some (Inr name)"
| "waittosync_name local_ip resolver (h # hs) name =
     (case check_up_with_host local_ip (resolver h) h name of
        None \<Rightarrow> None
      | Some (Inl err) \<Rightarrow> Some (Inl err)
      | Some (Inr (_, name')) \<Rightarrow> waittosync_name local_ip resolver hs name')"

text \<open>The constructor, from the host file on; \<open>order\<close> is the order of the threads.\<close>

definition construct ::
    "string option \<Rightarrow> string option \<Rightarrow> (string \<Rightarrow> nat \<Rightarrow> string option) \<Rightarrow> (string list \<Rightarrow> string list) \<Rightarrow>
     rat \<Rightarrow> u8 list \<Rightarrow> string \<Rightarrow> (start_exit + rm) option" where
  "construct hostFile local_ip resolver order rate buf mbuf =
     (case read_from_file hostFile of
        Inl err \<Rightarrow> Some (Inl (HostFile err))
      | Inr hosts \<Rightarrow>
          (case waittosync_name local_ip resolver (order hosts) None of
             None \<Rightarrow> None
           | Some (Inl err) \<Rightarrow> Some (Inl err)
           | Some (Inr None) \<Rightarrow> Some (Inl NoContainerName)
           | Some (Inr (Some name)) \<Rightarrow> Some (Inr (ReliableMulticast hosts name rate buf mbuf))))"

section \<open>Facts on one thread\<close>

lemma listener_pass_set:
  "set (listener_pass a ips) = set ips \<union> (case a of Packet ip True \<Rightarrow> {ip} | _ \<Rightarrow> {})"
  by (cases a) (auto simp: list_ex_iff split: bool.split)

lemma listener_pass_distinct: "distinct ips \<Longrightarrow> distinct (listener_pass a ips)"
  by (cases a) (auto simp: list_ex_iff)

text \<open>The addresses that were answered.\<close>

definition answered :: "arrival list \<Rightarrow> string set" where
  "answered arrivals = {ip. Packet ip True \<in> set arrivals}"

lemma answered_Cons: "answered (a # as) = (case a of Packet ip True \<Rightarrow> {ip} | _ \<Rightarrow> {}) \<union> answered as"
  by (auto simp: answered_def split: arrival.split bool.split)

lemma finite_answered: "finite (answered arrivals)"
proof (rule finite_subset)
  show "answered arrivals \<subseteq> (\<lambda>a. case a of Packet ip _ \<Rightarrow> ip | _ \<Rightarrow> []) ` set arrivals"
    by (force simp: answered_def image_iff)
qed simp

lemma listener_loop_ends:
  assumes "distinct ips"
  shows "fst (listener_loop n arrivals ips) \<longleftrightarrow> n - 1 \<le> int (card (set ips \<union> answered arrivals))"
  using assms
proof (induction n arrivals ips rule: listener_loop.induct)
  case (1 n ips)
  then show ?case by (auto simp: listening_def distinct_card answered_def)
next
  case (2 n a arrivals ips)
  show ?case
  proof (cases "listening n ips")
    case True
    then show ?thesis
      using 2 by (simp add: listener_pass_distinct listener_pass_set answered_Cons Un_assoc)
  next
    case False
    have "card (set ips) \<le> card (set ips \<union> answered (a # arrivals))"
      by (intro card_mono) (simp_all add: finite_answered)
    with False 2 show ?thesis by (simp add: listening_def distinct_card)
  qed
qed

text \<open>
  C31. The listener ends exactly when it has answered as many different addresses as there are other
  hosts: packets repeated by a host, failed receives and answers that could not be sent do not count.
\<close>

theorem listener_ends_when_all_answered:
  "fst (listener_loop n arrivals []) \<longleftrightarrow> n - 1 \<le> int (card (answered arrivals))"
  using listener_loop_ends [of "[]"] by simp

lemma sender_ends_on_reply: "fst (send_signals_and_wait_for_acks as) \<longleftrightarrow> Sent (Readable True) \<in> set as"
proof (induction as)
  case (Cons a as)
  have "sender_pass a \<longleftrightarrow> a = Sent (Readable True)" by (cases a rule: sender_pass.cases) auto
  with Cons show ?case by (auto simp: Let_def split: prod.split)
qed simp

lemma resolve_found:
  "resolver (k + d) = Some ip \<Longrightarrow> \<forall>j < d. resolver (k + j) = None \<Longrightarrow> resolve_host resolver k = Some ip"
proof (induction d arbitrary: k)
  case 0
  then show ?case by (simp add: resolve_host.simps [of resolver k])
next
  case (Suc d)
  have "resolver k = None" using Suc.prems(2) by (metis add_0_right zero_less_Suc)
  moreover have "\<forall>j < d. resolver (Suc k + j) = None" using Suc.prems(2) by (metis Suc_mono add_Suc_shift)
  moreover have "resolver (Suc k + d) = Some ip" using Suc.prems(1) by simp
  ultimately show ?case using Suc.IH [of "Suc k"] by (simp add: resolve_host.simps [of resolver k])
qed

lemma resolve_found_ever: "resolve_host resolver k = Some ip \<Longrightarrow> \<exists>j. resolver j = Some ip"
proof (rule resolve_host.raw_induct [where P = "\<lambda>r k ip. \<exists>j. r j = Some ip"])
  fix f r k ip
  assume "\<And>r k ip. f r k = Some ip \<Longrightarrow> \<exists>j. r j = Some ip"
    and "(case r k of Some hostip \<Rightarrow> Some hostip | None \<Rightarrow> f r (Suc k)) = Some ip"
  then show "\<exists>j. r j = Some ip" by (auto split: option.splits)
qed

text \<open>
  The thread of a host gets past its retry loop if and only if the name is found some time, and
  then works with the first address found.
\<close>

lemma resolve_terminates:
  "(\<exists>ip. resolve_host resolver 0 = Some ip) \<longleftrightarrow> (\<exists>k ip. resolver k = Some ip)"
proof
  assume "\<exists>k ip. resolver k = Some ip"
  then have ex: "\<exists>k. resolver k \<noteq> None" by auto
  define k where "k = (LEAST k. resolver k \<noteq> None)"
  have "resolver k \<noteq> None" unfolding k_def using ex by (rule LeastI_ex)
  moreover have "\<forall>j < k. resolver j = None" unfolding k_def using not_less_Least by blast
  ultimately show "\<exists>ip. resolve_host resolver 0 = Some ip" using resolve_found [of resolver 0 k] by auto
qed (use resolve_found_ever in blast)

section \<open>The constructor\<close>

text \<open>\<open>addr\<close> gives the address under which a host is found, after some attempts.\<close>

definition found_at :: "(nat \<Rightarrow> string option) \<Rightarrow> string \<Rightarrow> bool" where
  "found_at resolver ip \<longleftrightarrow> (\<exists>k. resolver k = Some ip \<and> (\<forall>j < k. resolver j = None))"

lemma resolve_found_at: "found_at resolver ip \<Longrightarrow> resolve_host resolver 0 = Some ip"
  unfolding found_at_def using resolve_found [of resolver 0] by auto

lemma waittosync_name_unique:
  assumes "\<forall>h \<in> set hs. found_at (resolver h) (addr h)" "\<forall>h \<in> set hs. addr h = ip \<longrightarrow> h = me"
  shows "waittosync_name (Some ip) resolver hs name =
    Some (Inr (if \<exists>h \<in> set hs. addr h = ip then Some me else name))"
  using assms
proof (induction hs arbitrary: name)
  case (Cons h hs)
  then show ?case by (auto simp: check_up_with_host_def resolve_found_at)
qed simp

text \<open>
  The constructor of the process on host \<open>i\<close> ends in the initial state of process \<open>i\<close> of the group
  model, provided the host file lists the hosts, every name is found some time, and exactly the own
  one leads to the own address; the order in which the threads run does not matter.
\<close>

lemma constructor_gives_initial_process:
  assumes "hostFile = Some (concat (map (\<lambda>h. h @ [LF]) (c_hosts c)))"
    and "\<forall>h \<in> set (c_hosts c). plain_name h \<and> length (h @ [LF]) < MAX_HOST_NAME"
    and "length (c_hosts c) \<le> ARRAY_MAX_SIZE" "i < length (c_hosts c)"
    and "\<forall>h \<in> set (c_hosts c). found_at (resolver h) (addr h)" "inj_on addr (set (c_hosts c))"
    and "set (order (c_hosts c)) = set (c_hosts c)"
  shows "construct hostFile (Some (addr (c_hosts c ! i))) resolver order
      (c_drop_rate c i) (c_msg_buf c i) (c_marker_buf c i) = Some (Inr (initial_process c i))"
proof -
  let ?me = "c_hosts c ! i"
  have read: "read_from_file hostFile = Inr (c_hosts c)"
    using read_lines_all [of "c_hosts c" "[LF]" "[]"] assms(1-3) by simp
  have me: "?me \<in> set (c_hosts c)" using assms(4) by simp
  have "waittosync_name (Some (addr ?me)) resolver (order (c_hosts c)) None =
      Some (Inr (if \<exists>h \<in> set (order (c_hosts c)). addr h = addr ?me then Some ?me else None))"
    using assms(5-7) me by (intro waittosync_name_unique) (auto dest: inj_onD)
  then have "waittosync_name (Some (addr ?me)) resolver (order (c_hosts c)) None = Some (Inr (Some ?me))"
    using assms(7) me by auto
  with read show ?thesis by (simp add: construct_def initial_process_def)
qed

text \<open>
  A process whose own address is none of those in the host file ends; so does one that cannot open
  the file or finds too many lines in it.
\<close>

lemma constructor_without_name:
  assumes "read_from_file hostFile = Inr hosts" "\<forall>h \<in> set (order hosts). found_at (resolver h) (addr h)"
    and "ip \<notin> addr ` set (order hosts)"
  shows "construct hostFile (Some ip) resolver order rate buf mbuf = Some (Inl NoContainerName)"
proof -
  have "waittosync_name (Some ip) resolver (order hosts) None =
      Some (Inr (if \<exists>h \<in> set (order hosts). addr h = ip then Some [] else None))"
    using assms(2,3) by (intro waittosync_name_unique) auto
  moreover have "\<not> (\<exists>h \<in> set (order hosts). addr h = ip)" using assms(3) by auto
  ultimately show ?thesis using assms(1) by (simp add: construct_def)
qed

end
