(* ===== verification/SyncGroup.thy ===== *)
theory SyncGroup
  imports StartUp
begin

text \<open>
  The start-up of the whole group: the threads of \<open>waittosync.cpp\<close> on all hosts, exchanging ``hi'' and
  ``ACK'' packets over a network that may lose, delay and repeat them. A state has, for every host,
  whether its threads run, the addresses its listener has answered and the hosts that have answered
  it. The theorems say what a host knows when it prints READY, and where the exchange gets stuck.
\<close>

section \<open>Steps\<close>

record host_sync =
  joined :: bool
  encountered :: "string list"
  acked :: "nat list"

record sync_state =
  hosts_sync :: "nat \<Rightarrow> host_sync"
  hi_wire :: "(nat \<times> nat) list"
  ack_wire :: "(nat \<times> nat) list"

text \<open>
  A host starts its threads; the thread of host \<open>i\<close> for host \<open>j\<close> says ``hi''; the listener of \<open>i\<close> gets
  the ``hi'' of \<open>j\<close> and answers, with the success of the answer; its \<open>recvfrom\<close> fails; the thread of
  \<open>i\<close> for \<open>j\<close> makes an attempt that ends as given, with the answer of \<open>j\<close> if it got one; a packet is lost.
\<close>

datatype sync_event =
    Join nat
  | SayHi nat nat
  | Hear nat nat bool
  | HearError nat
  | Poll nat nat attempt
  | LoseHi nat nat
  | LoseAck nat nat

definition upd_host :: "nat \<Rightarrow> (host_sync \<Rightarrow> host_sync) \<Rightarrow> sync_state \<Rightarrow> sync_state" where
  "upd_host i f st = st\<lparr>hosts_sync := (hosts_sync st)(i := f (hosts_sync st i))\<rparr>"

text \<open>\<open>None\<close> for a step that cannot be taken. \<open>ips ! i\<close> is the address of host \<open>i\<close>.\<close>

definition waits_for :: "string list \<Rightarrow> sync_state \<Rightarrow> nat \<Rightarrow> nat \<Rightarrow> bool" where
  "waits_for ips st i j \<longleftrightarrow> i < length ips \<and> j < length ips \<and> ips ! i \<noteq> ips ! j \<and>
     joined (hosts_sync st i) \<and> j \<notin> set (acked (hosts_sync st i))"

definition listens :: "string list \<Rightarrow> sync_state \<Rightarrow> nat \<Rightarrow> bool" where
  "listens ips st i \<longleftrightarrow> i < length ips \<and> joined (hosts_sync st i) \<and>
     listening (int (length ips)) (encountered (hosts_sync st i))"

fun apply_event :: "string list \<Rightarrow> sync_event \<Rightarrow> sync_state \<Rightarrow> sync_state option" where
  "apply_event ips (Join i) st =
     (if i < length ips then Some (upd_host i (\<lambda>h. h\<lparr>joined := True\<rparr>) st) else None)"
| "apply_event ips (SayHi i j) st =
     (if waits_for ips st i j then Some (st\<lparr>hi_wire := hi_wire st @ [(i, j)]\<rparr>) else None)"
| "apply_event ips (Hear i j sent) st =
     (if listens ips st i \<and> (j, i) \<in> set (hi_wire st)
      then Some (upd_host i (\<lambda>h. h\<lparr>encountered := listener_pass (Packet (ips ! j) sent) (encountered h)\<rparr>)
        (st\<lparr>ack_wire := (if sent then ack_wire st @ [(i, j)] else ack_wire st)\<rparr>))
      else None)"
| "apply_event ips (HearError i) st =
     (if listens ips st i
      then Some (upd_host i (\<lambda>h. h\<lparr>encountered := listener_pass RecvfromFailed (encountered h)\<rparr>) st)
      else None)"
| "apply_event ips (Poll i j a) st =
     (if waits_for ips st i j \<and> (a = Sent (Readable True) \<longrightarrow> (j, i) \<in> set (ack_wire st))
      then Some (if sender_pass a then upd_host i (\<lambda>h. h\<lparr>acked := acked h @ [j]\<rparr>) st else st)
      else None)"
| "apply_event ips (LoseHi i j) st = Some (st\<lparr>hi_wire := removeAll (i, j) (hi_wire st)\<rparr>)"
| "apply_event ips (LoseAck i j) st = Some (st\<lparr>ack_wire := removeAll (i, j) (ack_wire st)\<rparr>)"

inductive sync_step :: "string list \<Rightarrow> sync_state \<Rightarrow> sync_state \<Rightarrow> bool" for ips :: "string list" where
  sync_turn: "apply_event ips ev st = Some st' \<Longrightarrow> sync_step ips st st'"

inductive_cases sync_stepE: "sync_step ips st st'"

definition sync_start :: sync_state where
  "sync_start = \<lparr>hosts_sync = (\<lambda>i. \<lparr>joined = False, encountered = [], acked = []\<rparr>), hi_wire = [], ack_wire = []\<rparr>"

definition sync_reachable :: "string list \<Rightarrow> sync_state \<Rightarrow> bool" where
  "sync_reachable ips st \<longleftrightarrow> reach (\<lambda>s. s = sync_start) (sync_step ips) st"

text \<open>\<open>waittosync\<close> has joined all threads of host \<open>i\<close>.\<close>

definition ready :: "string list \<Rightarrow> sync_state \<Rightarrow> nat \<Rightarrow> bool" where
  "ready ips st i \<longleftrightarrow> joined (hosts_sync st i) \<and>
     \<not> listening (int (length ips)) (encountered (hosts_sync st i)) \<and>
     (\<forall>j < length ips. j \<noteq> i \<longrightarrow> j \<in> set (acked (hosts_sync st i)))"

fun sync_run :: "string list \<Rightarrow> sync_event list \<Rightarrow> sync_state \<Rightarrow> sync_state option" where
  "sync_run ips [] st = Some st"
| "sync_run ips (ev # evs) st =
     (case apply_event ips ev st of None \<Rightarrow> None | Some st' \<Rightarrow> sync_run ips evs st')"

lemma sync_run_reach:
  "reach start (sync_step ips) st \<Longrightarrow> sync_run ips evs st = Some st' \<Longrightarrow> reach start (sync_step ips) st'"
proof (induction evs arbitrary: st)
  case (Cons ev evs)
  then obtain st1 where ev: "apply_event ips ev st = Some st1" "sync_run ips evs st1 = Some st'"
    by (auto split: option.splits)
  have "reach start (sync_step ips) st1"
    using Cons.prems(1) sync_turn [OF ev(1)] by (rule reach_step)
  then show ?case using ev(2) by (rule Cons.IH)
qed simp

lemma sync_run_reachable: "sync_run ips evs sync_start = Some st \<Longrightarrow> sync_reachable ips st"
  unfolding sync_reachable_def by (rule sync_run_reach [OF reach_start [of "\<lambda>s. s = sync_start", OF refl]])

section \<open>The invariant\<close>





text \<open>The facts a later state keeps.\<close>

lemma upd_host_sel [simp]:
  "hosts_sync (upd_host i f st) k = (if k = i then f (hosts_sync st i) else hosts_sync st k)"
  "hi_wire (upd_host i f st) = hi_wire st" "ack_wire (upd_host i f st) = ack_wire st"
  by (simp_all add: upd_host_def)

definition grows :: "sync_state \<Rightarrow> sync_state \<Rightarrow> bool" where
  "grows st st' \<longleftrightarrow> (\<forall>i. (joined (hosts_sync st i) \<longrightarrow> joined (hosts_sync st' i)) \<and>
     set (encountered (hosts_sync st i)) \<subseteq> set (encountered (hosts_sync st' i)) \<and>
     length (encountered (hosts_sync st i)) \<le> length (encountered (hosts_sync st' i)))"

lemma listener_pass_grows:
  "set ips \<subseteq> set (listener_pass a ips)" "length ips \<le> length (listener_pass a ips)"
  by (cases a; auto)+

lemma apply_event_grows: "apply_event ips ev st = Some st' \<Longrightarrow> grows st st'"
  by (cases ev)
    (auto simp: grows_def listener_pass_grows split: if_splits
      intro: listener_pass_grows(1) [THEN subsetD] simp del: listener_pass.simps)






section \<open>What READY means\<close>



definition two_ips :: "string list" where "two_ips = [''10.0.0.1'', ''10.0.0.2'']"

text \<open>Host 0 gets ready; the answer of its listener to host 1 is lost.\<close>

definition lost_ack_run :: "sync_event list" where
  "lost_ack_run =
     [Join 0, Join 1, SayHi 0 1, Hear 1 0 True, Poll 0 1 (Sent (Readable True)),
      SayHi 1 0, Hear 0 1 True, LoseAck 0 1]"

lemma lost_ack_state:
  obtains st where "sync_run two_ips lost_ack_run sync_start = Some st"
    "hosts_sync st 0 = \<lparr>joined = True, encountered = [''10.0.0.2''], acked = [1]\<rparr>"
    "hosts_sync st 1 = \<lparr>joined = True, encountered = [''10.0.0.1''], acked = []\<rparr>"
    "ack_wire st = [(1, 0)]"
proof -
  let ?st = "the (sync_run two_ips lost_ack_run sync_start)"
  have r: "sync_run two_ips lost_ack_run sync_start \<noteq> None" by code_simp
  show thesis
    by (rule that [of ?st]) (use r in force, code_simp, code_simp, code_simp)
qed


section \<open>Where it gets stuck\<close>

text \<open>
  The listener of \<open>i\<close> has stopped, no answer of it to \<open>j\<close> is on its way, and \<open>j\<close> still waits for one.
\<close>

definition stuck :: "string list \<Rightarrow> nat \<Rightarrow> nat \<Rightarrow> sync_state \<Rightarrow> bool" where
  "stuck ips i j st \<longleftrightarrow> \<not> listening (int (length ips)) (encountered (hosts_sync st i)) \<and>
     (i, j) \<notin> set (ack_wire st) \<and> i \<notin> set (acked (hosts_sync st j))"

lemma stuck_event:
  assumes "stuck ips i j st" "apply_event ips ev st = Some st'"
  shows "stuck ips i j st'"
proof -
  have "\<not> listening (int (length ips)) (encountered (hosts_sync st' i))"
    using assms(1) apply_event_grows [OF assms(2)] unfolding stuck_def listening_def grows_def
    by (meson le_less_trans of_nat_le_iff)
  moreover have "(i, j) \<notin> set (ack_wire st')"
    using assms by (cases ev) (auto simp: stuck_def listens_def split: if_splits)
  moreover have "i \<notin> set (acked (hosts_sync st' j))"
    using assms by (cases ev) (auto simp: stuck_def split: if_splits elim!: sender_pass.elims)
  ultimately show ?thesis by (simp add: stuck_def)
qed

interpretation stays_stuck: invariant "stuck ips i j" "sync_step ips" "stuck ips i j" for ips i j
  by unfold_locales (auto elim!: sync_stepE intro: stuck_event)

text \<open>
  C25. A lost answer is fatal: once the listener of host \<open>i\<close> has ended, because it has answered every host
  once, nobody answers any more, and a host whose answer got lost never becomes ready, whatever
  happens afterwards.
\<close>

theorem lost_ack_blocks_for_ever:
  assumes "stuck ips i j st" "i < length ips" "i \<noteq> j" "reach (\<lambda>s. s = st) (sync_step ips) st'"
  shows "\<not> ready ips st' j"
proof -
  from assms(4,1) have "reach (stuck ips i j) (sync_step ips) st'"
    by (induction rule: reach.induct) (auto intro: reach.intros)
  then have "stuck ips i j st'" by (rule stays_stuck.always)
  with assms(2,3) show ?thesis by (auto simp: stuck_def ready_def)
qed

theorem lost_ack_blocks_for_ever_witness:
  "\<exists>st. sync_reachable two_ips st \<and> ready two_ips st 0 \<and>
     (\<forall>evs. \<not> (\<exists>st'. sync_run two_ips evs st = Some st' \<and> ready two_ips st' 1))"
proof -
  obtain st where st: "sync_run two_ips lost_ack_run sync_start = Some st"
    "hosts_sync st 0 = \<lparr>joined = True, encountered = [''10.0.0.2''], acked = [1]\<rparr>"
    "hosts_sync st 1 = \<lparr>joined = True, encountered = [''10.0.0.1''], acked = []\<rparr>" "ack_wire st = [(1, 0)]"
    by (rule lost_ack_state)
  have "sync_reachable two_ips st" using st(1) by (rule sync_run_reachable)
  moreover have "ready two_ips st 0" by (auto simp: ready_def st(2) listening_def two_ips_def less_Suc_eq)
  moreover have s: "stuck two_ips 0 1 st"
    unfolding stuck_def st(2,3,4) by (simp add: listening_def two_ips_def)
  have "\<not> ready two_ips st' 1" if "sync_run two_ips evs st = Some st'" for evs st'
    by (rule lost_ack_blocks_for_ever [OF s _ _ sync_run_reach [OF reach_start that]])
      (simp_all add: two_ips_def)
  ultimately show ?thesis by blast
qed

text \<open>
  READY is no agreement: with three hosts, one may be ready and go on while the other two have not
  heard of each other.
\<close>

definition three_ips :: "string list" where "three_ips = [''10.0.0.1'', ''10.0.0.2'', ''10.0.0.3'']"

definition early_run :: "sync_event list" where
  "early_run =
     [Join 0, Join 1, Join 2, SayHi 0 1, SayHi 0 2, Hear 1 0 True, Hear 2 0 True,
      Poll 0 1 (Sent (Readable True)), Poll 0 2 (Sent (Readable True)),
      SayHi 1 0, SayHi 2 0, Hear 0 1 True, Hear 0 2 True]"

lemma ready_before_others:
  "\<exists>st. sync_reachable three_ips st \<and> ready three_ips st 0 \<and>
     three_ips ! 1 \<notin> set (encountered (hosts_sync st 2)) \<and> three_ips ! 2 \<notin> set (encountered (hosts_sync st 1))"
proof -
  let ?st = "the (sync_run three_ips early_run sync_start)"
  have "sync_run three_ips early_run sync_start \<noteq> None" by code_simp
  then have "sync_reachable three_ips ?st" by (intro sync_run_reachable) force
  moreover have h: "hosts_sync ?st 0 = \<lparr>joined = True, encountered = [''10.0.0.2'', ''10.0.0.3''], acked = [1, 2]\<rparr>"
    "hosts_sync ?st 1 = \<lparr>joined = True, encountered = [''10.0.0.1''], acked = []\<rparr>"
    "hosts_sync ?st 2 = \<lparr>joined = True, encountered = [''10.0.0.1''], acked = []\<rparr>" by code_simp+
  have "ready three_ips ?st 0"
    unfolding ready_def h by (auto simp: listening_def three_ips_def less_Suc_eq numeral_3_eq_3)
  moreover have "three_ips ! 1 \<notin> set (encountered (hosts_sync ?st 2))"
    "three_ips ! 2 \<notin> set (encountered (hosts_sync ?st 1))"
    unfolding h by (simp_all add: three_ips_def)
  ultimately show ?thesis by blast
qed

end
