(* ===== verification/GroupInv.thy ===== *)
theory GroupInv
  imports Group
begin

text \<open>
  The invariant of the group. \<open>local_inv\<close> ties the fields of one process to each other, including
  what it has put on the network and what its watchdogs carry; \<open>cross\<close> relates what one process
  holds about another to that other's state. \<open>sound_view\<close> is the conjunction over all processes. The
  lemmas here show that the building blocks of the handlers keep it.
\<close>

section \<open>Hosts\<close>

definition hid :: "string list \<Rightarrow> nat \<Rightarrow> int" where
  "hid H j = extract_int_from_string (H ! j)"

definition hidw :: "string list \<Rightarrow> nat \<Rightarrow> u32" where
  "hidw H j = to_u32 (hid H j)"

definition hosts_ok :: "string list \<Rightarrow> bool" where
  "hosts_ok H \<longleftrightarrow> distinct (map extract_int_from_string H)"

lemma hid_range [simp]: "hid H j \<in> int_range"
  by (simp add: hid_def)

lemma to_int_hidw [simp]: "to_int (hidw H j) = hid H j"
  by (simp add: hidw_def)

lemma hid_inject: "hosts_ok H \<Longrightarrow> i < length H \<Longrightarrow> j < length H \<Longrightarrow> hid H i = hid H j \<longleftrightarrow> i = j"
  by (simp add: hosts_ok_def hid_def distinct_conv_nth) metis

lemma hidw_inject: "hosts_ok H \<Longrightarrow> i < length H \<Longrightarrow> j < length H \<Longrightarrow> hidw H i = hidw H j \<longleftrightarrow> i = j"
  by (metis hid_inject to_int_hidw)

lemma host_name_inject: "hosts_ok H \<Longrightarrow> i < length H \<Longrightarrow> j < length H \<Longrightarrow> H ! i = H ! j \<longleftrightarrow> i = j"
  by (metis hid_def hid_inject)

definition host_ids :: "string list \<Rightarrow> int set" where
  "host_ids H = hid H ` {..<length H}"

lemma card_host_ids: "hosts_ok H \<Longrightarrow> card (host_ids H) = length H"
  by (simp add: host_ids_def card_image inj_on_def hid_inject)

lemma finite_host_ids [simp]: "finite (host_ids H)"
  by (simp add: host_ids_def)

lemma host_ids_set: "host_ids H = extract_int_from_string ` set H"
  by (force simp: host_ids_def hid_def in_set_conv_nth)

section \<open>The invariant of one process\<close>

definition ack_uid :: "AckMessage \<Rightarrow> u32 \<times> u32" where
  "ack_uid a = (am_sender a, am_msg_id a)"

definition seq_uid :: "SeqMessage \<Rightarrow> u32 \<times> u32" where
  "seq_uid sm = (sm_sender sm, sm_msg_id sm)"

definition held :: "rm \<Rightarrow> QueuedMessage list" where
  "held s = deliveredMessage s @ deliveryQueue s"

definition static_inv :: "string list \<Rightarrow> nat \<Rightarrow> rm \<Rightarrow> bool" where
  "static_inv H i s \<longleftrightarrow>
     hostNames s = H \<and> num_hosts s = int (length H) \<and> current_container_name s = H ! i \<and>
     current_container_id s = hid H i \<and> map_ok (hostIDtoHostName s) \<and>
     (\<forall>j < length H. map_of (hostIDtoHostName s) (hid H j) = Some (H ! j)) \<and>
     length (msg_buf s) = MAX_STRUCT_SIZE"

definition counter_inv :: "rm \<Rightarrow> bool" where
  "counter_inv s \<longleftrightarrow> 0 \<le> curr_msg_id s \<and> curr_msg_id s \<le> INT_MAX \<and>
     0 \<le> curr_seq_number s \<and> curr_seq_number s \<le> INT_MAX"

definition own_ids :: "string list \<Rightarrow> nat \<Rightarrow> rm \<Rightarrow> (u32 \<times> u32) set" where
  "own_ids H i s = (\<lambda>k. (hidw H i, to_u32 k)) ` {0..<curr_msg_id s}"

definition queue_inv :: "string list \<Rightarrow> nat \<Rightarrow> rm \<Rightarrow> bool" where
  "queue_inv H i s \<longleftrightarrow>
     is_heap cmp (deliveryQueue s) \<and> distinct (map uid (held s)) \<and>
     uid ` set (held s) = own_ids H i s \<union> ack_uid ` set (alreadyAckedMessages s) \<and>
     (\<forall>m \<in> set (deliveredMessage s). qm_status m = DELIVERABLE)"

definition acked_inv :: "string list \<Rightarrow> nat \<Rightarrow> rm \<Rightarrow> bool" where
  "acked_inv H i s \<longleftrightarrow>
     distinct (map ack_uid (alreadyAckedMessages s)) \<and>
     (\<forall>a \<in> set (alreadyAckedMessages s). am_type a = ACKMSG_TYPE \<and> am_proposer a = hidw H i \<and>
        (\<exists>j < length H. j \<noteq> i \<and> am_sender a = hidw H j))"

definition ack_history_inv :: "string list \<Rightarrow> nat \<Rightarrow> rm \<Rightarrow> bool" where
  "ack_history_inv H i s \<longleftrightarrow>
     map_ok (ackHistory s) \<and> dom (map_of (ackHistory s)) = {0..<curr_msg_id s} \<and>
     (\<forall>k pm. map_of (ackHistory s) k = Some pm \<longrightarrow>
        map_ok pm \<and> hid H i \<in> dom (map_of pm) \<and> dom (map_of pm) \<subseteq> host_ids H \<and>
        ran (map_of pm) \<subseteq> int_range)"

text \<open>A sequence message of this process's own: the maximum of a complete acknowledgement history.\<close>

definition final_of :: "string list \<Rightarrow> nat \<Rightarrow> rm \<Rightarrow> SeqMessage \<Rightarrow> bool" where
  "final_of H i s sm \<longleftrightarrow>
     (\<exists>k pm. 0 \<le> k \<and> k < curr_msg_id s \<and> sm_msg_id sm = to_u32 k \<and>
        map_of (ackHistory s) k = Some pm \<and> length pm = length H \<and>
        get_max_sequence_from_proposerseq_map pm = (sm_final_seq sm, sm_final_seq_proposer sm))"

definition seq_inv :: "string list \<Rightarrow> nat \<Rightarrow> rm \<Rightarrow> bool" where
  "seq_inv H i s \<longleftrightarrow>
     (\<forall>sm \<in> set (seqMessageHistory s). sm_type sm = SEQMSG_TYPE \<and>
        (\<exists>j < length H. sm_sender sm = hidw H j) \<and>
        (sm_sender sm = hidw H i \<longrightarrow> final_of H i s sm)) \<and>
     (\<forall>k pm. map_of (ackHistory s) k = Some pm \<and> length pm = length H \<and> 1 < length H \<longrightarrow>
        (\<exists>sm \<in> set (seqMessageHistory s). seq_uid sm = (hidw H i, to_u32 k)))"

definition data_inv :: "string list \<Rightarrow> nat \<Rightarrow> rm \<Rightarrow> bool" where
  "data_inv H i s \<longleftrightarrow>
     map_ok (dataHistory s) \<and> dom (map_of (dataHistory s)) = {0..<curr_msg_id s} \<and>
     (\<forall>m \<in> set (held s). qm_sender m = hidw H i \<longrightarrow>
        map_of (dataHistory s) (to_int (qm_msg_id m)) = Some (to_int (qm_data m)))"

text \<open>
  The numbers of a message: final ones that a known sequence message announces, or the ones this
  process itself has proposed.
\<close>

definition own_proposal :: "string list \<Rightarrow> nat \<Rightarrow> rm \<Rightarrow> QueuedMessage \<Rightarrow> bool" where
  "own_proposal H i s m \<longleftrightarrow>
     qm_proposer m = hidw H i \<and>
     (if qm_sender m = hidw H i
      then \<exists>pm v. map_of (ackHistory s) (to_int (qm_msg_id m)) = Some pm \<and>
             map_of pm (hid H i) = Some v \<and> qm_sequence_number m = to_u32 v
      else \<exists>a \<in> set (alreadyAckedMessages s). ack_uid a = uid m \<and>
             am_proposed_seq a = qm_sequence_number m)"

definition announced :: "rm \<Rightarrow> QueuedMessage \<Rightarrow> bool" where
  "announced s m \<longleftrightarrow>
     (\<exists>sm \<in> set (seqMessageHistory s). seq_uid sm = uid m \<and>
        sm_final_seq sm = qm_sequence_number m \<and> sm_final_seq_proposer sm = qm_proposer m)"

definition entry_inv :: "string list \<Rightarrow> nat \<Rightarrow> rm \<Rightarrow> bool" where
  "entry_inv H i s \<longleftrightarrow>
     (\<forall>m \<in> set (held s). qm_status m = DELIVERABLE \<and> announced s m \<or>
        qm_status m = UNDELIVERABLE \<and> own_proposal H i s m)"

text \<open>What a process may send: data of its own, its acknowledgements, its own final numbers.\<close>

definition own_data :: "string list \<Rightarrow> nat \<Rightarrow> rm \<Rightarrow> DataMessage \<Rightarrow> bool" where
  "own_data H i s dm \<longleftrightarrow> dm_type dm = DATAMSG_TYPE \<and> dm_sender dm = hidw H i \<and>
     (\<exists>k. 0 \<le> k \<and> k < curr_msg_id s \<and> dm_msg_id dm = to_u32 k \<and>
        map_of (dataHistory s) k = Some (to_int (dm_data dm)))"

definition payload_ok :: "string list \<Rightarrow> nat \<Rightarrow> rm \<Rightarrow> string \<Rightarrow> u8 list \<Rightarrow> bool" where
  "payload_ok H i s dst bytes \<longleftrightarrow> (\<exists>junk. length junk = MAX_STRUCT_SIZE \<and>
     ((\<exists>dm. own_data H i s dm \<and> bytes = serialize_data_message dm junk \<and> dst \<noteq> H ! i) \<or>
      (\<exists>a j. a \<in> set (alreadyAckedMessages s) \<and> j < length H \<and> am_sender a = hidw H j \<and>
          dst = H ! j \<and> bytes = serialize_ack_message a junk) \<or>
      (\<exists>sm. sm \<in> set (seqMessageHistory s) \<and> sm_sender sm = hidw H i \<and> dst \<noteq> H ! i \<and>
          bytes = serialize_seq_message sm junk)))"

definition outbox_inv :: "string list \<Rightarrow> nat \<Rightarrow> rm \<Rightarrow> bool" where
  "outbox_inv H i s \<longleftrightarrow>
     (\<forall>p \<in> set (outbox s). p_src p = H ! i \<and> payload_ok H i s (p_dst p) (p_payload p))"

fun watchdog_ok :: "string list \<Rightarrow> nat \<Rightarrow> rm \<Rightarrow> watchdog \<Rightarrow> bool" where
  "watchdog_ok H i s (DataWatchdog dm h n) \<longleftrightarrow> own_data H i s dm \<and> h \<noteq> H ! i \<and> h \<in> set H"
| "watchdog_ok H i s (AckWatchdog a h n) \<longleftrightarrow>
     a \<in> set (alreadyAckedMessages s) \<and> (\<exists>j < length H. h = H ! j \<and> am_sender a = hidw H j)"

definition watchdog_inv :: "string list \<Rightarrow> nat \<Rightarrow> rm \<Rightarrow> bool" where
  "watchdog_inv H i s \<longleftrightarrow> (\<forall>w \<in> set (watchdogs s). watchdog_ok H i s w)"

definition local_inv :: "string list \<Rightarrow> nat \<Rightarrow> rm \<Rightarrow> bool" where
  "local_inv H i s \<longleftrightarrow>
     static_inv H i s \<and> counter_inv s \<and> queue_inv H i s \<and> acked_inv H i s \<and>
     ack_history_inv H i s \<and> seq_inv H i s \<and> data_inv H i s \<and> entry_inv H i s \<and>
     outbox_inv H i s \<and> watchdog_inv H i s"

section \<open>What one process holds about another\<close>

text \<open>Process \<open>j\<close> in state \<open>t\<close> about process \<open>i\<close> in state \<open>s\<close>.\<close>

definition cross :: "string list \<Rightarrow> nat \<Rightarrow> rm \<Rightarrow> nat \<Rightarrow> rm \<Rightarrow> bool" where
  "cross H j t i s \<longleftrightarrow>
     (\<forall>a \<in> set (alreadyAckedMessages t). am_sender a = hidw H i \<longrightarrow>
        (\<exists>k. 0 \<le> k \<and> k < curr_msg_id s \<and> am_msg_id a = to_u32 k)) \<and>
     (\<forall>m \<in> set (held t). qm_sender m = hidw H i \<longrightarrow>
        map_of (dataHistory s) (to_int (qm_msg_id m)) = Some (to_int (qm_data m))) \<and>
     (\<forall>sm \<in> set (seqMessageHistory t). sm_sender sm = hidw H i \<longrightarrow> sm \<in> set (seqMessageHistory s)) \<and>
     (\<forall>k pm v. map_of (ackHistory t) k = Some pm \<and> map_of pm (hid H i) = Some v \<longrightarrow>
        (\<exists>a \<in> set (alreadyAckedMessages s). ack_uid a = (hidw H j, to_u32 k) \<and>
           to_int (am_proposed_seq a) = v))"

definition sound_view :: "string list \<Rightarrow> (nat \<Rightarrow> rm) \<Rightarrow> bool" where
  "sound_view H st \<longleftrightarrow> hosts_ok H \<and> (\<forall>i < length H. local_inv H i (st i)) \<and>
     (\<forall>j < length H. \<forall>i < length H. j \<noteq> i \<longrightarrow> cross H j (st j) i (st i))"

text \<open>The state of a process only grows in what others may rely on.\<close>

definition grows :: "rm \<Rightarrow> rm \<Rightarrow> bool" where
  "grows s s' \<longleftrightarrow>
     curr_msg_id s \<le> curr_msg_id s' \<and> map_of (dataHistory s) \<subseteq>\<^sub>m map_of (dataHistory s') \<and>
     set (alreadyAckedMessages s) \<subseteq> set (alreadyAckedMessages s') \<and>
     set (seqMessageHistory s) \<subseteq> set (seqMessageHistory s')"

lemma growsD:
  assumes "grows s s'"
  shows "curr_msg_id s \<le> curr_msg_id s'"
    and "map_of (dataHistory s) k = Some d \<Longrightarrow> map_of (dataHistory s') k = Some d"
    and "a \<in> set (alreadyAckedMessages s) \<Longrightarrow> a \<in> set (alreadyAckedMessages s')"
    and "sm \<in> set (seqMessageHistory s) \<Longrightarrow> sm \<in> set (seqMessageHistory s')"
  using assms by (auto simp: grows_def map_le_def dom_def)

lemma crossD:
  assumes "cross H j t i s"
  shows "a \<in> set (alreadyAckedMessages t) \<Longrightarrow> am_sender a = hidw H i \<Longrightarrow>
      \<exists>k. 0 \<le> k \<and> k < curr_msg_id s \<and> am_msg_id a = to_u32 k"
    and "m \<in> set (held t) \<Longrightarrow> qm_sender m = hidw H i \<Longrightarrow>
      map_of (dataHistory s) (to_int (qm_msg_id m)) = Some (to_int (qm_data m))"
    and "sm \<in> set (seqMessageHistory t) \<Longrightarrow> sm_sender sm = hidw H i \<Longrightarrow>
      sm \<in> set (seqMessageHistory s)"
    and "map_of (ackHistory t) k = Some pm \<Longrightarrow> map_of pm (hid H i) = Some v \<Longrightarrow>
      \<exists>a \<in> set (alreadyAckedMessages s). ack_uid a = (hidw H j, to_u32 k) \<and>
        to_int (am_proposed_seq a) = v"
  using assms by (simp_all add: cross_def)

lemma crossI:
  assumes "\<And>a. a \<in> set (alreadyAckedMessages t) \<Longrightarrow> am_sender a = hidw H i \<Longrightarrow>
      \<exists>k. 0 \<le> k \<and> k < curr_msg_id s \<and> am_msg_id a = to_u32 k"
    and "\<And>m. m \<in> set (held t) \<Longrightarrow> qm_sender m = hidw H i \<Longrightarrow>
      map_of (dataHistory s) (to_int (qm_msg_id m)) = Some (to_int (qm_data m))"
    and "\<And>sm. sm \<in> set (seqMessageHistory t) \<Longrightarrow> sm_sender sm = hidw H i \<Longrightarrow>
      sm \<in> set (seqMessageHistory s)"
    and "\<And>k pm v. map_of (ackHistory t) k = Some pm \<Longrightarrow> map_of pm (hid H i) = Some v \<Longrightarrow>
      \<exists>a \<in> set (alreadyAckedMessages s). ack_uid a = (hidw H j, to_u32 k) \<and>
        to_int (am_proposed_seq a) = v"
  shows "cross H j t i s"
  using assms by (simp add: cross_def)

lemma cross_grows:
  assumes c: "cross H j t i s" and g: "grows s s'"
  shows "cross H j t i s'"
proof (rule crossI)
  fix a assume "a \<in> set (alreadyAckedMessages t)" "am_sender a = hidw H i"
  then obtain k where "0 \<le> k" "k < curr_msg_id s" "am_msg_id a = to_u32 k"
    using crossD(1) [OF c] by blast
  then show "\<exists>k. 0 \<le> k \<and> k < curr_msg_id s' \<and> am_msg_id a = to_u32 k"
    using growsD(1) [OF g] by (intro exI [of _ k]) simp
next
  fix k pm v assume "map_of (ackHistory t) k = Some pm" "map_of pm (hid H i) = Some v"
  then show "\<exists>a \<in> set (alreadyAckedMessages s'). ack_uid a = (hidw H j, to_u32 k) \<and>
      to_int (am_proposed_seq a) = v"
    using crossD(4) [OF c] growsD(3) [OF g] by blast
qed (use crossD(2,3) [OF c] growsD(2,4) [OF g] in auto)

lemma sound_viewD:
  assumes "sound_view H (st(i := s))" "i < length H"
  shows "hosts_ok H" "local_inv H i s"
    and "\<And>j. j < length H \<Longrightarrow> j \<noteq> i \<Longrightarrow> cross H i s j (st j)"
    and "\<And>j. j < length H \<Longrightarrow> j \<noteq> i \<Longrightarrow> cross H j (st j) i s"
    and "\<And>j. j < length H \<Longrightarrow> j \<noteq> i \<Longrightarrow> local_inv H j (st j)"
proof -
  show "hosts_ok H" "local_inv H i s" using assms by (auto simp: sound_view_def)
  show "cross H i s j (st j)" "cross H j (st j) i s" "local_inv H j (st j)"
    if "j < length H" "j \<noteq> i" for j
    using assms that unfolding sound_view_def by (metis fun_upd_apply)+
qed

lemma sound_view_step:
  assumes v: "sound_view H (st(i := s))" and i: "i < length H" and l: "local_inv H i s'"
    and g: "grows s s'" and c: "\<And>j. j < length H \<Longrightarrow> j \<noteq> i \<Longrightarrow> cross H i s' j (st j)"
  shows "sound_view H (st(i := s'))"
  unfolding sound_view_def
proof (intro conjI allI impI)
  show "hosts_ok H" using v i by (rule sound_viewD)
  fix j assume j: "j < length H"
  then show "local_inv H j ((st(i := s')) j)"
    using l sound_viewD(5) [OF v i] by simp
  fix k assume k: "k < length H" "j \<noteq> k"
  consider "j = i" | "k = i" | "j \<noteq> i" "k \<noteq> i" by blast
  then show "cross H j ((st(i := s')) j) k ((st(i := s')) k)"
  proof cases
    case 1
    with c k show ?thesis by simp
  next
    case 2
    with j k sound_viewD(4) [OF v i j] cross_grows g show ?thesis by auto
  next
    case 3
    have "cross H j ((st(i := s)) j) k ((st(i := s)) k)"
      using v j k by (simp add: sound_view_def)
    with 3 show ?thesis by simp
  qed
qed

end
