(* ===== verification/GroupUnits.thy ===== *)
theory GroupUnits
  imports GroupInv
begin

text \<open>
  State changes that keep \<open>sound_view\<close> because no part of the invariant but a counter, a buffer or
  the outbox sees them: bookkeeping and sending.
\<close>

section \<open>Growth\<close>

lemma grows_refl [simp]: "grows s s"
  by (simp add: grows_def)

lemma own_data_grows: "own_data H i s dm \<Longrightarrow> grows s s' \<Longrightarrow> own_data H i s' dm"
  unfolding own_data_def using growsD(1,2) [of s s'] by fastforce

lemma payload_ok_grows: "payload_ok H i s dst b \<Longrightarrow> grows s s' \<Longrightarrow> payload_ok H i s' dst b"
  unfolding payload_ok_def using own_data_grows [of H i s _ s'] growsD(3,4) [of s s'] by blast

lemma watchdog_ok_grows: "watchdog_ok H i s w \<Longrightarrow> grows s s' \<Longrightarrow> watchdog_ok H i s' w"
  using own_data_grows [of H i s _ s'] growsD(3) [of s s'] by (cases w) auto

lemma outbox_inv_grows: "outbox_inv H i s \<Longrightarrow> grows s s' \<Longrightarrow> outbox s' = outbox s \<Longrightarrow> outbox_inv H i s'"
  using payload_ok_grows by (auto simp: outbox_inv_def)

lemma watchdog_inv_grows:
  "watchdog_inv H i s \<Longrightarrow> grows s s' \<Longrightarrow> watchdogs s' = watchdogs s \<Longrightarrow> watchdog_inv H i s'"
  using watchdog_ok_grows by (auto simp: watchdog_inv_def)

lemma local_invD:
  assumes "local_inv H i s"
  shows "static_inv H i s" "counter_inv s" "queue_inv H i s" "acked_inv H i s"
    "ack_history_inv H i s" "seq_inv H i s" "data_inv H i s" "entry_inv H i s"
    "outbox_inv H i s" "watchdog_inv H i s"
  using assms by (simp_all add: local_inv_def)

lemma local_invI [wf_intros]:
  "\<lbrakk>static_inv H i s; counter_inv s; queue_inv H i s; acked_inv H i s; ack_history_inv H i s;
    seq_inv H i s; data_inv H i s; entry_inv H i s; outbox_inv H i s; watchdog_inv H i s\<rbrakk>
   \<Longrightarrow> local_inv H i s"
  by (simp add: local_inv_def)

section \<open>Bookkeeping\<close>

text \<open>The fields the invariant speaks about, apart from counters, buffers, outbox and threads.\<close>

definition same_core :: "rm \<Rightarrow> rm \<Rightarrow> bool" where
  "same_core s s' \<longleftrightarrow>
     hostNames s' = hostNames s \<and> num_hosts s' = num_hosts s \<and>
     current_container_name s' = current_container_name s \<and>
     current_container_id s' = current_container_id s \<and>
     curr_msg_id s' = curr_msg_id s \<and> deliveryQueue s' = deliveryQueue s \<and>
     deliveredMessage s' = deliveredMessage s \<and>
     alreadyAckedMessages s' = alreadyAckedMessages s \<and>
     seqMessageHistory s' = seqMessageHistory s \<and> ackHistory s' = ackHistory s \<and>
     dataHistory s' = dataHistory s"

lemma same_core_grows: "same_core s s' \<Longrightarrow> grows s s'"
  by (simp add: same_core_def grows_def)

lemma same_core_held: "same_core s s' \<Longrightarrow> held s' = held s"
  by (simp add: same_core_def held_def)

lemma same_core_final_of: "same_core s s' \<Longrightarrow> final_of H i s' sm = final_of H i s sm"
  by (simp add: same_core_def final_of_def)

lemma same_core_announced: "same_core s s' \<Longrightarrow> announced s' m = announced s m"
  by (simp add: same_core_def announced_def)

lemma same_core_own_proposal: "same_core s s' \<Longrightarrow> own_proposal H i s' m = own_proposal H i s m"
  by (simp add: same_core_def own_proposal_def)

lemma same_core_cross: "same_core s s' \<Longrightarrow> cross H i s' j t = cross H i s j t"
  unfolding cross_def by (simp add: same_core_held) (simp add: same_core_def)

lemma same_core_invs:
  assumes "same_core s s'"
  shows "queue_inv H i s \<Longrightarrow> queue_inv H i s'" "acked_inv H i s \<Longrightarrow> acked_inv H i s'"
    "ack_history_inv H i s \<Longrightarrow> ack_history_inv H i s'" "seq_inv H i s \<Longrightarrow> seq_inv H i s'"
    "data_inv H i s \<Longrightarrow> data_inv H i s'" "entry_inv H i s \<Longrightarrow> entry_inv H i s'"
  using assms same_core_held [OF assms] same_core_final_of [OF assms]
    same_core_announced [OF assms] same_core_own_proposal [OF assms]
  by (simp_all add: same_core_def queue_inv_def own_ids_def acked_inv_def ack_history_inv_def
      seq_inv_def data_inv_def entry_inv_def)

lemma sound_same_core:
  assumes v: "sound_view H (st(i := s))" and i: "i < length H" and c: "same_core s s'"
    and st: "static_inv H i s'" and cnt: "counter_inv s'"
    and out: "outbox_inv H i s'" and wd: "watchdog_inv H i s'"
  shows "sound_view H (st(i := s'))"
proof (rule sound_view_step [OF v i])
  note l = local_invD [OF sound_viewD(2) [OF v i]]
  show "local_inv H i s'"
    using same_core_invs [OF c] l st cnt out wd by (intro wf_intros) auto
  show "grows s s'" using c by (rule same_core_grows)
  show "cross H i s' j (st j)" if "j < length H" "j \<noteq> i" for j
    using sound_viewD(3) [OF v i that] same_core_cross [OF c] by simp
qed

text \<open>Fields that no part of the invariant mentions.\<close>

lemma sound_irrelevant:
  assumes v: "sound_view H (st(i := s))" and i: "i < length H" and c: "same_core s s'"
    and "hostIDtoHostName s' = hostIDtoHostName s" "curr_seq_number s' = curr_seq_number s"
    and "msg_buf s' = msg_buf s" "outbox s' = outbox s" "watchdogs s' = watchdogs s"
  shows "sound_view H (st(i := s'))"
proof (rule sound_same_core [OF v i c])
  note l = local_invD [OF sound_viewD(2) [OF v i]]
  show "static_inv H i s'" using l(1) assms(3-6) by (simp add: static_inv_def same_core_def)
  show "counter_inv s'" using l(2) assms(3-6) by (simp add: counter_inv_def same_core_def)
  show "outbox_inv H i s'" using l(9) same_core_grows [OF c] assms(7) by (rule outbox_inv_grows)
  show "watchdog_inv H i s'" using l(10) same_core_grows [OF c] assms(8) by (rule watchdog_inv_grows)
qed

section \<open>Sending\<close>

definition sends :: "rm \<Rightarrow> rm \<Rightarrow> packet list \<Rightarrow> bool" where
  "sends s s' ps \<longleftrightarrow> (\<exists>t sn. s' = s\<lparr>ticks := t, snapshot := sn, outbox := outbox s @ ps\<rparr>)"

lemma transmit_sends:
  assumes "transmit e dst pkt s = (rv, s')"
  shows "\<exists>ps. sends s s' ps \<and>
    set ps \<subseteq> {\<lparr>p_src = current_container_name s, p_dst = dst, p_payload = pkt\<rparr>}"
proof -
  let ?p = "\<lparr>p_src = current_container_name s, p_dst = dst, p_payload = pkt\<rparr>"
  have rec: "\<exists>sn. record_outbound pkt u = u\<lparr>snapshot := sn\<rparr>" for u
    by (simp add: record_outbound_def) (metis rm.surjective rm.update_convs(17))
  obtain sn where sn: "record_outbound pkt (s\<lparr>ticks := Suc (ticks s)\<rparr>)
      = s\<lparr>ticks := Suc (ticks s), snapshot := sn\<rparr>"
    using rec [of "s\<lparr>ticks := Suc (ticks s)\<rparr>"] by auto
  have "sends s s' [] \<or> sends s s' [?p]"
    using assms unfolding transmit_def Let_def sn sends_def
    by (auto split: if_splits) (metis rm.surjective rm.update_convs(17,22))+
  then show ?thesis by fastforce
qed

lemma sound_send:
  assumes v: "sound_view H (st(i := s))" and i: "i < length H" and sd: "sends s s' ps"
    and ok: "\<And>p. p \<in> set ps \<Longrightarrow> p_src p = H ! i \<and> payload_ok H i s (p_dst p) (p_payload p)"
  shows "sound_view H (st(i := s'))"
proof -
  note l = local_invD [OF sound_viewD(2) [OF v i]]
  obtain t sn where s': "s' = s\<lparr>ticks := t, snapshot := sn, outbox := outbox s @ ps\<rparr>"
    using sd by (auto simp: sends_def)
  then have c: "same_core s s'" by (simp add: same_core_def)
  show ?thesis
  proof (rule sound_same_core [OF v i c])
    show "static_inv H i s'" using l(1) s' by (simp add: static_inv_def)
    show "counter_inv s'" using l(2) s' by (simp add: counter_inv_def)
    have "payload_ok H i s' (p_dst p) (p_payload p)" if "payload_ok H i s (p_dst p) (p_payload p)" for p
      using that same_core_grows [OF c] by (rule payload_ok_grows)
    then show "outbox_inv H i s'" using l(9) ok s' by (auto simp: outbox_inv_def)
    have "watchdogs s' = watchdogs s" using s' by simp
    with l(10) same_core_grows [OF c] show "watchdog_inv H i s'" by (rule watchdog_inv_grows)
  qed
qed

lemma sound_transmit:
  assumes v: "sound_view H (st(i := s))" and i: "i < length H"
    and t: "transmit e dst pkt s = (rv, s')" and ok: "payload_ok H i s dst pkt"
  shows "sound_view H (st(i := s'))"
proof -
  obtain ps where ps: "sends s s' ps"
    "set ps \<subseteq> {\<lparr>p_src = current_container_name s, p_dst = dst, p_payload = pkt\<rparr>}"
    using transmit_sends [OF t] by blast
  have "current_container_name s = H ! i"
    using local_invD(1) [OF sound_viewD(2) [OF v i]] by (simp add: static_inv_def)
  with ps ok show ?thesis by (intro sound_send [OF v i ps(1)]) auto
qed

text \<open>A transmission leaves alone everything but the outbox, the snapshot buffer and the clock.\<close>

lemma sends_fields [frame]:
  assumes "sends s s' ps"
  shows "same_core s s'" "hostIDtoHostName s' = hostIDtoHostName s"
    "curr_seq_number s' = curr_seq_number s" "msg_buf s' = msg_buf s" "watchdogs s' = watchdogs s"
    "their_addr s' = their_addr s" "recv_cap s' = recv_cap s" "outbox s' = outbox s @ ps"
  using assms by (auto simp: sends_def same_core_def)

lemma transmit_fields:
  assumes "transmit e dst pkt s = (rv, s')"
  shows "same_core s s'" "hostIDtoHostName s' = hostIDtoHostName s"
    "curr_seq_number s' = curr_seq_number s" "msg_buf s' = msg_buf s" "watchdogs s' = watchdogs s"
    "their_addr s' = their_addr s" "recv_cap s' = recv_cap s"
  using transmit_sends [OF assms] by (auto dest: sends_fields)

end
