(* ===== verification/GroupQueue.thy ===== *)
theory GroupQueue
  imports GroupUnits
begin

text \<open>
  The state changes of the protocol proper, each shown to keep \<open>sound_view\<close>: queueing a received or
  an own message, recording an acknowledgement, giving a message its final number, delivering.
\<close>

section \<open>Queueing a received message\<close>

definition queue_received :: "DataMessage \<Rightarrow> rm \<Rightarrow> rm" where
  "queue_received dm s =
     (let c = to_u32 (curr_seq_number s); me = to_u32 (current_container_id s) in
      s\<lparr>deliveryQueue := push_msg_to_deliveryqueue
          (make_queued_msg c UNDELIVERABLE (dm_sender dm) (dm_msg_id dm) (dm_data dm) me) (deliveryQueue s),
        alreadyAckedMessages := alreadyAckedMessages s @ [make_ack_msg (dm_sender dm) (dm_msg_id dm) c me]\<rparr>)"

definition peer_data :: "string list \<Rightarrow> (nat \<Rightarrow> rm) \<Rightarrow> nat \<Rightarrow> nat \<Rightarrow> DataMessage \<Rightarrow> bool" where
  "peer_data H st i j dm \<longleftrightarrow> j < length H \<and> j \<noteq> i \<and> own_data H j (st j) dm"

lemma set_push_msg:
  "is_heap cmp q \<Longrightarrow> set (push_msg_to_deliveryqueue m q) = insert m (set q)"
  by (rule dq.set_push)

lemma distinct_uid_mset:
  "mset xs = mset ys \<Longrightarrow> distinct (map uid xs) \<longleftrightarrow> distinct (map uid ys)"
  by (metis mset_eq_imp_distinct_iff mset_map)

lemma distinct_held_push:
  assumes "is_heap cmp q"
  shows "distinct (map uid (d @ push_msg_to_deliveryqueue m q)) \<longleftrightarrow>
    distinct (map uid (d @ q)) \<and> uid m \<notin> uid ` set (d @ q)"
proof -
  have "mset (d @ push_msg_to_deliveryqueue m q) = mset (m # d @ q)"
    using dq.mset_push [OF assms] by simp
  then have "distinct (map uid (d @ push_msg_to_deliveryqueue m q)) = distinct (map uid (m # d @ q))"
    by (rule distinct_uid_mset)
  then show ?thesis by auto
qed

lemma own_uid_in_range:
  assumes "counter_inv s" "(w, mid) \<in> own_ids H i s"
  shows "w = hidw H i" "0 \<le> to_int mid" "to_int mid < curr_msg_id s"
  using assms by (auto simp: own_ids_def counter_inv_def int_range_def INT_MAX_def)

lemma msg_id_in_range:
  "counter_inv s \<Longrightarrow> 0 \<le> k \<Longrightarrow> k < curr_msg_id s \<Longrightarrow> k \<in> int_range"
  by (simp add: counter_inv_def int_range_def INT_MAX_def)

lemma queue_received_fields [simp]:
  "hostNames (queue_received dm s) = hostNames s" "num_hosts (queue_received dm s) = num_hosts s"
  "current_container_name (queue_received dm s) = current_container_name s"
  "msg_buf (queue_received dm s) = msg_buf s"
  "current_container_id (queue_received dm s) = current_container_id s"
  "hostIDtoHostName (queue_received dm s) = hostIDtoHostName s"
  "curr_msg_id (queue_received dm s) = curr_msg_id s"
  "curr_seq_number (queue_received dm s) = curr_seq_number s"
  "seqMessageHistory (queue_received dm s) = seqMessageHistory s"
  "ackHistory (queue_received dm s) = ackHistory s"
  "dataHistory (queue_received dm s) = dataHistory s"
  "deliveredMessage (queue_received dm s) = deliveredMessage s"
  "outbox (queue_received dm s) = outbox s" "watchdogs (queue_received dm s) = watchdogs s"
  "their_addr (queue_received dm s) = their_addr s" "ticks (queue_received dm s) = ticks s"
  by (simp_all add: queue_received_def Let_def)

text \<open>The queued message and the acknowledgement of process \<open>i\<close>.\<close>

definition received_entry :: "string list \<Rightarrow> nat \<Rightarrow> DataMessage \<Rightarrow> rm \<Rightarrow> QueuedMessage" where
  "received_entry H i dm s = make_queued_msg (to_u32 (curr_seq_number s)) UNDELIVERABLE
     (dm_sender dm) (dm_msg_id dm) (dm_data dm) (hidw H i)"

definition received_ack :: "string list \<Rightarrow> nat \<Rightarrow> DataMessage \<Rightarrow> rm \<Rightarrow> AckMessage" where
  "received_ack H i dm s =
     make_ack_msg (dm_sender dm) (dm_msg_id dm) (to_u32 (curr_seq_number s)) (hidw H i)"

lemma received_entry_simps [simp]:
  "uid (received_entry H i dm s) = (dm_sender dm, dm_msg_id dm)"
  "qm_sender (received_entry H i dm s) = dm_sender dm"
  "qm_msg_id (received_entry H i dm s) = dm_msg_id dm"
  "qm_data (received_entry H i dm s) = dm_data dm"
  "qm_status (received_entry H i dm s) = UNDELIVERABLE"
  "qm_proposer (received_entry H i dm s) = hidw H i"
  "qm_sequence_number (received_entry H i dm s) = to_u32 (curr_seq_number s)"
  by (simp_all add: received_entry_def uid_def make_queued_msg_def)

lemma received_ack_simps [simp]:
  "ack_uid (received_ack H i dm s) = (dm_sender dm, dm_msg_id dm)"
  "am_type (received_ack H i dm s) = ACKMSG_TYPE"
  "am_sender (received_ack H i dm s) = dm_sender dm"
  "am_msg_id (received_ack H i dm s) = dm_msg_id dm"
  "am_proposer (received_ack H i dm s) = hidw H i"
  "am_proposed_seq (received_ack H i dm s) = to_u32 (curr_seq_number s)"
  by (simp_all add: received_ack_def ack_uid_def make_ack_msg_def)

lemma static_id: "static_inv H i s \<Longrightarrow> to_u32 (current_container_id s) = hidw H i"
  by (simp add: static_inv_def hidw_def)

lemma queue_received_changes:
  assumes "static_inv H i s"
  shows "deliveryQueue (queue_received dm s) =
      push_msg_to_deliveryqueue (received_entry H i dm s) (deliveryQueue s)"
    and "alreadyAckedMessages (queue_received dm s) =
      alreadyAckedMessages s @ [received_ack H i dm s]"
  by (simp_all add: queue_received_def Let_def static_id [OF assms] received_entry_def received_ack_def)

lemma queue_received_held:
  assumes "static_inv H i s" "is_heap cmp (deliveryQueue s)"
  shows "set (held (queue_received dm s)) = insert (received_entry H i dm s) (set (held s))"
  using set_push_msg [OF assms(2)] by (auto simp: held_def queue_received_changes [OF assms(1)])

lemma peer_dataD:
  assumes "sound_view H (st(i := s))" "i < length H" "peer_data H st i j dm"
  shows "dm_sender dm = hidw H j" "hidw H j \<noteq> hidw H i"
    and "\<exists>k. 0 \<le> k \<and> k < curr_msg_id (st j) \<and> dm_msg_id dm = to_u32 k"
    and "map_of (dataHistory (st j)) (to_int (dm_msg_id dm)) = Some (to_int (dm_data dm))"
proof -
  from assms(3) have j: "j < length H" "j \<noteq> i" and dm: "own_data H j (st j) dm"
    by (auto simp: peer_data_def)
  from dm obtain k where k: "0 \<le> k" "k < curr_msg_id (st j)" "dm_msg_id dm = to_u32 k"
    "map_of (dataHistory (st j)) k = Some (to_int (dm_data dm))" by (auto simp: own_data_def)
  then show "\<exists>k. 0 \<le> k \<and> k < curr_msg_id (st j) \<and> dm_msg_id dm = to_u32 k" by blast
  have "counter_inv (st j)" using sound_viewD(5) [OF assms(1,2) j] by (rule local_invD)
  with k have "k \<in> int_range" by (intro msg_id_in_range)
  with k show "map_of (dataHistory (st j)) (to_int (dm_msg_id dm)) = Some (to_int (dm_data dm))"
    by simp
  show "dm_sender dm = hidw H j" using dm by (simp add: own_data_def)
  show "hidw H j \<noteq> hidw H i" using sound_viewD(1) [OF assms(1,2)] assms(2) j by (simp add: hidw_inject)
qed

lemma queue_received_grows: "grows s (queue_received dm s)"
  by (auto simp: grows_def) (simp add: queue_received_def Let_def)

lemma queue_received_local:
  assumes l: "local_inv H i s" and j: "j < length H" "j \<noteq> i"
    and dm: "dm_sender dm = hidw H j" "hidw H j \<noteq> hidw H i"
    and new: "(dm_sender dm, dm_msg_id dm) \<notin> ack_uid ` set (alreadyAckedMessages s)"
  shows "local_inv H i (queue_received dm s)"
proof (rule local_invI)
  let ?s = "queue_received dm s" and ?m = "received_entry H i dm s"
  note l = local_invD [OF l]
  note chg = queue_received_changes [OF l(1)]
  have heap: "is_heap cmp (deliveryQueue s)" using l(3) by (simp add: queue_inv_def)
  note held = queue_received_held [OF l(1) heap]
  have fresh: "uid ?m \<notin> uid ` set (held s)"
    using l(3) new dm by (auto simp: queue_inv_def own_ids_def)
  show "static_inv H i ?s" using l(1) by (simp add: static_inv_def)
  show "counter_inv ?s" using l(2) by (simp add: counter_inv_def)
  show "ack_history_inv H i ?s" using l(5) by (simp add: ack_history_inv_def)
  have "final_of H i ?s sm = final_of H i s sm" for sm by (simp add: final_of_def)
  then show "seq_inv H i ?s" using l(6) by (simp add: seq_inv_def)
  show "queue_inv H i ?s"
    using l(3) fresh distinct_held_push [OF heap, of "deliveredMessage s" ?m] dq.inv_push [OF heap] held
    by (simp add: queue_inv_def held_def chg own_ids_def)
  show "acked_inv H i ?s"
    using l(4) j dm new by (auto simp: acked_inv_def chg)
  show "data_inv H i ?s"
    using l(7) held dm by (auto simp: data_inv_def)
  have "own_proposal H i ?s ?m" using dm by (simp add: own_proposal_def chg)
  moreover have "own_proposal H i ?s m" if "own_proposal H i s m" for m
    using that by (auto simp: own_proposal_def chg split: if_splits)
  moreover have "announced ?s m = announced s m" for m by (simp add: announced_def)
  ultimately show "entry_inv H i ?s"
    using l(8) by (auto simp: entry_inv_def held)
  show "outbox_inv H i ?s" using l(9) queue_received_grows by (rule outbox_inv_grows) simp
  show "watchdog_inv H i ?s" using l(10) queue_received_grows by (rule watchdog_inv_grows) simp
qed

lemma sound_queue_received:
  assumes v: "sound_view H (st(i := s))" and i: "i < length H"
    and dm: "peer_data H st i j dm"
    and new: "(dm_sender dm, dm_msg_id dm) \<notin> ack_uid ` set (alreadyAckedMessages s)"
  shows "sound_view H (st(i := queue_received dm s))"
proof (rule sound_view_step [OF v i _ queue_received_grows])
  note pd = peer_dataD [OF v i dm]
  have j: "j < length H" "j \<noteq> i" using dm by (auto simp: peer_data_def)
  note l = sound_viewD(2) [OF v i]
  note chg = queue_received_changes [OF local_invD(1) [OF l]]
  have heap: "is_heap cmp (deliveryQueue s)" using local_invD(3) [OF l] by (simp add: queue_inv_def)
  note held = queue_received_held [OF local_invD(1) [OF l] heap]
  show "local_inv H i (queue_received dm s)"
    using queue_received_local [OF l j pd(1,2) new] .
  fix j' assume j': "j' < length H" "j' \<noteq> i"
  note c = crossD [OF sound_viewD(3) [OF v i j']]
  have same: "hidw H j = hidw H j' \<Longrightarrow> j' = j"
    using sound_viewD(1) [OF v i] j j' by (simp add: hidw_inject)
  show "cross H i (queue_received dm s) j' (st j')"
  proof (rule crossI)
    fix a assume "a \<in> set (alreadyAckedMessages (queue_received dm s))" "am_sender a = hidw H j'"
    then show "\<exists>k. 0 \<le> k \<and> k < curr_msg_id (st j') \<and> am_msg_id a = to_u32 k"
      using c(1) pd(1,3) same by (auto simp: chg)
  next
    fix m assume "m \<in> set (held (queue_received dm s))" "qm_sender m = hidw H j'"
    then show "map_of (dataHistory (st j')) (to_int (qm_msg_id m)) = Some (to_int (qm_data m))"
      using c(2) pd(1,4) same by (auto simp: held)
  qed (use c(3,4) in simp_all)
qed

section \<open>Queueing an own message\<close>

text \<open>The state change of \<open>multicast_datamsg\<close> before it starts to send; \<open>n\<close> is the new counter.\<close>

definition queue_own :: "u32 \<Rightarrow> int \<Rightarrow> rm \<Rightarrow> rm" where
  "queue_own data n s =
     (let k = to_int (to_u32 (curr_msg_id s)); me = current_container_id s in
      s\<lparr>curr_msg_id := curr_msg_id s + 1,
        dataHistory := map_insert k (to_int data) (dataHistory s),
        curr_seq_number := n,
        ackHistory := map_insert k (map_insert me n []) (ackHistory s),
        deliveryQueue := push_msg_to_deliveryqueue (make_queued_msg (to_u32 n) UNDELIVERABLE
          (to_u32 me) (to_u32 (curr_msg_id s)) data (to_u32 me)) (deliveryQueue s)\<rparr>)"

definition own_entry :: "string list \<Rightarrow> nat \<Rightarrow> u32 \<Rightarrow> int \<Rightarrow> rm \<Rightarrow> QueuedMessage" where
  "own_entry H i data n s = make_queued_msg (to_u32 n) UNDELIVERABLE (hidw H i)
     (to_u32 (curr_msg_id s)) data (hidw H i)"

lemma own_entry_simps [simp]:
  "uid (own_entry H i data n s) = (hidw H i, to_u32 (curr_msg_id s))"
  "qm_sender (own_entry H i data n s) = hidw H i"
  "qm_msg_id (own_entry H i data n s) = to_u32 (curr_msg_id s)"
  "qm_data (own_entry H i data n s) = data"
  "qm_status (own_entry H i data n s) = UNDELIVERABLE"
  "qm_proposer (own_entry H i data n s) = hidw H i"
  "qm_sequence_number (own_entry H i data n s) = to_u32 n"
  by (simp_all add: own_entry_def uid_def make_queued_msg_def)

lemma queue_own_fields [simp]:
  "hostNames (queue_own d n s) = hostNames s" "num_hosts (queue_own d n s) = num_hosts s"
  "current_container_name (queue_own d n s) = current_container_name s"
  "msg_buf (queue_own d n s) = msg_buf s"
  "current_container_id (queue_own d n s) = current_container_id s"
  "hostIDtoHostName (queue_own d n s) = hostIDtoHostName s"
  "curr_msg_id (queue_own d n s) = curr_msg_id s + 1" "curr_seq_number (queue_own d n s) = n"
  "seqMessageHistory (queue_own d n s) = seqMessageHistory s"
  "alreadyAckedMessages (queue_own d n s) = alreadyAckedMessages s"
  "deliveredMessage (queue_own d n s) = deliveredMessage s"
  "outbox (queue_own d n s) = outbox s" "watchdogs (queue_own d n s) = watchdogs s"
  by (simp_all add: queue_own_def Let_def)

lemma queue_own_changes:
  assumes "static_inv H i s" "counter_inv s"
  shows "deliveryQueue (queue_own d n s) =
      push_msg_to_deliveryqueue (own_entry H i d n s) (deliveryQueue s)"
    and "dataHistory (queue_own d n s) = map_insert (curr_msg_id s) (to_int d) (dataHistory s)"
    and "ackHistory (queue_own d n s) = map_insert (curr_msg_id s) [(hid H i, n)] (ackHistory s)"
  using assms
  by (simp_all add: queue_own_def Let_def static_id [OF assms(1)] own_entry_def counter_inv_def
      int_range_def INT_MAX_def) (simp add: static_inv_def)

lemma fresh_own_key:
  assumes "counter_inv s" "ack_history_inv H i s" "data_inv H i s"
  shows "map_of (ackHistory s) (curr_msg_id s) = None" "map_of (dataHistory s) (curr_msg_id s) = None"
  using assms by (auto simp: ack_history_inv_def data_inv_def domIff [symmetric])

lemma queue_own_maps:
  assumes "local_inv H i s"
  shows "map_of (dataHistory (queue_own d n s)) = (map_of (dataHistory s))(curr_msg_id s \<mapsto> to_int d)"
    and "map_of (ackHistory (queue_own d n s)) =
      (map_of (ackHistory s))(curr_msg_id s \<mapsto> [(hid H i, n)])"
    and "map_ok (dataHistory (queue_own d n s))" "map_ok (ackHistory (queue_own d n s))"
proof -
  note l = local_invD [OF assms]
  have ok: "map_ok (dataHistory s)" "map_ok (ackHistory s)"
    using l(5,7) by (simp_all add: data_inv_def ack_history_inv_def)
  note new = fresh_own_key [OF l(2,5,7)] and chg = queue_own_changes [OF l(1,2)]
  show "map_of (dataHistory (queue_own d n s)) = (map_of (dataHistory s))(curr_msg_id s \<mapsto> to_int d)"
    unfolding chg using ok(1) new(2) by (rule smap.ins_fresh)
  show "map_of (ackHistory (queue_own d n s)) =
      (map_of (ackHistory s))(curr_msg_id s \<mapsto> [(hid H i, n)])"
    unfolding chg using ok(2) new(1) by (rule smap.ins_fresh)
  show "map_ok (dataHistory (queue_own d n s))" "map_ok (ackHistory (queue_own d n s))"
    unfolding chg using ok by simp_all
qed

lemma queue_own_grows: "local_inv H i s \<Longrightarrow> grows s (queue_own d n s)"
  using fresh_own_key [OF local_invD(2,5,7)]
  by (fastforce simp: grows_def queue_own_maps map_le_def)

lemma queue_own_held:
  assumes "static_inv H i s" "counter_inv s" "is_heap cmp (deliveryQueue s)"
  shows "set (held (queue_own d n s)) = insert (own_entry H i d n s) (set (held s))"
  using set_push_msg [OF assms(3)] by (auto simp: held_def queue_own_changes [OF assms(1,2)])

lemma own_ids_Suc:
  "0 \<le> curr_msg_id s \<Longrightarrow> curr_msg_id s' = curr_msg_id s + 1 \<Longrightarrow>
   own_ids H i s' = insert (hidw H i, to_u32 (curr_msg_id s)) (own_ids H i s)"
proof -
  assume "0 \<le> curr_msg_id s" "curr_msg_id s' = curr_msg_id s + 1"
  then have "{0..<curr_msg_id s'} = insert (curr_msg_id s) {0..<curr_msg_id s}" by auto
  then show ?thesis by (simp add: own_ids_def)
qed

lemma final_of_mono:
  assumes "final_of H i s sm" "curr_msg_id s \<le> curr_msg_id s'"
    and "\<And>k pm. map_of (ackHistory s) k = Some pm \<Longrightarrow> length pm = length H \<Longrightarrow> k < curr_msg_id s \<Longrightarrow>
      map_of (ackHistory s') k = Some pm"
  shows "final_of H i s' sm"
proof -
  obtain k pm where k: "0 \<le> k" "k < curr_msg_id s" "sm_msg_id sm = to_u32 k"
    "map_of (ackHistory s) k = Some pm" "length pm = length H"
    "get_max_sequence_from_proposerseq_map pm = (sm_final_seq sm, sm_final_seq_proposer sm)"
    using assms(1) by (auto simp: final_of_def)
  moreover have "map_of (ackHistory s') k = Some pm" using assms(3) k by blast
  moreover have "k < curr_msg_id s'" using k(2) assms(2) by simp
  ultimately show ?thesis unfolding final_of_def by blast
qed

lemma announced_mono:
  "announced s m \<Longrightarrow> set (seqMessageHistory s) \<subseteq> set (seqMessageHistory s') \<Longrightarrow> announced s' m"
  by (auto simp: announced_def)

lemma queue_own_local:
  assumes li: "local_inv H i s" and acked: "hosts_ok H" "i < length H"
    and n: "0 \<le> n" "n \<le> INT_MAX" and k: "curr_msg_id s + 1 \<le> INT_MAX"
  shows "local_inv H i (queue_own d n s)"
proof (rule local_invI)
  let ?s = "queue_own d n s" and ?m = "own_entry H i d n s" and ?k = "curr_msg_id s"
  note l = local_invD [OF li] and maps = queue_own_maps [OF li, of d n]
  note chg = queue_own_changes [OF l(1,2)]
  have heap: "is_heap cmp (deliveryQueue s)" using l(3) by (simp add: queue_inv_def)
  note held = queue_own_held [OF l(1,2) heap]
  have kr: "?k \<in> int_range" and k0: "0 \<le> ?k" using l(2) k by (auto simp: counter_inv_def int_range_def INT_MAX_def)
  have nr: "n \<in> int_range" using n by (rule int_rangeI)
  note new = fresh_own_key [OF l(2,5,7)]
  have "(hidw H i, to_u32 ?k) \<notin> own_ids H i s"
    using own_uid_in_range [OF l(2)] kr by fastforce
  moreover have "(hidw H i, to_u32 ?k) \<notin> ack_uid ` set (alreadyAckedMessages s)"
    using l(4) acked by (auto simp: acked_inv_def ack_uid_def hidw_inject)
  ultimately have fresh: "uid ?m \<notin> uid ` set (held s)"
    using l(3) by (simp add: queue_inv_def)
  show "static_inv H i ?s" using l(1) by (simp add: static_inv_def)
  show "counter_inv ?s" using l(2) n k by (simp add: counter_inv_def)
  show "queue_inv H i ?s"
    using l(3) fresh distinct_held_push [OF heap, of "deliveredMessage s" ?m] dq.inv_push [OF heap]
      held own_ids_Suc [OF k0, of ?s]
    by (simp add: queue_inv_def held_def chg)
  show "acked_inv H i ?s" using l(4) by (simp add: acked_inv_def)
  have "insert ?k {0..<?k} = {0..<?k + 1}" using k0 by auto
  moreover have "hid H i \<in> host_ids H" using acked by (simp add: host_ids_def)
  ultimately show "ack_history_inv H i ?s" using l(5) nr
    by (auto simp: ack_history_inv_def maps map_ok_Cons)
  have "final_of H i ?s sm" if "final_of H i s sm" for sm
    by (rule final_of_mono [OF that]) (auto simp: maps)
  then show "seq_inv H i ?s" using l(6) by (auto simp: seq_inv_def maps)
  have "insert ?k {0..<?k} = {0..<?k + 1}" using k0 by auto
  moreover have "to_int (qm_msg_id m) \<noteq> ?k" if "m \<in> set (held s)" "qm_sender m = hidw H i" for m
    using l(7) that new(2) by (auto simp: data_inv_def)
  ultimately show "data_inv H i ?s" using l(7) kr by (auto simp: data_inv_def maps held)
  have "own_proposal H i ?s ?m" using kr by (simp add: own_proposal_def maps)
  moreover have "own_proposal H i ?s m" if "own_proposal H i s m" for m
    using that new(1) by (auto simp: own_proposal_def maps)
  moreover have "announced ?s m = announced s m" for m by (simp add: announced_def)
  ultimately show "entry_inv H i ?s" using l(8) by (auto simp: entry_inv_def held)
  show "outbox_inv H i ?s" using l(9) queue_own_grows [OF li] by (rule outbox_inv_grows) simp
  show "watchdog_inv H i ?s" using l(10) queue_own_grows [OF li] by (rule watchdog_inv_grows) simp
qed

lemma sound_queue_own:
  assumes v: "sound_view H (st(i := s))" and i: "i < length H"
    and n: "0 \<le> n" "n \<le> INT_MAX" and k: "curr_msg_id s + 1 \<le> INT_MAX"
  shows "sound_view H (st(i := queue_own d n s))"
proof (rule sound_view_step [OF v i])
  note li = sound_viewD(2) [OF v i] and ok = sound_viewD(1) [OF v i]
  note l = local_invD [OF li]
  show "local_inv H i (queue_own d n s)" using li ok i n k by (rule queue_own_local)
  show "grows s (queue_own d n s)" using li by (rule queue_own_grows)
  have heap: "is_heap cmp (deliveryQueue s)" using l(3) by (simp add: queue_inv_def)
  fix j assume j: "j < length H" "j \<noteq> i"
  have ne: "hidw H i \<noteq> hidw H j" "hid H i \<noteq> hid H j" using ok i j by (simp_all add: hidw_inject hid_inject)
  note c = crossD [OF sound_viewD(3) [OF v i j]]
  show "cross H i (queue_own d n s) j (st j)"
  proof (rule crossI)
    fix m assume "m \<in> set (held (queue_own d n s))" "qm_sender m = hidw H j"
    then show "map_of (dataHistory (st j)) (to_int (qm_msg_id m)) = Some (to_int (qm_data m))"
      using c(2) ne by (auto simp: queue_own_held [OF l(1,2) heap])
  next
    fix k pm v assume "map_of (ackHistory (queue_own d n s)) k = Some pm" "map_of pm (hid H j) = Some v"
    then show "\<exists>a \<in> set (alreadyAckedMessages (st j)). ack_uid a = (hidw H i, to_u32 k) \<and>
        to_int (am_proposed_seq a) = v"
      using c(4) ne by (auto simp: queue_own_maps [OF li] split: if_splits)
  qed (use c(1,3) in simp_all)
qed

end
