(* ===== verification/GroupFinal.thy ===== *)
theory GroupFinal
  imports GroupQueue
begin

text \<open>
  The second half of the state changes that keep \<open>sound_view\<close>: recording an acknowledgement, with
  the final number when it is the last one, and giving a queued message its final number and
  delivering what has become ready.
\<close>

section \<open>Recording an acknowledgement\<close>

text \<open>\<open>sms\<close> is the sequence message of a completed history, if there is one.\<close>

definition ack_recorded :: "AckMessage \<Rightarrow> ProposerSeq \<Rightarrow> int \<Rightarrow> SeqMessage list \<Rightarrow> rm \<Rightarrow> rm" where
  "ack_recorded a pm' n sms s =
     s\<lparr>curr_seq_number := n, ackHistory := map_store (to_int (am_msg_id a)) pm' (ackHistory s),
       seqMessageHistory := seqMessageHistory s @ sms\<rparr>"

lemma ack_recorded_fields [simp]:
  "hostNames (ack_recorded a pm n sms s) = hostNames s"
  "num_hosts (ack_recorded a pm n sms s) = num_hosts s"
  "current_container_name (ack_recorded a pm n sms s) = current_container_name s"
  "current_container_id (ack_recorded a pm n sms s) = current_container_id s"
  "hostIDtoHostName (ack_recorded a pm n sms s) = hostIDtoHostName s"
  "msg_buf (ack_recorded a pm n sms s) = msg_buf s"
  "curr_msg_id (ack_recorded a pm n sms s) = curr_msg_id s"
  "curr_seq_number (ack_recorded a pm n sms s) = n"
  "alreadyAckedMessages (ack_recorded a pm n sms s) = alreadyAckedMessages s"
  "dataHistory (ack_recorded a pm n sms s) = dataHistory s"
  "deliveryQueue (ack_recorded a pm n sms s) = deliveryQueue s"
  "deliveredMessage (ack_recorded a pm n sms s) = deliveredMessage s"
  "outbox (ack_recorded a pm n sms s) = outbox s" "watchdogs (ack_recorded a pm n sms s) = watchdogs s"
  "their_addr (ack_recorded a pm n sms s) = their_addr s"
  "seqMessageHistory (ack_recorded a pm n sms s) = seqMessageHistory s @ sms"
  "ackHistory (ack_recorded a pm n sms s) = map_store (to_int (am_msg_id a)) pm (ackHistory s)"
  "held (ack_recorded a pm n sms s) = held s"
  "own_ids H i (ack_recorded a pm n sms s) = own_ids H i s"
  by (simp_all add: ack_recorded_def held_def own_ids_def)

text \<open>An acknowledgement by process \<open>j\<close> of a message of process \<open>i\<close>.\<close>

definition peer_ack :: "string list \<Rightarrow> (nat \<Rightarrow> rm) \<Rightarrow> nat \<Rightarrow> nat \<Rightarrow> AckMessage \<Rightarrow> bool" where
  "peer_ack H st i j a \<longleftrightarrow> j < length H \<and> j \<noteq> i \<and> a \<in> set (alreadyAckedMessages (st j)) \<and>
     am_sender a = hidw H i"

lemma peer_ackD:
  assumes v: "sound_view H (st(i := s))" "i < length H" and a: "peer_ack H st i j a"
  shows "j < length H" "j \<noteq> i" "am_sender a = hidw H i" "to_int (am_proposer a) = hid H j"
    and "to_int (am_msg_id a) \<in> {0..<curr_msg_id s}"
    and "to_int (am_proposed_seq a) \<in> int_range"
proof -
  show j: "j < length H" "j \<noteq> i" and s: "am_sender a = hidw H i" using a by (auto simp: peer_ack_def)
  have mem: "a \<in> set (alreadyAckedMessages (st j))" using a by (simp add: peer_ack_def)
  have "am_proposer a = hidw H j"
    using local_invD(4) [OF sound_viewD(5) [OF v j]] mem by (simp add: acked_inv_def)
  then show "to_int (am_proposer a) = hid H j" by simp
  obtain k where k: "0 \<le> k" "k < curr_msg_id s" "am_msg_id a = to_u32 k"
    using crossD(1) [OF sound_viewD(4) [OF v j] mem s] by blast
  moreover have "k \<in> int_range"
    using local_invD(2) [OF sound_viewD(2) [OF v]] k(1,2) by (rule msg_id_in_range)
  ultimately show "to_int (am_msg_id a) \<in> {0..<curr_msg_id s}" by simp
  show "to_int (am_proposed_seq a) \<in> int_range" by simp
qed

lemma ack_history_at:
  assumes "ack_history_inv H i s" "k \<in> {0..<curr_msg_id s}"
  obtains pm where "map_of (ackHistory s) k = Some pm" "map_ok pm" "hid H i \<in> dom (map_of pm)"
    "dom (map_of pm) \<subseteq> host_ids H" "ran (map_of pm) \<subseteq> int_range"
proof -
  have "k \<in> dom (map_of (ackHistory s))" using assms by (simp add: ack_history_inv_def)
  then obtain pm where "map_of (ackHistory s) k = Some pm" by blast
  with that show thesis using assms(1) by (simp add: ack_history_inv_def)
qed

text \<open>The last acknowledgement of message \<open>k\<close> comes with its sequence message.\<close>

definition completes :: "string list \<Rightarrow> nat \<Rightarrow> AckMessage \<Rightarrow> ProposerSeq \<Rightarrow> SeqMessage list \<Rightarrow> bool" where
  "completes H i a pm' sms \<longleftrightarrow>
     (if length pm' = length H
      then sms = [case get_max_sequence_from_proposerseq_map pm' of
              (fs, fp) \<Rightarrow> make_seq_msg (hidw H i) (am_msg_id a) fs fp]
      else sms = [])"

lemma ack_recorded_local:
  assumes li: "local_inv H i s" and H: "hosts_ok H" "i < length H" "j < length H" "j \<noteq> i"
    and a: "to_int (am_msg_id a) \<in> {0..<curr_msg_id s}"
    and pm: "map_of (ackHistory s) (to_int (am_msg_id a)) = Some pm" "map_of pm (hid H j) = None"
    and pm': "pm' = map_insert (hid H j) v pm" and v: "v \<in> int_range"
    and n: "0 \<le> n" "n \<le> INT_MAX" and sms: "completes H i a pm' sms"
  shows "local_inv H i (ack_recorded a pm' n sms s)"
proof (rule local_invI)
  let ?s = "ack_recorded a pm' n sms s" and ?k = "to_int (am_msg_id a)"
  note l = local_invD [OF li]
  have g: "grows s ?s" by (auto simp: grows_def)
  have ok: "map_ok (ackHistory s)" and pmok: "map_ok pm" "hid H i \<in> dom (map_of pm)"
    "dom (map_of pm) \<subseteq> host_ids H" "ran (map_of pm) \<subseteq> int_range"
    using l(5) pm(1) by (auto simp: ack_history_inv_def)
  have mapk: "map_of (ackHistory ?s) = (map_of (ackHistory s))(?k \<mapsto> pm')"
    using ok by (simp add: map_of_store)
  have pm'_map: "map_of pm' = (map_of pm)(hid H j \<mapsto> v)"
    unfolding pm' using pmok(1) pm(2) by (rule smap.ins_fresh)
  have hj: "hid H j \<in> host_ids H" using H by (simp add: host_ids_def)
  have "length pm < card (host_ids H)"
    using pmok(1) pm(2) pmok(3) hj by (rule smap.not_full_before_ins) simp
  then have short: "length pm < length H" using H(1) by (simp add: card_host_ids)
  show "static_inv H i ?s" using l(1) by (simp add: static_inv_def)
  show "counter_inv ?s" using l(2) n by (simp add: counter_inv_def)
  show "queue_inv H i ?s" using l(3) by (simp add: queue_inv_def)
  show "acked_inv H i ?s" using l(4) by (simp add: acked_inv_def)
  have "insert ?k {0..<curr_msg_id s} = {0..<curr_msg_id s}" using a by auto
  moreover have "map_ok pm'" using pmok(1) by (simp add: pm')
  moreover have "hid H i \<in> dom (map_of pm')" "dom (map_of pm') \<subseteq> host_ids H"
    "ran (map_of pm') \<subseteq> int_range"
    using pmok hj v by (auto simp: pm'_map ran_def)
  ultimately show "ack_history_inv H i ?s"
    using l(5) ok unfolding ack_history_inv_def mapk
    by (simp add: dom_fun_upd del: ack_recorded_fields(17)) (simp add: ack_recorded_def)
  have keep: "final_of H i ?s sm" if "final_of H i s sm" for sm
    by (rule final_of_mono [OF that]) (use short pm(1) in \<open>auto simp: mapk simp del: ack_recorded_fields(17)\<close>)
  have new: "sm_type sm = SEQMSG_TYPE \<and> sm_sender sm = hidw H i \<and> final_of H i ?s sm \<and>
      seq_uid sm = (hidw H i, to_u32 ?k)" if "sm \<in> set sms" for sm
    using that sms a mapk unfolding completes_def final_of_def
    by (auto simp: make_seq_msg_def seq_uid_def simp del: ack_recorded_fields(17)
        split: if_splits prod.splits intro!: exI [of _ ?k])
  have old: "\<exists>sm \<in> set (seqMessageHistory s) \<union> set sms. seq_uid sm = (hidw H i, to_u32 k)"
    if "map_of (ackHistory ?s) k = Some p" "length p = length H" "1 < length H" for k p
  proof (cases "k = ?k")
    case True
    with that(1) have "p = pm'" by (simp add: mapk del: ack_recorded_fields(17))
    with that(2) sms obtain sm where "sm \<in> set sms" by (auto simp: completes_def)
    with new True show ?thesis by blast
  next
    case False
    with that l(6) show ?thesis by (auto simp: seq_inv_def mapk simp del: ack_recorded_fields(17))
  qed
  show "seq_inv H i ?s"
    unfolding seq_inv_def
  proof (intro conjI ballI allI impI)
    fix sm assume sm: "sm \<in> set (seqMessageHistory ?s)"
    show "sm_type sm = SEQMSG_TYPE" "\<exists>j < length H. sm_sender sm = hidw H j"
      using sm l(6) new H(2) by (auto simp: seq_inv_def)
    show "final_of H i ?s sm" if "sm_sender sm = hidw H i"
      using sm l(6) new keep that by (auto simp: seq_inv_def)
  next
    fix k p assume "map_of (ackHistory ?s) k = Some p \<and> length p = length H \<and> 1 < length H"
    then show "\<exists>sm \<in> set (seqMessageHistory ?s). seq_uid sm = (hidw H i, to_u32 k)"
      using old [of k p] by auto
  qed
  show "data_inv H i ?s" using l(7) by (simp add: data_inv_def)
  have ne: "hid H i \<noteq> hid H j" using H by (simp add: hid_inject)
  have "own_proposal H i ?s m" if "own_proposal H i s m" for m
    using that pm(1) ne
    by (auto simp: own_proposal_def mapk pm'_map simp del: ack_recorded_fields(17) split: if_splits)
  moreover have "announced ?s m" if "announced s m" for m
    using that by (rule announced_mono) simp
  ultimately show "entry_inv H i ?s" using l(8) by (auto simp: entry_inv_def)
  show "outbox_inv H i ?s" using l(9) g by (rule outbox_inv_grows) simp
  show "watchdog_inv H i ?s" using l(10) g by (rule watchdog_inv_grows) simp
qed

lemma sound_ack_recorded:
  assumes v: "sound_view H (st(i := s))" and i: "i < length H" and a: "peer_ack H st i j a"
    and pm: "map_of (ackHistory s) (to_int (am_msg_id a)) = Some pm" "map_of pm (hid H j) = None"
    and pm': "pm' = map_insert (hid H j) (to_int (am_proposed_seq a)) pm"
    and n: "0 \<le> n" "n \<le> INT_MAX" and sms: "completes H i a pm' sms"
  shows "sound_view H (st(i := ack_recorded a pm' n sms s))"
proof (rule sound_view_step [OF v i])
  let ?s = "ack_recorded a pm' n sms s" and ?k = "to_int (am_msg_id a)"
  note pa = peer_ackD [OF v i a] and li = sound_viewD(2) [OF v i] and ok = sound_viewD(1) [OF v i]
  show "local_inv H i ?s"
    using li ok i pa(1,2,5) pm pm' pa(6) n sms by (rule ack_recorded_local)
  show "grows s ?s" by (auto simp: grows_def)
  have mok: "map_ok (ackHistory s)" "map_ok pm"
    using local_invD(5) [OF li] pm(1) by (auto simp: ack_history_inv_def)
  have pm'_map: "map_of pm' = (map_of pm)(hid H j \<mapsto> to_int (am_proposed_seq a))"
    unfolding pm' using mok(2) pm(2) by (rule smap.ins_fresh)
  fix j' assume j': "j' < length H" "j' \<noteq> i"
  note c = crossD [OF sound_viewD(3) [OF v i j']]
  have ne: "hidw H i \<noteq> hidw H j'" using ok i j' by (simp add: hidw_inject)
  show "cross H i ?s j' (st j')"
  proof (rule crossI)
    fix sm assume "sm \<in> set (seqMessageHistory ?s)" "sm_sender sm = hidw H j'"
    then show "sm \<in> set (seqMessageHistory (st j'))"
      using c(3) ne sms by (auto simp: completes_def make_seq_msg_def split: if_splits prod.splits)
  next
    fix k p w assume kp: "map_of (ackHistory ?s) k = Some p" "map_of p (hid H j') = Some w"
    show "\<exists>b \<in> set (alreadyAckedMessages (st j')). ack_uid b = (hidw H i, to_u32 k) \<and>
        to_int (am_proposed_seq b) = w"
    proof (cases "k = ?k \<and> j' = j")
      case True
      with kp(1) have "p = pm'" using mok(1) by (simp add: map_of_store)
      with kp(2) True have "w = to_int (am_proposed_seq a)" by (simp add: pm'_map)
      moreover have "a \<in> set (alreadyAckedMessages (st j'))" using a True by (simp add: peer_ack_def)
      ultimately show ?thesis using True pa(3) by (auto simp: ack_uid_def)
    next
      case False
      have "\<exists>q. map_of (ackHistory s) k = Some q \<and> map_of q (hid H j') = Some w"
      proof (cases "k = ?k")
        case True
        with False ok j' pa(1) have "hid H j' \<noteq> hid H j" by (simp add: hid_inject)
        moreover have "p = pm'" using kp(1) True mok(1) by (simp add: map_of_store)
        ultimately show ?thesis using kp(2) pm(1) True by (simp add: pm'_map)
      next
        case False
        with kp mok(1) show ?thesis by (simp add: map_of_store)
      qed
      with c(4) show ?thesis by blast
    qed
  qed (use c(1,2) in simp_all)
qed

section \<open>Final numbers and delivery\<close>

text \<open>What the final number does to a queued message.\<close>

abbreviation finalize_by :: "SeqMessage \<Rightarrow> QueuedMessage \<Rightarrow> QueuedMessage" where
  "finalize_by sm \<equiv>
     finalize (sm_sender sm) (sm_msg_id sm) (sm_final_seq sm) (sm_final_seq_proposer sm) DELIVERABLE"

text \<open>
  A change of queue and delivered messages after which every message is what it was, or has the
  final number of a sequence message in the history.
\<close>

definition redelivered :: "rm \<Rightarrow> rm \<Rightarrow> SeqMessage list \<Rightarrow> bool" where
  "redelivered s s' sms \<longleftrightarrow>
     (\<exists>q d f. s' = s\<lparr>deliveryQueue := q, deliveredMessage := d,
        seqMessageHistory := seqMessageHistory s @ sms\<rparr> \<and> is_heap cmp q \<and>
      mset (d @ q) = image_mset f (mset (held s)) \<and> (\<forall>m \<in> set d. qm_status m = DELIVERABLE) \<and>
      (f = id \<or> (\<exists>sm \<in> set (seqMessageHistory s @ sms). f = finalize_by sm)))"

lemma msg_id_finalize [simp]:
  "qm_sender (finalize w k sn p st m) = qm_sender m" "qm_msg_id (finalize w k sn p st m) = qm_msg_id m"
  by (simp_all add: finalize_def)

lemma redelivered_held:
  assumes "redelivered s s' sms"
  shows "\<exists>f. mset (held s') = image_mset f (mset (held s)) \<and> set (held s') = f ` set (held s) \<and>
    (\<forall>m. uid (f m) = uid m \<and> qm_data (f m) = qm_data m \<and> qm_sender (f m) = qm_sender m \<and>
         qm_msg_id (f m) = qm_msg_id m) \<and>
    (\<forall>m. f m = m \<or> qm_status (f m) = DELIVERABLE \<and> announced s' (f m))"
proof -
  obtain q d f where s': "s' = s\<lparr>deliveryQueue := q, deliveredMessage := d,
      seqMessageHistory := seqMessageHistory s @ sms\<rparr>"
    and ms: "mset (d @ q) = image_mset f (mset (held s))"
    and f: "f = id \<or> (\<exists>sm \<in> set (seqMessageHistory s @ sms). f = finalize_by sm)"
    using assms unfolding redelivered_def by blast
  have h: "held s' = d @ q" by (simp add: s' held_def)
  have "set (held s') = f ` set (held s)"
    using arg_cong [OF ms, of set_mset] h by simp
  moreover have "\<forall>m. uid (f m) = uid m \<and> qm_data (f m) = qm_data m \<and> qm_sender (f m) = qm_sender m \<and>
      qm_msg_id (f m) = qm_msg_id m" using f by auto
  moreover have "f m = m \<or> qm_status (f m) = DELIVERABLE \<and> announced s' (f m)" for m
  proof (cases "f m = m")
    case False
    then obtain sm where sm: "sm \<in> set (seqMessageHistory s @ sms)" "f = finalize_by sm"
      using f by auto
    with False have "uid m = (sm_sender sm, sm_msg_id sm)" by (auto simp: finalize_def split: if_splits)
    then have fm: "f m = m\<lparr>qm_sequence_number := sm_final_seq sm, qm_status := DELIVERABLE,
        qm_proposer := sm_final_seq_proposer sm\<rparr>" and u: "uid (f m) = (sm_sender sm, sm_msg_id sm)"
      using sm(2) by (simp_all add: finalize_def uid_def)
    have "sm \<in> set (seqMessageHistory s')" using sm(1) by (simp add: s')
    with fm u show ?thesis unfolding announced_def by (auto simp: seq_uid_def)
  qed simp
  ultimately show ?thesis using ms h by (intro exI [of _ f]) auto
qed

lemma redelivered_fields:
  assumes "redelivered s s' sms"
  shows "hostNames s' = hostNames s" "num_hosts s' = num_hosts s"
    "current_container_name s' = current_container_name s"
    "current_container_id s' = current_container_id s"
    "hostIDtoHostName s' = hostIDtoHostName s" "msg_buf s' = msg_buf s"
    "curr_msg_id s' = curr_msg_id s" "curr_seq_number s' = curr_seq_number s"
    "alreadyAckedMessages s' = alreadyAckedMessages s" "dataHistory s' = dataHistory s"
    "ackHistory s' = ackHistory s" "outbox s' = outbox s" "watchdogs s' = watchdogs s"
    "their_addr s' = their_addr s" "seqMessageHistory s' = seqMessageHistory s @ sms"
    "is_heap cmp (deliveryQueue s')" "\<forall>m \<in> set (deliveredMessage s'). qm_status m = DELIVERABLE"
    "own_ids H i s' = own_ids H i s"
  using assms unfolding redelivered_def own_ids_def by auto

text \<open>The sequence message of a peer.\<close>

definition peer_seq :: "string list \<Rightarrow> (nat \<Rightarrow> rm) \<Rightarrow> nat \<Rightarrow> SeqMessage \<Rightarrow> bool" where
  "peer_seq H st i sm \<longleftrightarrow> (\<exists>j < length H. j \<noteq> i \<and> sm \<in> set (seqMessageHistory (st j)) \<and>
     sm_sender sm = hidw H j)"

lemma redelivered_local:
  assumes li: "local_inv H i s" and r: "redelivered s s' sms"
    and sms: "\<And>sm. sm \<in> set sms \<Longrightarrow> sm_type sm = SEQMSG_TYPE \<and> sm_sender sm \<noteq> hidw H i \<and>
      (\<exists>j < length H. sm_sender sm = hidw H j)"
  shows "local_inv H i s'"
proof (rule local_invI)
  note l = local_invD [OF li] and fld = redelivered_fields [OF r]
  obtain f where ms: "mset (held s') = image_mset f (mset (held s))"
    and hs: "set (held s') = f ` set (held s)"
    and f: "\<And>m. uid (f m) = uid m" "\<And>m. qm_data (f m) = qm_data m"
      "\<And>m. qm_sender (f m) = qm_sender m" "\<And>m. qm_msg_id (f m) = qm_msg_id m"
      "\<And>m. f m = m \<or> qm_status (f m) = DELIVERABLE \<and> announced s' (f m)"
    using redelivered_held [OF r] by metis
  have g: "grows s s'" by (auto simp: grows_def fld)
  show "static_inv H i s'" using l(1) by (simp add: static_inv_def fld)
  show "counter_inv s'" using l(2) by (simp add: counter_inv_def fld)
  have "mset (map uid (held s')) = image_mset uid (mset (held s'))" by simp
  also have "\<dots> = mset (map uid (held s))" by (simp only: ms) (simp add: image_mset.compositionality comp_def f(1))
  finally have "distinct (map uid (held s')) = distinct (map uid (held s))" by (rule mset_eq_imp_distinct_iff)
  moreover have "uid ` set (held s') = uid ` set (held s)" by (simp add: hs image_image f(1))
  ultimately show "queue_inv H i s'" using l(3) fld by (simp add: queue_inv_def)
  show "acked_inv H i s'" using l(4) by (simp add: acked_inv_def fld)
  show "ack_history_inv H i s'" using l(5) by (simp add: ack_history_inv_def fld)
  have "final_of H i s' sm = final_of H i s sm" for sm by (simp add: final_of_def fld)
  then show "seq_inv H i s'" using l(6) sms unfolding seq_inv_def fld by auto
  show "data_inv H i s'" using l(7) by (auto simp: data_inv_def fld hs f)
  have "own_proposal H i s' m = own_proposal H i s m" for m by (simp add: own_proposal_def fld)
  moreover have "announced s' m" if "announced s m" for m
    using that by (rule announced_mono) (simp add: fld)
  moreover have "f m = m \<or> qm_status (f m) = DELIVERABLE \<and> announced s' (f m)" for m by (rule f(5))
  ultimately show "entry_inv H i s'"
    using l(8) unfolding entry_inv_def hs by (metis (no_types, lifting) imageE)
  show "outbox_inv H i s'" using l(9) g fld(12) by (rule outbox_inv_grows)
  show "watchdog_inv H i s'" using l(10) g fld(13) by (rule watchdog_inv_grows)
qed

lemma sound_redelivered:
  assumes v: "sound_view H (st(i := s))" and i: "i < length H" and r: "redelivered s s' sms"
    and sms: "\<And>sm. sm \<in> set sms \<Longrightarrow> peer_seq H st i sm"
  shows "sound_view H (st(i := s'))"
proof (rule sound_view_step [OF v i])
  note fld = redelivered_fields [OF r] and ok = sound_viewD(1) [OF v i]
  have "sm_type sm = SEQMSG_TYPE \<and> sm_sender sm \<noteq> hidw H i \<and> (\<exists>j < length H. sm_sender sm = hidw H j)"
    if mem: "sm \<in> set sms" for sm
  proof -
    obtain j where j: "j < length H" "j \<noteq> i" "sm \<in> set (seqMessageHistory (st j))" "sm_sender sm = hidw H j"
      using sms [OF mem] unfolding peer_seq_def by blast
    with local_invD(6) [OF sound_viewD(5) [OF v i j(1,2)]] show ?thesis
      using ok i by (auto simp: seq_inv_def hidw_inject)
  qed
  with sound_viewD(2) [OF v i] r show "local_inv H i s'" by (rule redelivered_local)
  show "grows s s'" by (auto simp: grows_def fld)
  obtain f where hs: "set (held s') = f ` set (held s)"
    and f: "\<And>m. qm_data (f m) = qm_data m" "\<And>m. qm_sender (f m) = qm_sender m"
      "\<And>m. qm_msg_id (f m) = qm_msg_id m"
    using redelivered_held [OF r] by metis
  fix j assume j: "j < length H" "j \<noteq> i"
  note c = crossD [OF sound_viewD(3) [OF v i j]]
  show "cross H i s' j (st j)"
  proof (rule crossI)
    fix sm assume sm: "sm \<in> set (seqMessageHistory s')" "sm_sender sm = hidw H j"
    show "sm \<in> set (seqMessageHistory (st j))"
    proof (cases "sm \<in> set sms")
      case True
      then obtain j' where j': "j' < length H" "sm \<in> set (seqMessageHistory (st j'))" "sm_sender sm = hidw H j'"
        using sms by (auto simp: peer_seq_def)
      with sm j ok have "j' = j" by (metis hidw_inject)
      with j' show ?thesis by simp
    next
      case False
      with sm c(3) show ?thesis by (auto simp: fld)
    qed
  qed (use c(1,2,4) in \<open>auto simp: fld hs f\<close>)
qed

lemma deliver_redelivered:
  assumes q: "is_heap cmp q" and d: "\<forall>m \<in> set (deliveredMessage s). qm_status m = DELIVERABLE"
    and ms: "mset (deliveredMessage s @ q) = image_mset f (mset (held s))"
    and f: "f = id \<or> (\<exists>sm \<in> set (seqMessageHistory s @ sms). f = finalize_by sm)"
  shows "redelivered s (deliver_msg_from_deliveryqueue
    (s\<lparr>deliveryQueue := q, seqMessageHistory := seqMessageHistory s @ sms\<rparr>)) sms"
proof -
  obtain rest out where r: "deliver_loop q (deliveredMessage s) = (rest, deliveredMessage s @ out)"
    and dr: "dq.drained q rest out" using dq.loop_drains [OF q] by blast
  have "is_heap cmp rest" "mset q = mset out + mset rest" "\<forall>m \<in> set out. qm_status m = DELIVERABLE"
    using dr by (simp_all add: dq.drained_def)
  with r d ms f show ?thesis
    unfolding redelivered_def deliver_msg_from_deliveryqueue_def
    by (intro exI [of _ rest] exI [of _ "deliveredMessage s @ out"] exI [of _ f]) (auto simp: ac_simps)
qed

text \<open>The effect of the queue change and the deliveries that follow it.\<close>

lemma change_redelivered:
  assumes q: "queue_inv H i s" and sm: "sm \<in> set (seqMessageHistory s @ sms)"
    and ch: "change_queued_msg_seq_and_status (sm_sender sm) (sm_msg_id sm) (sm_final_seq sm)
      (sm_final_seq_proposer sm) DELIVERABLE (deliveryQueue s) = (rv, q)"
  shows "redelivered s (deliver_msg_from_deliveryqueue
      (s\<lparr>deliveryQueue := q, seqMessageHistory := seqMessageHistory s @ sms\<rparr>)) sms"
    and "rv = (if (sm_sender sm, sm_msg_id sm) \<in> uid ` set (deliveryQueue s) then 0 else - 1)"
    and "(sm_sender sm, sm_msg_id sm) \<notin> uid ` set (deliveryQueue s) \<Longrightarrow> q = deliveryQueue s"
proof -
  let ?u = "(sm_sender sm, sm_msg_id sm)"
  have heap: "is_heap cmp (deliveryQueue s)" and dist: "distinct (map uid (deliveredMessage s @ deliveryQueue s))"
    and del: "\<forall>m \<in> set (deliveredMessage s). qm_status m = DELIVERABLE"
    using q by (simp_all add: queue_inv_def held_def)
  have "rv = (if ?u \<in> uid ` set (deliveryQueue s) then 0 else - 1) \<and> is_heap cmp q \<and>
    (?u \<notin> uid ` set (deliveryQueue s) \<longrightarrow> q = deliveryQueue s) \<and>
    (\<exists>f. (f = id \<or> f = finalize_by sm) \<and> mset (deliveredMessage s @ q) = image_mset f (mset (held s)))"
  proof (cases "?u \<in> uid ` set (deliveryQueue s)")
    case True
    moreover have "distinct (map uid (deliveryQueue s))" using dist by simp
    ultimately obtain q' where "change_queued_msg_seq_and_status (sm_sender sm) (sm_msg_id sm)
        (sm_final_seq sm) (sm_final_seq_proposer sm) DELIVERABLE (deliveryQueue s) = (0, q')"
      "is_heap cmp q'" "mset q' = image_mset (finalize_by sm) (mset (deliveryQueue s))"
      using change_found by blast
    with ch have "rv = 0" "is_heap cmp q" "mset q = image_mset (finalize_by sm) (mset (deliveryQueue s))"
      by simp_all
    moreover have "?u \<notin> uid ` set (deliveredMessage s)" using True dist by auto
    then have "map (finalize_by sm) (deliveredMessage s) = deliveredMessage s" by (rule map_finalize_other)
    then have "image_mset (finalize_by sm) (mset (deliveredMessage s)) = mset (deliveredMessage s)"
      by (metis mset_map)
    ultimately show ?thesis using True by (auto simp: held_def)
  next
    case False
    then have "rv = - 1" "q = deliveryQueue s" using change_not_found [OF False] ch by simp_all
    with False heap show ?thesis by (auto simp: held_def)
  qed
  then obtain f where "is_heap cmp q" "f = id \<or> f = finalize_by sm"
    "mset (deliveredMessage s @ q) = image_mset f (mset (held s))"
    "rv = (if ?u \<in> uid ` set (deliveryQueue s) then 0 else - 1)"
    "?u \<notin> uid ` set (deliveryQueue s) \<longrightarrow> q = deliveryQueue s" by blast
  with sm del show "redelivered s (deliver_msg_from_deliveryqueue
      (s\<lparr>deliveryQueue := q, seqMessageHistory := seqMessageHistory s @ sms\<rparr>)) sms"
    and "rv = (if ?u \<in> uid ` set (deliveryQueue s) then 0 else - 1)"
    and "?u \<notin> uid ` set (deliveryQueue s) \<Longrightarrow> q = deliveryQueue s"
    by (blast intro: deliver_redelivered)+
qed

end
