(* ===== verification/GroupHandlers.thy ===== *)
theory GroupHandlers
  imports GroupFinal
begin

text \<open>
  The handlers of the protocol keep the invariant of the group, whichever way they end, and end a
  process only for reasons outside the protocol: an error of the network calls or a signed counter
  at its limit.
\<close>

section \<open>The invariant around one process\<close>

fun foreseen :: "exit_reason \<Rightarrow> bool" where
  "foreseen RecvFailed = True"
| "foreseen SendFailed = True"
| "foreseen MarkerSendFailed = True"
| "foreseen MarkerRecvFailed = True"
| "foreseen SignedOverflow = True"
| "foreseen _ = False"

text \<open>A message whose first word is one of the three tags.\<close>

definition known_type :: "u8 list \<Rightarrow> bool" where
  "known_type b \<longleftrightarrow> unpacku32 b 0 \<in> {ucast DATAMSG_TYPE, ucast ACKMSG_TYPE, ucast SEQMSG_TYPE}"

definition snap_known :: "CL_Global_Snapshot \<Rightarrow> bool" where
  "snap_known c \<longleftrightarrow> (\<forall>b \<in> set (inboundMessageBuffer c) \<union> set (outboundMessageBuffer c).
     length b = MAX_STRUCT_SIZE \<and> known_type b)"

definition good :: "string list \<Rightarrow> (nat \<Rightarrow> rm) \<Rightarrow> nat \<Rightarrow> rm \<Rightarrow> bool" where
  "good H st i s \<longleftrightarrow> i < length H \<and> sound_view H (st(i := s)) \<and> snap_known (snapshot s)"

definition good_outcome :: "string list \<Rightarrow> (nat \<Rightarrow> rm) \<Rightarrow> nat \<Rightarrow> outcome \<Rightarrow> bool" where
  "good_outcome H st i r \<longleftrightarrow> good H st i (state_of r) \<and>
     (\<forall>err s'. r = Inl (err, s') \<longrightarrow> foreseen err)"

lemma good_outcome_simps [simp]:
  "good_outcome H st i (Inr s) = good H st i s"
  "good_outcome H st i (Inl (err, s)) \<longleftrightarrow> good H st i s \<and> foreseen err"
  by (auto simp: good_outcome_def)

lemma goodD:
  assumes "good H st i s"
  shows "i < length H" "sound_view H (st(i := s))" "snap_known (snapshot s)" "local_inv H i s"
    "static_inv H i s" "counter_inv s" "hosts_ok H"
proof -
  show g: "i < length H" "sound_view H (st(i := s))" "snap_known (snapshot s)"
    using assms by (simp_all add: good_def)
  show "hosts_ok H" "local_inv H i s" using sound_viewD(1,2) [OF g(2,1)] .
  then show "static_inv H i s" "counter_inv s" by (simp_all add: local_inv_def)
qed

lemma good_update:
  "good H st i s \<Longrightarrow> sound_view H (st(i := s')) \<Longrightarrow> snapshot s' = snapshot s \<Longrightarrow> good H st i s'"
  by (simp add: good_def)

section \<open>Sending\<close>

lemma payload_known:
  assumes "local_inv H i s" "payload_ok H i s dst pkt"
  shows "length pkt = MAX_STRUCT_SIZE \<and> known_type pkt"
proof -
  have "acked_inv H i s" "seq_inv H i s" using assms(1) by (simp_all add: local_inv_def)
  with assms(2) show ?thesis
    by (auto simp: payload_ok_def known_type_def own_data_def acked_inv_def seq_inv_def)
qed

lemma transmit_known:
  assumes "transmit e dst pkt s = (rv, s')" "snap_known (snapshot s)"
    and "length pkt = MAX_STRUCT_SIZE" "known_type pkt"
  shows "snap_known (snapshot s')"
  using assms by (auto simp: transmit_def record_outbound_def snap_known_def Let_def split: if_splits)

lemma good_transmit:
  assumes g: "good H st i s" and t: "transmit e dst pkt s = (rv, s')" and ok: "payload_ok H i s dst pkt"
  shows "good H st i s'"
  unfolding good_def
proof (intro conjI)
  note gd = goodD [OF g]
  show "i < length H" by (rule gd)
  show "sound_view H (st(i := s'))" using gd(2,1) t ok by (rule sound_transmit)
  show "snap_known (snapshot s')"
    using t gd(3) payload_known [OF gd(4) ok] by (blast intro: transmit_known)
qed

lemma length_uninit_packet [simp]: "length (uninit_packet e s) = MAX_STRUCT_SIZE"
  by (simp add: uninit_packet_def)

lemma payload_data:
  "own_data H i s dm \<Longrightarrow> h \<noteq> H ! i \<Longrightarrow> length junk = MAX_STRUCT_SIZE \<Longrightarrow>
   payload_ok H i s h (serialize_data_message dm junk)"
  unfolding payload_ok_def by blast

lemma payload_ack:
  "a \<in> set (alreadyAckedMessages s) \<Longrightarrow> j < length H \<Longrightarrow> am_sender a = hidw H j \<Longrightarrow>
   length junk = MAX_STRUCT_SIZE \<Longrightarrow> payload_ok H i s (H ! j) (serialize_ack_message a junk)"
  unfolding payload_ok_def by blast

lemma payload_seq:
  "sm \<in> set (seqMessageHistory s) \<Longrightarrow> sm_sender sm = hidw H i \<Longrightarrow> h \<noteq> H ! i \<Longrightarrow>
   length junk = MAX_STRUCT_SIZE \<Longrightarrow> payload_ok H i s h (serialize_seq_message sm junk)"
  unfolding payload_ok_def by blast

section \<open>Bookkeeping around the handlers\<close>

lemma good_watchdogs:
  assumes g: "good H st i s" and w: "\<And>w. w \<in> set ws \<Longrightarrow> watchdog_ok H i s w"
  shows "good H st i (s\<lparr>watchdogs := ws\<rparr>)"
proof -
  note gd = goodD [OF g] and l = local_invD [OF goodD(4) [OF g]]
  have c: "same_core s (s\<lparr>watchdogs := ws\<rparr>)" by (simp add: same_core_def)
  have "watchdog_ok H i (s\<lparr>watchdogs := ws\<rparr>) w" if "w \<in> set ws" for w
    using w [OF that] same_core_grows [OF c] by (rule watchdog_ok_grows)
  then have wd: "watchdog_inv H i (s\<lparr>watchdogs := ws\<rparr>)" by (simp add: watchdog_inv_def)
  have out: "outbox_inv H i (s\<lparr>watchdogs := ws\<rparr>)"
    using l(9) same_core_grows [OF c] by (rule outbox_inv_grows) simp
  have "sound_view H (st(i := s\<lparr>watchdogs := ws\<rparr>))"
    by (rule sound_same_core [OF gd(2,1) c _ _ out wd])
      (use l in \<open>simp_all add: static_inv_def counter_inv_def\<close>)
  then show ?thesis using g by (intro good_update [OF g]) simp_all
qed

lemma good_counter:
  assumes g: "good H st i s" and n: "0 \<le> n" "n \<le> INT_MAX"
  shows "good H st i (s\<lparr>curr_seq_number := n\<rparr>)"
proof -
  note gd = goodD [OF g] and l = local_invD [OF goodD(4) [OF g]]
  have c: "same_core s (s\<lparr>curr_seq_number := n\<rparr>)" by (simp add: same_core_def)
  have "outbox_inv H i (s\<lparr>curr_seq_number := n\<rparr>)"
    using l(9) same_core_grows [OF c] by (rule outbox_inv_grows) simp
  moreover have "watchdog_inv H i (s\<lparr>curr_seq_number := n\<rparr>)"
    using l(10) same_core_grows [OF c] by (rule watchdog_inv_grows) simp
  ultimately have "sound_view H (st(i := s\<lparr>curr_seq_number := n\<rparr>))"
    using l n by (intro sound_same_core [OF gd(2,1) c]) (simp_all add: static_inv_def counter_inv_def)
  then show ?thesis using g by (intro good_update [OF g]) simp_all
qed

lemma good_received:
  assumes g: "good H st i s" and b: "length buf = MAX_STRUCT_SIZE"
  shows "good H st i (s\<lparr>msg_buf := buf, their_addr := src\<rparr>)"
proof -
  let ?s = "s\<lparr>msg_buf := buf, their_addr := src\<rparr>"
  note gd = goodD [OF g] and l = local_invD [OF goodD(4) [OF g]]
  have c: "same_core s ?s" by (simp add: same_core_def)
  have "outbox_inv H i ?s"
    using l(9) same_core_grows [OF c] by (rule outbox_inv_grows) simp
  moreover have "watchdog_inv H i ?s"
    using l(10) same_core_grows [OF c] by (rule watchdog_inv_grows) simp
  ultimately have "sound_view H (st(i := ?s))"
    using l b by (intro sound_same_core [OF gd(2,1) c]) (simp_all add: static_inv_def counter_inv_def)
  then show ?thesis using g by (intro good_update [OF g]) simp_all
qed

text \<open>A change that touches nothing but the snapshot daemon, counters of the model and the reader.\<close>

lemma good_irrelevant:
  assumes g: "good H st i s" and c: "same_core s s'"
    and "hostIDtoHostName s' = hostIDtoHostName s" "curr_seq_number s' = curr_seq_number s"
    and "msg_buf s' = msg_buf s" "outbox s' = outbox s" "watchdogs s' = watchdogs s"
    and "snap_known (snapshot s')"
  shows "good H st i s'"
  using sound_irrelevant [OF goodD(2,1) [OF g] c] assms by (simp add: good_def)

lemma incr_int_Some: "incr_int x = Some n \<Longrightarrow> x \<le> INT_MAX \<Longrightarrow> 0 \<le> x \<Longrightarrow> 0 \<le> n \<and> n \<le> INT_MAX \<and> n = x + 1"
  by (auto simp: incr_int_def split: if_splits)

lemma incr_seq_good:
  assumes "good H st i s"
  shows "good_outcome H st i (incr_seq_number s)"
proof -
  have "0 \<le> curr_seq_number s" "curr_seq_number s \<le> INT_MAX"
    using goodD(6) [OF assms] by (simp_all add: counter_inv_def)
  then show ?thesis
    using assms incr_int_Some [of "curr_seq_number s"]
    by (auto simp: incr_seq_number_def intro: good_counter split: option.splits)
qed

section \<open>Data messages\<close>

lemma transmit_frame:
  assumes "transmit e dst pkt s = (rv, s')"
  shows "alreadyAckedMessages s' = alreadyAckedMessages s" "seqMessageHistory s' = seqMessageHistory s"
    "ackHistory s' = ackHistory s" "curr_msg_id s' = curr_msg_id s"
    "deliveryQueue s' = deliveryQueue s" "deliveredMessage s' = deliveredMessage s"
    "dataHistory s' = dataHistory s" "current_container_name s' = current_container_name s"
    "num_hosts s' = num_hosts s" "current_container_id s' = current_container_id s"
    "hostNames s' = hostNames s"
  using transmit_fields(1) [OF assms] by (simp_all add: same_core_def)

lemma new_ack_fresh:
  assumes "find (\<lambda>am. am_sender am = w \<and> am_msg_id am = k) acks = None"
  shows "(w, k) \<notin> ack_uid ` set acks"
  using assms by (auto simp: find_None_iff ack_uid_def)

lemma handle_datamsg_known:
  assumes g: "good H st i s" and dm: "peer_data H st i j dm" and addr: "their_addr s = H ! j"
    and am: "am \<in> set (alreadyAckedMessages s)" "am_sender am = dm_sender dm"
  shows "good H st i (snd (reply_msg_with_drop_and_delay e (serialize_ack_message am junk) s))
    \<or> length junk \<noteq> MAX_STRUCT_SIZE"
proof (cases "length junk = MAX_STRUCT_SIZE")
  case True
  obtain rv s' where t: "transmit e (their_addr s) (serialize_ack_message am junk) s = (rv, s')"
    by fastforce
  have "payload_ok H i s (their_addr s) (serialize_ack_message am junk)"
    unfolding addr using am True dm by (intro payload_ack) (auto simp: peer_data_def own_data_def)
  with g t have "good H st i s'" by (rule good_transmit)
  with t show ?thesis by (simp add: reply_msg_with_drop_and_delay_def)
qed simp

lemma good_queue_received:
  assumes g: "good H st i s" and dm: "peer_data H st i j dm"
    and new: "(dm_sender dm, dm_msg_id dm) \<notin> ack_uid ` set (alreadyAckedMessages s)"
  shows "good H st i (queue_received dm s)"
  using sound_queue_received [OF goodD(2,1) [OF g] dm new]
  by (rule good_update [OF g]) (simp add: queue_received_def Let_def)

lemma good_ack_watchdog:
  assumes g: "good H st i s" and a: "a \<in> set (alreadyAckedMessages s)" "am_sender a = hidw H j" "j < length H"
  shows "(case subscript [] (hostIDtoHostName s) (hid H j) of (m, h) \<Rightarrow>
    good H st i (s\<lparr>hostIDtoHostName := m, watchdogs := watchdogs s @ [AckWatchdog a h 0]\<rparr>))"
proof -
  have "map_of (hostIDtoHostName s) (hid H j) = Some (H ! j)"
    using goodD(5) [OF g] a(3) by (simp add: static_inv_def)
  then have "subscript [] (hostIDtoHostName s) (hid H j) = (hostIDtoHostName s, H ! j)"
    by (rule subscript_present)
  moreover have "good H st i (s\<lparr>watchdogs := watchdogs s @ [AckWatchdog a (H ! j) 0]\<rparr>)"
    using g local_invD(10) [OF goodD(4) [OF g]] a
    by (intro good_watchdogs) (auto simp: watchdog_inv_def)
  ultimately show ?thesis by simp
qed

lemma handle_datamsg_new:
  assumes "find (\<lambda>am. am_sender am = dm_sender dm \<and> am_msg_id am = dm_msg_id dm)
      (alreadyAckedMessages s) = None" and st: "static_inv H i s"
  shows "handle_datamsg e dm s =
    (let s2 = queue_received dm s; a = received_ack H i dm s;
         s3 = snd (reply_msg_with_drop_and_delay e (serialize_ack_message a (uninit_packet e s2)) s2)
     in case incr_seq_number s3 of Inl err \<Rightarrow> Inl err
        | Inr s4 \<Rightarrow> (case subscript [] (hostIDtoHostName s4) (to_int (dm_sender dm)) of
            (m, h) \<Rightarrow> Inr (s4\<lparr>hostIDtoHostName := m, watchdogs := watchdogs s4 @ [AckWatchdog a h 0]\<rparr>)))"
  using assms(1) unfolding handle_datamsg_def
  by (simp add: Let_def push_queue_def queue_received_def received_ack_def static_id [OF st]
      split: sum.split prod.split)

lemma good_handle_datamsg:
  assumes g: "good H st i s" and dm: "peer_data H st i j dm" and addr: "their_addr s = H ! j"
  shows "good_outcome H st i (handle_datamsg e dm s)"
proof (cases "find (\<lambda>am. am_sender am = dm_sender dm \<and> am_msg_id am = dm_msg_id dm) (alreadyAckedMessages s)")
  case (Some am)
  then have "am \<in> set (alreadyAckedMessages s)" "am_sender am = dm_sender dm"
    by (auto dest: find_Some_memD)
  with handle_datamsg_known [OF g dm addr this, of e "uninit_packet e s"] Some show ?thesis
    by (simp add: handle_datamsg_def)
next
  case None
  let ?s2 = "queue_received dm s" and ?a = "received_ack H i dm s"
  note st = goodD(5) [OF g] and chg = queue_received_changes [OF goodD(5) [OF g]]
  have sj: "dm_sender dm = hidw H j" "j < length H" using dm by (auto simp: peer_data_def own_data_def)
  have g2: "good H st i ?s2" using g dm new_ack_fresh [OF None] by (rule good_queue_received)
  obtain rv s3 where t: "transmit e (H ! j) (serialize_ack_message ?a (uninit_packet e ?s2)) ?s2 = (rv, s3)"
    by fastforce
  have "payload_ok H i ?s2 (H ! j) (serialize_ack_message ?a (uninit_packet e ?s2))"
    using sj by (intro payload_ack) (simp_all add: chg)
  with g2 t have g3: "good H st i s3" by (rule good_transmit)
  have a3: "?a \<in> set (alreadyAckedMessages s3)" using transmit_frame(1) [OF t] by (simp add: chg)
  show ?thesis
  proof (cases "incr_seq_number s3")
    case (Inl x)
    with incr_seq_good [OF g3] t show ?thesis
      by (simp add: handle_datamsg_new [OF None st] reply_msg_with_drop_and_delay_def addr Let_def)
  next
    case (Inr s4)
    with incr_seq_good [OF g3] have g4: "good H st i s4" by simp
    have "?a \<in> set (alreadyAckedMessages s4)"
      using a3 Inr by (auto simp: incr_seq_number_def split: option.splits)
    with good_ack_watchdog [OF g4 this, of j] sj Inr t show ?thesis
      by (simp add: handle_datamsg_new [OF None st] reply_msg_with_drop_and_delay_def addr Let_def
          split: prod.splits)
  qed
qed

section \<open>Broadcasts\<close>

lemma good_broadcast_loop:
  assumes "good H st i s" "sm \<in> set (seqMessageHistory s)" "sm_sender sm = hidw H i"
    and "pkt = serialize_seq_message sm junk" "length junk = MAX_STRUCT_SIZE"
  shows "good_outcome H st i (broadcast_loop e pkt hs s) \<and>
    (\<forall>s'. broadcast_loop e pkt hs s = Inr s' \<longrightarrow> same_core s s' \<and> curr_seq_number s' = curr_seq_number s)"
  using assms
proof (induction hs arbitrary: s)
  case Nil
  then show ?case by (simp add: same_core_def)
next
  case (Cons h hs)
  show ?case
  proof (cases "h \<noteq> current_container_name s")
    case False
    with Cons show ?thesis by simp
  next
    case True
    obtain rv s1 where t: "transmit e h pkt s = (rv, s1)" by fastforce
    have "h \<noteq> H ! i" using True goodD(5) [OF Cons.prems(1)] by (simp add: static_inv_def)
    then have "payload_ok H i s h pkt" unfolding Cons.prems(4)
      using Cons.prems by (intro payload_seq) auto
    with Cons.prems(1) t have g1: "good H st i s1" by (rule good_transmit)
    have c: "same_core s s1" "curr_seq_number s1 = curr_seq_number s" by (rule transmit_fields [OF t])+
    have "sm \<in> set (seqMessageHistory s1)" using Cons.prems(2) c(1) by (simp add: same_core_def)
    from Cons.IH [OF g1 this Cons.prems(3-5)] c True t g1 show ?thesis
      by (auto simp: send_msg_with_drop_and_delay_def same_core_def)
  qed
qed

lemma good_multicast_loop:
  assumes "good H st i s" "own_data H i s dm" "set hs \<subseteq> set H"
    and "pkt = serialize_data_message dm junk" "length junk = MAX_STRUCT_SIZE"
  shows "good_outcome H st i (multicast_loop e dm pkt hs s)"
  using assms
proof (induction hs arbitrary: s)
  case (Cons h hs)
  show ?case
  proof (cases "h \<noteq> current_container_name s")
    case False
    with Cons show ?thesis by simp
  next
    case True
    obtain rv s1 where t: "transmit e h pkt s = (rv, s1)" by fastforce
    have h: "h \<noteq> H ! i" using True goodD(5) [OF Cons.prems(1)] by (simp add: static_inv_def)
    then have "payload_ok H i s h pkt" unfolding Cons.prems(4)
      using Cons.prems by (intro payload_data) auto
    with Cons.prems(1) t have g1: "good H st i s1" by (rule good_transmit)
    let ?s2 = "s1\<lparr>watchdogs := watchdogs s1 @ [DataWatchdog dm h 0]\<rparr>"
    have own1: "own_data H i s1 dm"
      using Cons.prems(2) same_core_grows [OF transmit_fields(1) [OF t]] by (rule own_data_grows)
    have "good H st i ?s2"
      using g1 local_invD(10) [OF goodD(4) [OF g1]] own1 h Cons.prems(3)
      by (intro good_watchdogs) (auto simp: watchdog_inv_def)
    moreover have "own_data H i ?s2 dm" using own1 by (simp add: own_data_def)
    moreover have "set hs \<subseteq> set H" using Cons.prems(3) by simp
    ultimately have "good_outcome H st i (multicast_loop e dm pkt hs ?s2)"
      using Cons.IH Cons.prems(4,5) by blast
    with True t g1 show ?thesis by (simp add: send_msg_with_drop_and_delay_def)
  qed
qed simp

lemma good_queue_own:
  assumes "good H st i s" "0 \<le> n" "n \<le> INT_MAX" "curr_msg_id s + 1 \<le> INT_MAX"
  shows "good H st i (queue_own d n s)"
  using sound_queue_own [OF goodD(2,1) [OF assms(1)] assms(2-4)]
  by (rule good_update [OF assms(1)]) (simp add: queue_own_def Let_def)

lemma multicast_datamsg_eq:
  "multicast_datamsg e data s =
     (case (incr_int (curr_msg_id s), incr_int (curr_seq_number s)) of
        (Some k, Some n) \<Rightarrow>
          let s4 = queue_own data n s;
              dm = \<lparr>dm_type = DATAMSG_TYPE, dm_sender = to_u32 (current_container_id s),
                    dm_msg_id = to_u32 (curr_msg_id s), dm_data = data\<rparr>
          in multicast_loop e dm (serialize_data_message dm (uninit_packet e s4))
               (take (nat (num_hosts s4)) (hostNames s4)) s4
      | _ \<Rightarrow> Inl (SignedOverflow, s))"
  by (auto simp: multicast_datamsg_def queue_own_def push_queue_def Let_def incr_int_def
      split: option.splits if_splits)

lemma good_multicast_datamsg:
  assumes g: "good H st i s"
  shows "good_outcome H st i (multicast_datamsg e data s)"
proof (cases "incr_int (curr_msg_id s) = None \<or> incr_int (curr_seq_number s) = None")
  case True
  with g show ?thesis by (auto simp: multicast_datamsg_eq split: option.splits)
next
  case False
  then obtain k n where kn: "incr_int (curr_msg_id s) = Some k" "incr_int (curr_seq_number s) = Some n"
    by auto
  note l = local_invD [OF goodD(4) [OF g]]
  have n: "0 \<le> n" "n \<le> INT_MAX" and k: "curr_msg_id s + 1 \<le> INT_MAX" "0 \<le> curr_msg_id s"
    using kn l(2) incr_int_Some by (auto simp: counter_inv_def)
  let ?s = "queue_own data n s"
  let ?dm = "\<lparr>dm_type = DATAMSG_TYPE, dm_sender = to_u32 (current_container_id s),
    dm_msg_id = to_u32 (curr_msg_id s), dm_data = data\<rparr>"
  have g4: "good H st i ?s" using g n k(1) by (rule good_queue_own)
  have "own_data H i ?s ?dm"
    using k static_id [OF l(1)] queue_own_maps(1) [OF goodD(4) [OF g]] by (auto simp: own_data_def)
  moreover have "set (take (nat (num_hosts ?s)) (hostNames ?s)) \<subseteq> set H"
    using l(1) by (auto simp: static_inv_def dest: in_set_takeD)
  ultimately show ?thesis
    using g4 kn by (simp add: multicast_datamsg_eq Let_def good_multicast_loop [OF g4])
qed

end
