(* ===== verification/GroupEvents.thy ===== *)
theory GroupEvents
  imports GroupHandlers
begin

text \<open>
  The remaining handlers, the watchdogs, the receiver with its decoding, and the snapshot daemon;
  together: every event of a process keeps the invariant of the group.
\<close>

section \<open>Acknowledgements\<close>

lemma deliver_snapshot [simp]: "snapshot (deliver_msg_from_deliveryqueue s) = snapshot s"
  by (simp add: deliver_msg_from_deliveryqueue_def split: prod.split)

lemma good_redelivered:
  assumes g: "good H st i s" and r: "redelivered s s' sms" and "\<And>sm. sm \<in> set sms \<Longrightarrow> peer_seq H st i sm"
  shows "good H st i s'"
proof (rule good_update [OF g])
  show "sound_view H (st(i := s'))" by (rule sound_redelivered [OF goodD(2,1) [OF g] r assms(3)])
  show "snapshot s' = snapshot s" using r by (auto simp: redelivered_def)
qed

lemma good_finalized:
  assumes g: "good H st i s" and sm: "sm \<in> set (seqMessageHistory s)"
    and ch: "change_queued_msg_seq_and_status (sm_sender sm) (sm_msg_id sm) (sm_final_seq sm)
      (sm_final_seq_proposer sm) DELIVERABLE (deliveryQueue s) = (rv, q)"
  shows "good H st i (deliver_msg_from_deliveryqueue (s\<lparr>deliveryQueue := q\<rparr>))"
proof -
  have "redelivered s (deliver_msg_from_deliveryqueue
      (s\<lparr>deliveryQueue := q, seqMessageHistory := seqMessageHistory s @ []\<rparr>)) []"
    using local_invD(3) [OF goodD(4) [OF g]] _ ch by (rule change_redelivered) (simp add: sm)
  from good_redelivered [OF g this] show ?thesis by simp
qed

lemma good_finalize_message:
  assumes g: "good H st i (s\<lparr>seqMessageHistory := seqMessageHistory s @ [sm]\<rparr>)"
    and a: "am_sender a = hidw H i"
    and sm: "sm = make_seq_msg (am_sender a) (am_msg_id a) fs fp"
    and mx: "get_max_sequence_from_proposerseq_map pm = (fs, fp)"
  shows "good_outcome H st i (finalize_message e a pm s)"
proof -
  let ?s1 = "s\<lparr>seqMessageHistory := seqMessageHistory s @ [sm]\<rparr>"
  have sms: "sm \<in> set (seqMessageHistory ?s1)" "sm_sender sm = hidw H i"
    using sm a by (simp_all add: make_seq_msg_def)
  have b: "good_outcome H st i (broadcast_seq_msg e sm ?s1)"
    "\<And>s'. broadcast_seq_msg e sm ?s1 = Inr s' \<Longrightarrow> same_core ?s1 s'"
    unfolding broadcast_seq_msg_def
    using good_broadcast_loop [OF g sms refl, of "uninit_packet e ?s1"] by auto
  show ?thesis
  proof (cases "broadcast_seq_msg e sm ?s1")
    case (Inl x)
    with b(1) mx show ?thesis by (simp add: finalize_message_def sm Let_def)
  next
    case (Inr s2)
    then have g2: "good H st i s2" and "sm \<in> set (seqMessageHistory s2)"
      using b(1) b(2) [OF Inr] by (simp_all add: same_core_def)
    from good_finalized [OF this] Inr mx show ?thesis
      by (auto simp: finalize_message_def sm make_seq_msg_def Let_def split: prod.split)
  qed
qed

lemma good_ack_recorded:
  assumes g: "good H st i s" and a: "peer_ack H st i j a"
    and pm: "map_of (ackHistory s) (to_int (am_msg_id a)) = Some pm" "map_of pm (hid H j) = None"
    and n: "incr_int (curr_seq_number s) = Some n"
    and sms: "completes H i a (map_insert (hid H j) (to_int (am_proposed_seq a)) pm) sms"
  shows "good H st i (ack_recorded a (map_insert (hid H j) (to_int (am_proposed_seq a)) pm) n sms s)"
proof (rule good_update [OF g])
  have "0 \<le> n" "n \<le> INT_MAX" using incr_int_Some [OF n] goodD(6) [OF g] by (auto simp: counter_inv_def)
  with goodD(2,1) [OF g] a pm show "sound_view H (st(i := ack_recorded a
      (map_insert (hid H j) (to_int (am_proposed_seq a)) pm) n sms s))"
    using sms by (intro sound_ack_recorded) auto
qed (simp add: ack_recorded_def)

lemma good_resend:
  assumes g: "good H st i s" and a: "peer_ack H st i j a" and addr: "their_addr s = H ! j"
    and pm: "map_of (ackHistory s) (to_int (am_msg_id a)) = Some pm" "length pm = length H"
  shows "good_outcome H st i (resend_seq_msg e a s)"
proof -
  let ?P = "\<lambda>sm. sm_msg_id sm = am_msg_id a \<and> sm_sender sm = am_sender a"
  note pa = peer_ackD [OF goodD(2,1) [OF g] a] and l = local_invD [OF goodD(4) [OF g]]
  have "1 < length H" using pa(1,2) goodD(1) [OF g] by linarith
  with pm l(6) obtain sm where "sm \<in> set (seqMessageHistory s)" "?P sm"
    using pa(3) unfolding seq_inv_def seq_uid_def by (metis Pair_inject to_u32_to_int)
  then obtain sm' where f: "find ?P (seqMessageHistory s) = Some sm'"
    by (metis (mono_tags, lifting) find_None_iff not_None_eq)
  then have sm': "sm' \<in> set (seqMessageHistory s)" "sm_sender sm' = hidw H i"
    using pa(3) by (auto dest: find_Some_memD)
  obtain rv s1 where t: "transmit e (H ! j) (serialize_seq_message sm' (uninit_packet e s)) s = (rv, s1)"
    by fastforce
  have "H ! j \<noteq> H ! i" using pa(1,2) goodD(1,7) [OF g] by (simp add: host_name_inject)
  with sm' have "payload_ok H i s (H ! j) (serialize_seq_message sm' (uninit_packet e s))"
    by (intro payload_seq) auto
  with g t have "good H st i s1" by (rule good_transmit)
  with f t show ?thesis
    by (simp add: resend_seq_msg_def reply_msg_with_drop_and_delay_def addr)
qed

lemma handle_ackmsg_known:
  assumes "map_of (ackHistory s) (to_int (am_msg_id a)) = Some pm"
  shows "handle_ackmsg e a s =
    (let prop = to_int (am_proposer a); pm' = map_insert prop (to_int (am_proposed_seq a)) pm in
     if map_of pm prop = None
     then (case incr_int (curr_seq_number s) of
             None \<Rightarrow> Inl (SignedOverflow, s)
           | Some n \<Rightarrow>
               if int (length pm') = num_hosts s then finalize_message e a pm' (ack_recorded a pm' n [] s)
               else Inr (ack_recorded a pm' n [] s))
     else if int (length pm) = num_hosts s then resend_seq_msg e a s else Inr s)"
  by (auto simp: handle_ackmsg_def subscript_present [OF assms] Let_def map_count_zero
      incr_seq_number_def ack_recorded_def split: option.split)

lemma good_handle_ackmsg:
  assumes g: "good H st i s" and a: "peer_ack H st i j a" and addr: "their_addr s = H ! j"
  shows "good_outcome H st i (handle_ackmsg e a s)"
proof -
  note gd = goodD [OF g] and pa = peer_ackD [OF goodD(2,1) [OF g] a]
  have nh: "num_hosts s = int (length H)" using gd(5) by (simp add: static_inv_def)
  obtain pm where pm: "map_of (ackHistory s) (to_int (am_msg_id a)) = Some pm"
    using local_invD(5) [OF gd(4)] pa(5) by (rule ack_history_at)
  let ?pm' = "map_insert (hid H j) (to_int (am_proposed_seq a)) pm"
  show ?thesis
  proof (cases "map_of pm (hid H j)")
    case (Some v)
    with pm show ?thesis
      using good_resend [OF g a addr pm] g by (simp add: handle_ackmsg_known [OF pm] pa(4) nh Let_def)
  next
    case None
    show ?thesis
    proof (cases "incr_int (curr_seq_number s)")
      case (Some n)
      let ?r = "\<lambda>sms. ack_recorded a ?pm' n sms s"
      have rec: "completes H i a ?pm' sms \<Longrightarrow> good H st i (?r sms)" for sms
        using g a pm None Some by (rule good_ack_recorded)
      show ?thesis
      proof (cases "length ?pm' = length H")
        case False
        then have "good H st i (?r [])" by (intro rec) (simp add: completes_def)
        with False None Some show ?thesis by (simp add: handle_ackmsg_known [OF pm] pa(4) nh Let_def)
      next
        case True
        obtain fs fp where mx: "get_max_sequence_from_proposerseq_map ?pm' = (fs, fp)" by fastforce
        let ?sm = "make_seq_msg (am_sender a) (am_msg_id a) fs fp"
        have "good H st i (?r [?sm])" using True mx pa(3) by (intro rec) (simp add: completes_def)
        moreover have "?r [?sm] = (?r [])\<lparr>seqMessageHistory := seqMessageHistory (?r []) @ [?sm]\<rparr>"
          by (simp add: ack_recorded_def)
        ultimately have "good_outcome H st i (finalize_message e a ?pm' (?r []))"
          using good_finalize_message [OF _ pa(3) refl mx] by simp
        with True None Some show ?thesis by (simp add: handle_ackmsg_known [OF pm] pa(4) nh Let_def)
      qed
    qed (use g None in \<open>simp add: handle_ackmsg_known [OF pm] pa(4) Let_def\<close>)
  qed
qed

section \<open>Sequence messages\<close>

lemma peer_seq_held:
  assumes g: "good H st i s" and sm: "peer_seq H st i sm"
  shows "(sm_sender sm, sm_msg_id sm) \<in> uid ` set (held s)"
proof -
  note gd = goodD [OF g]
  obtain j where j: "j < length H" "j \<noteq> i" and m: "sm \<in> set (seqMessageHistory (st j))" "sm_sender sm = hidw H j"
    using sm unfolding peer_seq_def by blast
  note lj = local_invD [OF sound_viewD(5) [OF gd(2,1) j]]
  from lj(6) m have "final_of H j (st j) sm" by (simp add: seq_inv_def)
  then obtain k pm where k: "sm_msg_id sm = to_u32 k" "map_of (ackHistory (st j)) k = Some pm"
    "length pm = length H" unfolding final_of_def by blast
  from lj(5) k(2) have ok: "map_ok pm" "dom (map_of pm) \<subseteq> host_ids H" by (auto simp: ack_history_inv_def)
  have "dom (map_of pm) = host_ids H"
    using ok finite_host_ids by (rule smap.full_map) (simp add: k(3) card_host_ids gd(7))
  then have "hid H i \<in> dom (map_of pm)" using gd(1) by (simp add: host_ids_def)
  then obtain v where "map_of pm (hid H i) = Some v" by blast
  from crossD(4) [OF sound_viewD(4) [OF gd(2,1) j] k(2) this]
  have "(hidw H j, to_u32 k) \<in> ack_uid ` set (alreadyAckedMessages s)" by force
  then show ?thesis
    using local_invD(3) [OF gd(4)] m(2) k(1) by (simp add: queue_inv_def)
qed

lemma good_handle_seqmsg:
  assumes g: "good H st i s" and sm: "peer_seq H st i sm"
  shows "good_outcome H st i (handle_seqmsg e sm s)"
proof -
  note q = local_invD(3) [OF goodD(4) [OF g]]
  obtain rv q' where ch: "change_queued_msg_seq_and_status (sm_sender sm) (sm_msg_id sm)
      (sm_final_seq sm) (sm_final_seq_proposer sm) DELIVERABLE (deliveryQueue s) = (rv, q')"
    by fastforce
  have mem: "sm \<in> set (seqMessageHistory s @ [sm])" by simp
  note ch' = change_redelivered [OF q mem ch]
  show ?thesis
  proof (cases "(sm_sender sm, sm_msg_id sm) \<in> uid ` set (deliveryQueue s)")
    case True
    with ch'(2) have "rv = 0" by simp
    moreover have "good H st i (deliver_msg_from_deliveryqueue
        (s\<lparr>deliveryQueue := q', seqMessageHistory := seqMessageHistory s @ [sm]\<rparr>))"
      using g ch'(1) by (rule good_redelivered) (simp add: sm)
    ultimately show ?thesis by (simp add: handle_seqmsg_def ch)
  next
    case False
    with ch'(2,3) have "rv = - 1" "q' = deliveryQueue s" by simp_all
    moreover have "(sm_sender sm, sm_msg_id sm) \<in> uid ` set (deliveredMessage s)"
      using False peer_seq_held [OF g sm] by (auto simp: held_def)
    then have "list_ex (is_msg (sm_sender sm) (sm_msg_id sm)) (deliveredMessage s)"
      by (auto simp: list_ex_iff is_msg_uid)
    ultimately show ?thesis using g by (simp add: handle_seqmsg_def ch)
  qed
qed

section \<open>Watchdogs\<close>

lemma set_remove_nth: "set (remove_nth k xs) \<subseteq> set xs"
  by (auto simp: remove_nth_def dest: in_set_takeD in_set_dropD)

text \<open>A pass of a watchdog that is in order.\<close>

lemma good_data_pass:
  assumes g: "good H st i s" and w: "own_data H i s dm" "h \<noteq> H ! i"
  shows "(case datamsg_watchdog_pass e dm h s of
      Inl (err, s') \<Rightarrow> foreseen err \<and> good H st i s'
    | Inr (b, s') \<Rightarrow> good H st i s' \<and> watchdogs s' = watchdogs s \<and> grows s s')"
proof -
  obtain k where k: "0 \<le> k" "k < curr_msg_id s" "dm_msg_id dm = to_u32 k"
    using w(1) by (auto simp: own_data_def)
  have "k \<in> int_range" using goodD(6) [OF g] k(1,2) by (rule msg_id_in_range)
  moreover have "k \<in> {0..<curr_msg_id s}" using k(1,2) by simp
  with local_invD(5) [OF goodD(4) [OF g]] obtain pm where "map_of (ackHistory s) k = Some pm"
    by (rule ack_history_at)
  ultimately have pm: "map_of (ackHistory s) (to_int (dm_msg_id dm)) = Some pm" by (simp add: k(3))
  obtain rv s1 where t: "transmit e h (serialize_data_message dm (uninit_packet e s)) s = (rv, s1)"
    by fastforce
  have "payload_ok H i s h (serialize_data_message dm (uninit_packet e s))"
    using w by (intro payload_data) auto
  with g t have "good H st i s1" by (rule good_transmit)
  with g pm t transmit_fields(5) [OF t] same_core_grows [OF transmit_fields(1) [OF t]] show ?thesis
    by (simp add: datamsg_watchdog_pass_def send_msg_with_drop_and_delay_def)
qed

lemma good_ack_pass:
  assumes g: "good H st i s"
    and w: "a \<in> set (alreadyAckedMessages s)" "j < length H" "am_sender a = hidw H j"
  shows "(case ackmsg_watchdog_pass e a (H ! j) s of
      Inl (err, s') \<Rightarrow> foreseen err \<and> good H st i s'
    | Inr (b, s') \<Rightarrow> good H st i s' \<and> watchdogs s' = watchdogs s \<and> grows s s')"
proof -
  obtain rv s1 where t: "transmit e (H ! j) (serialize_ack_message a (uninit_packet e s)) s = (rv, s1)"
    by fastforce
  have "payload_ok H i s (H ! j) (serialize_ack_message a (uninit_packet e s))"
    using w by (intro payload_ack) auto
  with g t have "good H st i s1" by (rule good_transmit)
  with g t transmit_fields(5) [OF t] same_core_grows [OF transmit_fields(1) [OF t]] show ?thesis
    by (simp add: ackmsg_watchdog_pass_def send_msg_with_drop_and_delay_def)
qed

lemma good_watchdog_pass:
  assumes g: "good H st i s" and w: "watchdog_ok H i s w"
  shows "(case watchdog_pass e w s of
      Inl (err, s') \<Rightarrow> foreseen err \<and> good H st i s'
    | Inr (b, s') \<Rightarrow> good H st i s' \<and> watchdogs s' = watchdogs s \<and> grows s s')"
proof (cases w)
  case (DataWatchdog dm h n)
  with w g show ?thesis using good_data_pass [of H st i s dm h e] by simp
next
  case (AckWatchdog a h n)
  with w obtain j where "a \<in> set (alreadyAckedMessages s)" "j < length H" "h = H ! j" "am_sender a = hidw H j"
    by auto
  with AckWatchdog g show ?thesis using good_ack_pass [of H st i s a j e] by simp
qed

lemma watchdog_ok_next [simp]: "watchdog_ok H i s (next_attempt w) = watchdog_ok H i s w"
  by (cases w) simp_all

lemma good_watchdog_turn:
  assumes g: "good H st i s"
  shows "good_outcome H st i (watchdog_turn e k s)"
proof (cases "k < length (watchdogs s)")
  case True
  let ?w = "watchdogs s ! k"
  have all: "watchdog_ok H i s w" if "w \<in> set (watchdogs s)" for w
    using local_invD(10) [OF goodD(4) [OF g]] that by (simp add: watchdog_inv_def)
  then have w: "watchdog_ok H i s ?w" using True by simp
  show ?thesis
  proof (cases "attempts ?w < WATCHDOG_RESEND_CAP")
    case False
    have "good H st i (s\<lparr>watchdogs := remove_nth k (watchdogs s)\<rparr>)"
      by (rule good_watchdogs [OF g all]) (rule subsetD [OF set_remove_nth])
    with True False show ?thesis by (simp add: watchdog_turn_def)
  next
    case cap: True
    show ?thesis
    proof (cases "watchdog_pass e ?w s")
      case (Inl x)
      with good_watchdog_pass [OF g w, of e] True cap show ?thesis
        by (cases x) (simp add: watchdog_turn_def)
    next
      case (Inr y)
      obtain b s1 where y: "y = (b, s1)" by fastforce
      with Inr good_watchdog_pass [OF g w, of e] have s1: "good H st i s1" "watchdogs s1 = watchdogs s"
        "grows s s1" by simp_all
      let ?ws = "if b then remove_nth k (watchdogs s1) else (watchdogs s1)[k := next_attempt ?w]"
      have sub: "set ?ws \<subseteq> insert (next_attempt ?w) (set (watchdogs s))"
        using set_remove_nth [of k "watchdogs s"] set_update_subset_insert [of "watchdogs s" k]
        by (auto simp: s1(2))
      have "watchdog_ok H i s1 v" if "v \<in> set ?ws" for v
      proof -
        have "watchdog_ok H i s v" using subsetD [OF sub that] all w by auto
        then show ?thesis using s1(3) by (rule watchdog_ok_grows)
      qed
      with s1(1) have "good H st i (s1\<lparr>watchdogs := ?ws\<rparr>)" by (rule good_watchdogs)
      with True cap Inr y show ?thesis by (simp add: watchdog_turn_def)
    qed
  qed
qed (use g in \<open>simp add: watchdog_turn_def\<close>)

section \<open>The receiver\<close>

text \<open>What process \<open>j\<close> may have sent to process \<open>i\<close>, as \<open>i\<close> decodes it.\<close>

definition from_peer :: "string list \<Rightarrow> (nat \<Rightarrow> rm) \<Rightarrow> nat \<Rightarrow> nat \<Rightarrow> u8 list \<Rightarrow> bool" where
  "from_peer H st i j b \<longleftrightarrow> length b = MAX_STRUCT_SIZE \<and>
     (unpacku32 b 0 = ucast DATAMSG_TYPE \<and> peer_data H st i j (deserialize_data_message b) \<or>
      unpacku32 b 0 = ucast ACKMSG_TYPE \<and> peer_ack H st i j (deserialize_ack_message b) \<or>
      unpacku32 b 0 = ucast SEQMSG_TYPE \<and> peer_seq H st i (deserialize_seq_message b))"

lemma from_peerI:
  assumes H: "hosts_ok H" "i < length H" "j < length H"
    and l: "local_inv H j (st j)" and p: "payload_ok H j (st j) (H ! i) b"
  shows "j \<noteq> i" "from_peer H st i j b"
proof -
  note lj = local_invD [OF l]
  obtain junk where junk: "length junk = MAX_STRUCT_SIZE" and
    "(\<exists>dm. own_data H j (st j) dm \<and> b = serialize_data_message dm junk \<and> H ! i \<noteq> H ! j) \<or>
     (\<exists>a k. a \<in> set (alreadyAckedMessages (st j)) \<and> k < length H \<and> am_sender a = hidw H k \<and>
          H ! i = H ! k \<and> b = serialize_ack_message a junk) \<or>
     (\<exists>sm. sm \<in> set (seqMessageHistory (st j)) \<and> sm_sender sm = hidw H j \<and> H ! i \<noteq> H ! j \<and>
          b = serialize_seq_message sm junk)"
    using p unfolding payload_ok_def by blast
  then consider (data) dm where "own_data H j (st j) dm" "b = serialize_data_message dm junk" "j \<noteq> i"
    | (ack) a k where "a \<in> set (alreadyAckedMessages (st j))" "k < length H" "am_sender a = hidw H k"
        "H ! i = H ! k" "b = serialize_ack_message a junk"
    | (sq) sm where "sm \<in> set (seqMessageHistory (st j))" "sm_sender sm = hidw H j" "j \<noteq> i"
        "b = serialize_seq_message sm junk" by blast
  then have "j \<noteq> i \<and> from_peer H st i j b"
  proof cases
    case data
    then show ?thesis using junk H(3) by (auto simp: from_peer_def peer_data_def own_data_def)
  next
    case ack
    then have "k = i" using H by (simp add: host_name_inject)
    moreover have "j \<noteq> i" "am_type a = ACKMSG_TYPE"
      using ack(1,3) lj(4) H calculation by (auto simp: acked_inv_def hidw_inject)
    ultimately show ?thesis using ack junk H(3) by (simp add: from_peer_def peer_ack_def)
  next
    case sq
    then have "sm_type sm = SEQMSG_TYPE" using lj(6) by (simp add: seq_inv_def)
    with sq junk H(3) show ?thesis by (auto simp: from_peer_def peer_seq_def)
  qed
  then show "j \<noteq> i" "from_peer H st i j b" by simp_all
qed

lemma dispatch_good:
  assumes g: "good H st i s" and b: "from_peer H st i j (msg_buf s)" and addr: "their_addr s = H ! j"
  shows "good_outcome H st i (dispatch e s)"
  using b good_handle_datamsg [OF g _ addr] good_handle_ackmsg [OF g _ addr] good_handle_seqmsg [OF g]
  by (auto simp: from_peer_def dispatch_def Let_def DATAMSG_TYPE_def ACKMSG_TYPE_def SEQMSG_TYPE_def)

lemma recv_into_whole:
  "length buf = MAX_STRUCT_SIZE \<Longrightarrow> length payload = MAX_STRUCT_SIZE \<Longrightarrow>
   recv_into buf payload = Some payload"
  by (simp add: recv_into_def MAX_STRUCT_SIZE_def MAX_MSG_SIZE_def)

lemma good_record_inbound:
  assumes g: "good H st i s" and k: "known_type (msg_buf s)"
  shows "good H st i (record_inbound s)"
proof (cases "recordMessages s")
  case True
  have "length (msg_buf s) = MAX_STRUCT_SIZE" using goodD(5) [OF g] by (simp add: static_inv_def)
  with True k goodD(3) [OF g] show ?thesis
    by (intro good_irrelevant [OF g]) (auto simp: record_inbound_def same_core_def snap_known_def)
qed (use g in \<open>simp add: record_inbound_def\<close>)

lemma record_inbound_fields [simp]:
  "msg_buf (record_inbound s) = msg_buf s" "their_addr (record_inbound s) = their_addr s"
  by (simp_all add: record_inbound_def)

lemma good_receiver_turn:
  assumes g: "good H st i s"
    and p: "\<And>p. r = Some p \<Longrightarrow> \<exists>j. p_src p = H ! j \<and> from_peer H st i j (p_payload p)"
  shows "good_outcome H st i (msg_receiver_turn e r s)"
proof (cases "recv_cap s < RECV_CAP \<and> r \<noteq> None")
  case True
  then obtain p where r: "r = Some p" by blast
  with p obtain j where j: "p_src p = H ! j" "from_peer H st i j (p_payload p)" by blast
  then have len: "length (p_payload p) = MAX_STRUCT_SIZE" by (simp add: from_peer_def)
  have buf: "recv_into (msg_buf s) (p_payload p) = Some (p_payload p)"
    using goodD(5) [OF g] len by (intro recv_into_whole) (simp_all add: static_inv_def)
  let ?s1 = "s\<lparr>msg_buf := p_payload p, their_addr := p_src p\<rparr>"
  have "good H st i ?s1" using g len by (rule good_received)
  moreover have "known_type (p_payload p)" using j(2) by (auto simp: from_peer_def known_type_def)
  ultimately have "good H st i (record_inbound ?s1)" by (intro good_record_inbound) simp_all
  then have d: "good_outcome H st i (dispatch e (record_inbound ?s1))"
    using j by (intro dispatch_good [where j = j]) simp_all
  have cap: "good H st i (t\<lparr>recv_cap := n\<rparr>)" if "good H st i t" for t n
    using that by (intro good_irrelevant [OF that]) (simp_all add: same_core_def good_def)
  show ?thesis
    using True d r buf cap by (auto simp: msg_receiver_turn_def split: sum.split)
qed (use g in \<open>auto simp: msg_receiver_turn_def\<close>)

end
