(* ===== verification/SnapshotSteps.thy ===== *)
theory SnapshotSteps
  imports GroupEvents
begin

text \<open>
  The steps of the snapshot daemon: they leave the multicast alone, keep the recorded messages
  decodable, and file them without loss.
\<close>

section \<open>What the daemon does not touch\<close>

definition quiet :: "rm \<Rightarrow> rm \<Rightarrow> bool" where
  "quiet s s' \<longleftrightarrow> same_core s s' \<and> hostIDtoHostName s' = hostIDtoHostName s \<and>
     curr_seq_number s' = curr_seq_number s \<and> msg_buf s' = msg_buf s \<and> outbox s' = outbox s \<and>
     watchdogs s' = watchdogs s \<and> drop_rate s' = drop_rate s \<and> recv_cap s' = recv_cap s"

lemma quiet_refl [simp]: "quiet s s"
  by (simp add: quiet_def same_core_def)

lemma quiet_trans: "quiet s t \<Longrightarrow> quiet t u \<Longrightarrow> quiet s u"
  by (simp add: quiet_def same_core_def)

lemma quiet_updates [frame, simp]:
  "quiet s (s\<lparr>snapshot := c\<rparr>)" "quiet s (s\<lparr>recordMessages := b\<rparr>)" "quiet s (s\<lparr>listener_pc := pc\<rparr>)"
  "quiet s (s\<lparr>marker_buf := m\<rparr>)" "quiet s (s\<lparr>ticks := t\<rparr>)" "quiet s (s\<lparr>marker_outbox := mo\<rparr>)"
  by (simp_all add: quiet_def same_core_def)

lemma good_quiet: "good H st i s \<Longrightarrow> quiet s s' \<Longrightarrow> snap_known (snapshot s') \<Longrightarrow> good H st i s'"
  by (rule good_irrelevant) (simp_all add: quiet_def)

text \<open>The steps below keep the daemon's buffers decodable and are invisible to the multicast.\<close>

definition calm :: "rm \<Rightarrow> rm \<Rightarrow> bool" where
  "calm s s' \<longleftrightarrow> quiet s s' \<and> (snap_known (snapshot s) \<longrightarrow> snap_known (snapshot s'))"

lemma calm_trans: "calm s t \<Longrightarrow> calm t u \<Longrightarrow> calm s u"
  unfolding calm_def using quiet_trans by blast

lemma good_calm: "good H st i s \<Longrightarrow> calm s s' \<Longrightarrow> good H st i s'"
  using good_quiet goodD(3) by (auto simp: calm_def)

lemma calm_steps [frame, intro]:
  "calm s s" "calm s (take_local_snapshot s)" "calm s (tell_rm_to_start_recording_channel s)"
  "calm s (tell_rm_to_stop_recording s)" "calm s (mark_received p s)"
  "calm s (s\<lparr>marker_buf := m\<rparr>)" "calm s (s\<lparr>listener_pc := pc\<rparr>)"
  "calm s (s\<lparr>snapshot := (snapshot s)\<lparr>amInitiator := b\<rparr>\<rparr>)"
  by (simp_all add: calm_def take_local_snapshot_def tell_rm_to_start_recording_channel_def
      tell_rm_to_stop_recording_def mark_received_def snap_known_def)

lemma calm_finish [intro]: "calm s (finish_snapshot s)"
  unfolding finish_snapshot_def by (rule calm_trans) (rule calm_steps)+

section \<open>Markers\<close>

lemma calm_marker_loop:
  "calm s (state_of (marker_loop e hs s)) \<and>
   (\<forall>err s'. marker_loop e hs s = Inl (err, s') \<longrightarrow> err = MarkerSendFailed)"
proof (induction hs arbitrary: s)
  case (Cons h hs)
  let ?s1 = "s\<lparr>ticks := Suc (ticks s)\<rparr>"
  have c: "calm s ?s1" "calm s (?s1\<lparr>marker_outbox := mo\<rparr>)" for mo
    by (simp_all add: calm_def quiet_def same_core_def)
  have further: "calm s (state_of (marker_loop e hs t))" if "calm s t" for t
    using calm_trans [OF that] Cons.IH by blast
  have reason: "marker_loop e hs t = Inl (err, s') \<Longrightarrow> err = MarkerSendFailed" for t err s'
    using Cons.IH by blast
  show ?case
    by (auto simp: Let_def c further [OF c(1)] further [OF c(2)] further [OF calm_steps(1)]
        dest: reason split: connect_outcome.split)
qed auto

lemma good_broadcast_markers:
  assumes "good H st i s"
  shows "good_outcome H st i (broadcast_markers e s)"
  using calm_marker_loop [of s e "take (nat (snap_num_hosts (snapshot s))) (snap_hostNames (snapshot s))"]
    good_calm [OF assms]
  by (auto simp: good_outcome_def broadcast_markers_def)

lemma good_initiate_snapshot:
  assumes "good H st i s"
  shows "good_outcome H st i (initiate_snapshot e s)"
proof -
  let ?s1 = "take_local_snapshot s"
  let ?s2 = "?s1\<lparr>snapshot := (snapshot ?s1)\<lparr>amInitiator := True\<rparr>\<rparr>"
  have "good H st i ?s1" using assms calm_steps(2) by (rule good_calm)
  then have "good H st i ?s2" using calm_steps(8) by (rule good_calm)
  then have "good H st i (tell_rm_to_start_recording_channel ?s2)" using calm_steps(3) by (rule good_calm)
  then show ?thesis unfolding initiate_snapshot_def Let_def by (rule good_broadcast_markers)
qed

section \<open>Filing the recorded messages\<close>

lemma known_classified:
  assumes "known_type b"
  shows "\<exists>p t. classify_message b = Inr (p, t)"
  using assms by (auto simp: classify_message_def known_type_def Let_def)

lemma add_msg_buffers [simp]:
  "inboundMessageBuffer (add_msg_to_inbound p t c) = inboundMessageBuffer c"
  "outboundMessageBuffer (add_msg_to_inbound p t c) = outboundMessageBuffer c"
  "inboundMessageBuffer (add_msg_to_outbound p t c) = inboundMessageBuffer c"
  "outboundMessageBuffer (add_msg_to_outbound p t c) = outboundMessageBuffer c"
  by (simp_all add: add_msg_to_inbound_def add_msg_to_outbound_def)

lemma drain_known:
  "\<forall>b \<in> set bs. length b = MAX_STRUCT_SIZE \<and> known_type b \<Longrightarrow>
   \<exists>c'. drain_messages d bs c = Inr c' \<and> inboundMessageBuffer c' = inboundMessageBuffer c \<and>
     outboundMessageBuffer c' = outboundMessageBuffer c"
proof (induction bs arbitrary: c)
  case (Cons b bs)
  then have "known_type b" by simp
  then obtain p t where cl: "classify_message b = Inr (p, t)" using known_classified by blast
  define c1 where "c1 = (case d of INBOUND \<Rightarrow> add_msg_to_inbound p t c
                                | OUTBOUND \<Rightarrow> add_msg_to_outbound p t c)"
  have h: "handle_message (take MAX_STRUCT_SIZE b) d c = Inr c1"
    using Cons.prems cl by (simp add: handle_message_def c1_def)
  have same: "inboundMessageBuffer c1 = inboundMessageBuffer c"
    "outboundMessageBuffer c1 = outboundMessageBuffer c"
    by (simp_all add: c1_def split: direction.split)
  have "\<forall>b \<in> set bs. length b = MAX_STRUCT_SIZE \<and> known_type b" using Cons.prems by simp
  from Cons.IH [OF this, of c1] h same show ?case by simp
qed simp

lemma drains_known:
  assumes "snap_known c"
  obtains c1 c2 where "drain_inbound c = Inr c1" "drain_outbound c1 = Inr c2" "snap_known c1" "snap_known c2"
    "inboundMessageBuffer c2 = []" "outboundMessageBuffer c2 = []"
proof -
  obtain b1 where b1: "drain_messages INBOUND (inboundMessageBuffer c) c = Inr b1"
    "outboundMessageBuffer b1 = outboundMessageBuffer c"
    using assms drain_known [of "inboundMessageBuffer c" INBOUND c] by (auto simp: snap_known_def)
  let ?c1 = "b1\<lparr>inboundMessageBuffer := []\<rparr>"
  have 1: "drain_inbound c = Inr ?c1" using b1 by (simp add: drain_inbound_def)
  obtain b2 where b2: "drain_messages OUTBOUND (outboundMessageBuffer ?c1) ?c1 = Inr b2"
    "inboundMessageBuffer b2 = []"
    using assms b1(2) drain_known [of "outboundMessageBuffer ?c1" OUTBOUND ?c1]
    by (auto simp: snap_known_def)
  let ?c2 = "b2\<lparr>outboundMessageBuffer := []\<rparr>"
  have "drain_outbound ?c1 = Inr ?c2" using b2 by (simp add: drain_outbound_def)
  moreover have "snap_known ?c1" "snap_known ?c2" using assms b1(2) b2(2) by (auto simp: snap_known_def)
  ultimately show thesis using 1 b2(2) by (intro that [of ?c1 ?c2]) simp_all
qed

section \<open>The listener\<close>

lemma good_process_marker:
  assumes g: "good H st i s"
  shows "good_outcome H st i (process_marker s)"
proof (cases "markers_missing s")
  case False
  have "good H st i (finish_snapshot s)" using g calm_finish by (rule good_calm)
  with False show ?thesis by (simp add: process_marker_def)
next
  case True
  obtain c1 c2 where c: "drain_inbound (snapshot s) = Inr c1" "drain_outbound c1 = Inr c2" "snap_known c2"
    using goodD(3) [OF g] by (rule drains_known)
  have "good H st i (s\<lparr>snapshot := c2\<rparr>)" using g c(3) by (intro good_quiet [OF g]) simp_all
  then have m: "good H st i (mark_received (marker_id s) (s\<lparr>snapshot := c2\<rparr>))"
    by (rule good_calm) (rule calm_steps)
  have "good H st i (finish_snapshot (mark_received (marker_id s) (s\<lparr>snapshot := c2\<rparr>)))"
    using m calm_finish by (rule good_calm)
  moreover have "good H st i (mark_received (marker_id s) (s\<lparr>snapshot := c2\<rparr>)\<lparr>listener_pc := AwaitNext\<rparr>)"
    using m by (rule good_calm) (rule calm_steps)
  ultimately show ?thesis using True c(1,2) by (simp add: process_marker_def Let_def)
qed

lemma good_first_marker:
  assumes g: "good H st i s"
  shows "good_outcome H st i (first_marker e s)"
proof (cases "amInitiator (snapshot s)")
  case True
  with g show ?thesis by (simp add: first_marker_def good_process_marker)
next
  case False
  let ?s3 = "tell_rm_to_start_recording_channel (take_local_snapshot (mark_received (marker_id s) s))"
  have "good H st i (mark_received (marker_id s) s)" using g calm_steps(5) by (rule good_calm)
  then have "good H st i (take_local_snapshot (mark_received (marker_id s) s))"
    using calm_steps(2) by (rule good_calm)
  then have "good H st i ?s3" using calm_steps(3) by (rule good_calm)
  then have b: "good_outcome H st i (broadcast_markers e ?s3)" by (rule good_broadcast_markers)
  show ?thesis
  proof (cases "broadcast_markers e ?s3")
    case (Inl x)
    with b False show ?thesis by (simp add: first_marker_def Let_def)
  next
    case (Inr s4)
    with b have g4: "good H st i s4" by simp
    have "good H st i (s4\<lparr>listener_pc := AwaitNext\<rparr>)" "good H st i (finish_snapshot s4)"
      using good_calm [OF g4] by blast+
    with Inr False show ?thesis by (simp add: first_marker_def Let_def)
  qed
qed

lemma good_accept:
  assumes "good H st i s"
  shows "good_outcome H st i (accept_and_recv r s)"
  using assms good_calm [OF assms] by (cases r) auto

lemma good_listener_turn:
  assumes g: "good H st i s"
  shows "good_outcome H st i (listener_turn e r s)"
  using g good_accept [OF g, of r] good_first_marker good_process_marker
  by (auto simp: listener_turn_def split: listener_pc.split sum.split)

section \<open>Every event\<close>

lemma good_event:
  assumes g: "good H st i s"
    and p: "\<And>p. ev = Receive (Some p) \<Longrightarrow> \<exists>j. p_src p = H ! j \<and> from_peer H st i j (p_payload p)"
  shows "good_outcome H st i (process_event e ev s)"
  using g p good_multicast_datamsg [OF g] good_receiver_turn [OF g] good_watchdog_turn [OF g]
    good_initiate_snapshot [OF g] good_listener_turn [OF g]
  by (cases ev) simp_all

end
