(* ===== verification/GroupReach.thy ===== *)
theory GroupReach
  imports SnapshotSteps
begin

text \<open>
  The invariant holds in every reachable state of the group: the constructors establish it and
  every step keeps it, whatever the network, the drops and the errors of the system calls do.
\<close>

section \<open>The initial group\<close>

lemma fill_host_map_keeps:
  "map_ok m \<Longrightarrow> map_of m k = Some v \<Longrightarrow> map_of (fill_host_map hs m) k = Some v"
proof (induction hs arbitrary: m)
  case (Cons h hs)
  then have "map_of (map_insert (extract_int_from_string h) h m) k = Some v"
    by (auto simp: map_of_insert)
  with Cons show ?case by simp
qed simp

lemma map_ok_fill_host_map [simp]: "map_ok m \<Longrightarrow> map_ok (fill_host_map hs m)"
  by (induction hs arbitrary: m) simp_all

lemma fill_host_map_finds:
  assumes "map_ok m" "distinct (map extract_int_from_string hs)" "h \<in> set hs"
    and "\<forall>h \<in> set hs. map_of m (extract_int_from_string h) = None"
  shows "map_of (fill_host_map hs m) (extract_int_from_string h) = Some h"
  using assms
proof (induction hs arbitrary: m)
  case (Cons g hs)
  let ?k = extract_int_from_string
  have m1: "map_of (map_insert (?k g) g m) = (map_of m)(?k g \<mapsto> g)"
    using Cons.prems(1,4) by (intro smap.ins_fresh) auto
  show ?case
  proof (cases "h = g")
    case True
    with Cons.prems(1) m1 show ?thesis by (simp add: fill_host_map_keeps)
  next
    case False
    with Cons.prems(3) have h: "h \<in> set hs" by simp
    have "?k h' \<noteq> ?k g" if "h' \<in> set hs" for h'
      using Cons.prems(2) that by (metis distinct.simps(2) image_eqI list.set_map list.simps(9))
    with Cons.prems(4) have "\<forall>h' \<in> set hs. map_of (map_insert (?k g) g m) (?k h') = None"
      by (simp add: m1)
    with h Cons.IH [of "map_insert (?k g) g m"] Cons.prems(1,2) show ?thesis by simp
  qed
qed simp

lemma initial_process_fields [simp]:
  "hostNames (initial_process c i) = c_hosts c"
  "num_hosts (initial_process c i) = int (length (c_hosts c))"
  "current_container_name (initial_process c i) = c_hosts c ! i"
  "current_container_id (initial_process c i) = hid (c_hosts c) i"
  "hostIDtoHostName (initial_process c i) = fill_host_map (c_hosts c) []"
  "msg_buf (initial_process c i) = c_msg_buf c i" "drop_rate (initial_process c i) = c_drop_rate c i"
  "curr_msg_id (initial_process c i) = 0" "curr_seq_number (initial_process c i) = 1"
  "alreadyAckedMessages (initial_process c i) = []" "seqMessageHistory (initial_process c i) = []"
  "ackHistory (initial_process c i) = []" "dataHistory (initial_process c i) = []"
  "deliveryQueue (initial_process c i) = []" "deliveredMessage (initial_process c i) = []"
  "outbox (initial_process c i) = []" "watchdogs (initial_process c i) = []"
  "recordMessages (initial_process c i) = False" "recv_cap (initial_process c i) = 1"
  "listener_pc (initial_process c i) = AwaitFirst" "marker_outbox (initial_process c i) = []"
  "ticks (initial_process c i) = 0"
  by (simp_all add: initial_process_def ReliableMulticast_def set_rm_def hid_def)

lemma initial_snapshot:
  "snapshot (initial_process c i) = new_snapshot
     \<lparr>snap_num_hosts := int (length (c_hosts c)), snap_hostNames := c_hosts c,
      curr_container_id := hid (c_hosts c) i, curr_container_name := c_hosts c ! i\<rparr>"
  by (simp add: initial_process_def ReliableMulticast_def set_rm_def hid_def)

lemma initial_snap_known: "snap_known (snapshot (initial_process c i))"
  by (simp add: initial_snapshot snap_known_def new_snapshot_def)

lemma initial_local_inv:
  assumes "config_ok c" "i < length (c_hosts c)"
  shows "local_inv (c_hosts c) i (initial_process c i)"
proof -
  have h: "held (initial_process c i) = []" by (simp add: held_def)
  have "map_of (fill_host_map (c_hosts c) []) (hid (c_hosts c) j) = Some (c_hosts c ! j)"
    if "j < length (c_hosts c)" for j
    unfolding hid_def using assms(1) that by (intro fill_host_map_finds) (auto simp: config_ok_def)
  with assms h show ?thesis
    by (simp add: local_inv_def static_inv_def counter_inv_def queue_inv_def acked_inv_def
        ack_history_inv_def seq_inv_def data_inv_def entry_inv_def outbox_inv_def watchdog_inv_def
        own_ids_def is_heap_def heap_from_def config_ok_def INT_MAX_def)
qed

section \<open>The invariant of the group\<close>

definition view :: "group \<Rightarrow> nat \<Rightarrow> rm" where
  "view g j = state_of (g ! j)"

definition group_ok :: "config \<Rightarrow> group \<Rightarrow> bool" where
  "group_ok c g \<longleftrightarrow> length g = length (c_hosts c) \<and> sound_view (c_hosts c) (view g) \<and>
     (\<forall>i < length g. snap_known (snapshot (view g i)) \<and>
        (\<forall>err s. g ! i = Inl (err, s) \<longrightarrow> foreseen err))"

lemma initial_group_ok:
  assumes "config_ok c"
  shows "group_ok c (initial_group c)"
proof -
  have v: "view (initial_group c) i = initial_process c i" if "i < length (c_hosts c)" for i
    using that by (simp add: view_def initial_group_def)
  have "cross H j (initial_process c j) i s" for H j i s
    by (simp add: cross_def held_def)
  with assms v have "sound_view (c_hosts c) (view (initial_group c))"
    using initial_local_inv [OF assms]
    by (simp add: sound_view_def hosts_ok_def config_ok_def)
  with v initial_snap_known show ?thesis by (auto simp: group_ok_def initial_group_def)
qed

lemma view_update: "i < length g \<Longrightarrow> view (g[i := r]) = (view g)(i := state_of r)"
  by (auto simp: view_def fun_eq_iff nth_list_update)

lemma wire_sender:
  assumes "p \<in> set (wire g)"
  obtains j where "j < length g" "p \<in> set (outbox (view g j))"
proof -
  obtain r where r: "r \<in> set g" "p \<in> set (outbox (state_of r))" using assms by (auto simp: wire_def)
  then obtain j where "j < length g" "g ! j = r" by (auto simp: in_set_conv_nth)
  with r(2) show thesis by (intro that [of j]) (simp_all add: view_def)
qed

lemma sound_wire:
  assumes v: "sound_view H (view g)" and len: "length g = length H" and i: "i < length H"
    and p: "p \<in> set (wire g)" "p_dst p = H ! i"
  obtains j where "j < length H" "j \<noteq> i" "p_src p = H ! j" "from_peer H (view g) i j (p_payload p)"
proof -
  obtain j where j: "j < length H" "p \<in> set (outbox (view g j))"
    using wire_sender [OF p(1)] len by metis
  have l: "local_inv H j (view g j)" and ok: "hosts_ok H" using v j(1) by (auto simp: sound_view_def)
  then have src: "p_src p = H ! j" and pay: "payload_ok H j (view g j) (H ! i) (p_payload p)"
    using j(2) p(2) local_invD(9) [OF l] by (auto simp: outbox_inv_def)
  note fp = from_peerI [where st = "view g", OF ok i j(1) l pay]
  show thesis using j(1) fp(1) src fp(2) by (rule that)
qed

text \<open>What is known of a process that takes a turn.\<close>

lemma turn_good:
  assumes g: "group_ok c g" and i: "i < length g" "g ! i = Inr s" and ev: "possible g ev s"
  shows "good (c_hosts c) (view g) i s"
    and "ev = Receive (Some p) \<Longrightarrow> \<exists>j. p_src p = c_hosts c ! j \<and> from_peer (c_hosts c) (view g) i j (p_payload p)"
proof -
  let ?H = "c_hosts c"
  have len: "length g = length ?H" and v: "sound_view ?H (view g)"
    using g by (simp_all add: group_ok_def)
  have vi: "view g i = s" using i(2) by (simp add: view_def)
  then have same: "(view g)(i := s) = view g" by auto
  show gd: "good ?H (view g) i s"
    using i(1) g vi len v unfolding good_def same by (auto simp: group_ok_def)
  assume "ev = Receive (Some p)"
  with ev have p: "p \<in> set (wire g)" "p_dst p = current_container_name s" by simp_all
  then have "p_dst p = ?H ! i" using goodD(5) [OF gd] by (simp add: static_inv_def)
  with v len i(1) p(1) show "\<exists>j. p_src p = ?H ! j \<and> from_peer ?H (view g) i j (p_payload p)"
    by (metis sound_wire)
qed

lemma group_step_ok:
  assumes g: "group_ok c g" and step: "group_step envs g g'"
  shows "group_ok c g'"
proof -
  obtain i s ev where 1: "g' = g[i := process_event (envs i) ev s]" "i < length g" "g ! i = Inr s"
    "possible g ev s" using step by (rule group_stepE)
  let ?H = "c_hosts c" and ?r = "process_event (envs i) ev s"
  note t = turn_good [OF g 1(2-4)]
  have "good_outcome ?H (view g) i ?r" using t by (rule good_event)
  then have "sound_view ?H ((view g)(i := state_of ?r))" "snap_known (snapshot (state_of ?r))"
    "\<forall>err s'. ?r = Inl (err, s') \<longrightarrow> foreseen err"
    by (simp_all add: good_outcome_def good_def)
  with g 1(1,2) show ?thesis
    by (auto simp: group_ok_def view_update nth_list_update)
qed

interpretation group_inv:
  invariant "\<lambda>h. config_ok c \<and> h = initial_group c" "group_step envs" "group_ok c" for c envs
  by unfold_locales (auto intro: initial_group_ok group_step_ok)

lemma reachable_ok:
  assumes "config_ok c" "reachable c envs g"
  shows "group_ok c g"
  using group_inv.always [of c envs g] assms by (simp add: reachable_def)

text \<open>The invariant of the processes of a reachable group, in the form the properties use.\<close>

lemma reachableD:
  assumes "config_ok c" "reachable c envs g"
  shows "length g = length (c_hosts c)" "hosts_ok (c_hosts c)"
    and "\<And>i. i < length g \<Longrightarrow> local_inv (c_hosts c) i (view g i)"
    and "\<And>i j. i < length g \<Longrightarrow> j < length g \<Longrightarrow> j \<noteq> i \<Longrightarrow>
      cross (c_hosts c) j (view g j) i (view g i)"
    and "\<And>i err s. i < length g \<Longrightarrow> g ! i = Inl (err, s) \<Longrightarrow> foreseen err"
    and "\<And>i. i < length g \<Longrightarrow> snap_known (snapshot (view g i))"
  using reachable_ok [OF assms] by (auto simp: group_ok_def sound_view_def)

end
