(* ===== verification/Safety.thy ===== *)
theory Safety
  imports GroupReach
begin

text \<open>
  What the invariant of the group gives for the messages of a reachable group: where a sequence
  message comes from, what a delivered message's number is, who holds it. The properties of
  \<open>Spec2Isabelle\<close> about the group are few steps from these lemmas.
\<close>

section \<open>The maximum of the proposals\<close>

lemma max_sequence_ge_acc: "max_sequence pm (q0, p0) = (q, p) \<Longrightarrow> q0 \<le> q"
proof (induction pm arbitrary: q0 p0)
  case (Cons kv pm)
  obtain k v where kv: "kv = (k, v)" by fastforce
  show ?case
  proof (cases "to_u32 v > q0")
    case True
    with Cons.prems have "max_sequence pm (to_u32 v, to_u32 k) = (q, p)" by (simp add: kv)
    then have "to_u32 v \<le> q" by (rule Cons.IH)
    with True show ?thesis by simp
  next
    case False
    with Cons.prems have "max_sequence pm (q0, p0) = (q, p)" by (simp add: kv)
    then show ?thesis by (rule Cons.IH)
  qed
qed simp

lemma max_sequence_ge:
  "max_sequence pm (q0, p0) = (q, p) \<Longrightarrow> (k, v) \<in> set pm \<Longrightarrow> to_u32 v \<le> q"
proof (induction pm arbitrary: q0 p0)
  case (Cons kv pm)
  obtain k' v' where kv: "kv = (k', v')" by fastforce
  show ?case
  proof (cases "(k, v) = kv")
    case True
    with kv have eq: "k' = k" "v' = v" by simp_all
    show ?thesis
    proof (cases "to_u32 v > q0")
      case True
      with Cons.prems(1) have "max_sequence pm (to_u32 v, to_u32 k) = (q, p)" by (simp add: kv eq)
      then show ?thesis by (rule max_sequence_ge_acc)
    next
      case False
      with Cons.prems(1) have "max_sequence pm (q0, p0) = (q, p)" by (simp add: kv eq)
      then have "q0 \<le> q" by (rule max_sequence_ge_acc)
      with False show ?thesis by simp
    qed
  next
    case False
    with Cons.prems(2) have "(k, v) \<in> set pm" by simp
    with Cons.IH Cons.prems(1) kv show ?thesis by (auto split: if_splits)
  qed
qed simp

text \<open>The proposer is the first one in the order of the map whose proposal is the maximum.\<close>

lemma max_sequence_first:
  "max_sequence pm (q0, p0) = (q, p) \<Longrightarrow>
   (q = q0 \<and> p = p0) \<or>
   (\<exists>pre k v post. pm = pre @ (k, v) # post \<and> q = to_u32 v \<and> p = to_u32 k \<and>
      q0 < q \<and> (\<forall>(k', v') \<in> set pre. to_u32 v' < q))"
proof (induction pm arbitrary: q0 p0)
  case (Cons kv pm)
  obtain k v where kv: "kv = (k, v)" by fastforce
  show ?case
  proof (cases "to_u32 v > q0")
    case True
    with Cons.prems have m: "max_sequence pm (to_u32 v, to_u32 k) = (q, p)" by (simp add: kv)
    from Cons.IH [OF m] show ?thesis
    proof (elim disjE exE conjE)
      assume "q = to_u32 v" "p = to_u32 k"
      with True kv show ?thesis
        by (intro disjI2 exI [of _ "[]"] exI [of _ k] exI [of _ v] exI [of _ pm]) simp
    next
      fix pre k' v' post
      assume "pm = pre @ (k', v') # post" "q = to_u32 v'" "p = to_u32 k'" "to_u32 v < q"
        "\<forall>(k', v') \<in> set pre. to_u32 v' < q"
      with True kv show ?thesis
        by (intro disjI2 exI [of _ "kv # pre"] exI [of _ k'] exI [of _ v'] exI [of _ post]) auto
    qed
  next
    case False
    with Cons.prems have m: "max_sequence pm (q0, p0) = (q, p)" by (simp add: kv)
    from Cons.IH [OF m] show ?thesis
    proof (elim disjE exE conjE)
      assume "q = q0" "p = p0"
      then show ?thesis by simp
    next
      fix pre k' v' post
      assume "pm = pre @ (k', v') # post" "q = to_u32 v'" "p = to_u32 k'" "q0 < q"
        "\<forall>(k', v') \<in> set pre. to_u32 v' < q"
      with False kv show ?thesis
        by (intro disjI2 exI [of _ "kv # pre"] exI [of _ k'] exI [of _ v'] exI [of _ post]) auto
    qed
  qed
qed simp

section \<open>Final numbers\<close>

lemma final_at_sender:
  assumes r: "config_ok c" "reachable c envs g" and i: "i < length g"
    and sm: "sm \<in> set (seqMessageHistory (view g i))"
  obtains j where "j < length g" "sm_sender sm = hidw (c_hosts c) j"
    "final_of (c_hosts c) j (view g j) sm"
proof -
  let ?H = "c_hosts c"
  note d = reachableD [OF r]
  have si: "seq_inv ?H i (view g i)" using d(3) [OF i] by (rule local_invD)
  then obtain j where j: "j < length g" "sm_sender sm = hidw ?H j"
    using sm d(1) by (auto simp: seq_inv_def)
  have "sm \<in> set (seqMessageHistory (view g j))"
  proof (cases "j = i")
    case False
    with d(4) [of j i] i j(1) have "cross ?H i (view g i) j (view g j)" by (intro d(4)) auto
    from crossD(3) [OF this sm j(2)] show ?thesis .
  qed (use sm in simp)
  moreover have "seq_inv ?H j (view g j)" using d(3) [OF j(1)] by (rule local_invD)
  ultimately have "final_of ?H j (view g j) sm" using j(2) by (simp add: seq_inv_def)
  with j that show thesis by blast
qed

text \<open>The state of the sender's histories behind a delivered message.\<close>

definition settled :: "config \<Rightarrow> group \<Rightarrow> nat \<Rightarrow> int \<Rightarrow> ProposerSeq \<Rightarrow> QueuedMessage \<Rightarrow> bool" where
  "settled c g j k pm m \<longleftrightarrow> j < length g \<and> 0 \<le> k \<and> k < curr_msg_id (view g j) \<and>
     qm_sender m = hidw (c_hosts c) j \<and> qm_msg_id m = to_u32 k \<and>
     map_of (ackHistory (view g j)) k = Some pm \<and> length pm = length (c_hosts c) \<and>
     get_max_sequence_from_proposerseq_map pm = (qm_sequence_number m, qm_proposer m)"

lemma deliverable_settled:
  assumes r: "config_ok c" "reachable c envs g" and i: "i < length g"
    and m: "m \<in> set (held (view g i))" "qm_status m = DELIVERABLE"
  obtains j k pm where "settled c g j k pm m"
proof -
  have "entry_inv (c_hosts c) i (view g i)" using reachableD(3) [OF r i] by (rule local_invD)
  then have "announced (view g i) m"
    using m by (auto simp: entry_inv_def DELIVERABLE_def UNDELIVERABLE_def)
  then obtain sm where sm: "sm \<in> set (seqMessageHistory (view g i))" "seq_uid sm = uid m"
    "sm_final_seq sm = qm_sequence_number m" "sm_final_seq_proposer sm = qm_proposer m"
    by (auto simp: announced_def)
  obtain j where j: "j < length g" "sm_sender sm = hidw (c_hosts c) j" "final_of (c_hosts c) j (view g j) sm"
    using final_at_sender [OF r i sm(1)] .
  then obtain k pm where "settled c g j k pm m"
    using sm by (auto simp: settled_def final_of_def seq_uid_def uid_def)
  then show thesis by (rule that)
qed

lemma delivered_held:
  assumes r: "config_ok c" "reachable c envs g" and i: "i < length g"
    and m: "m \<in> set (deliveredMessage (view g i))"
  shows "m \<in> set (held (view g i))" "qm_status m = DELIVERABLE"
proof -
  have "queue_inv (c_hosts c) i (view g i)" using reachableD(3) [OF r i] by (rule local_invD)
  with m show "m \<in> set (held (view g i))" "qm_status m = DELIVERABLE"
    by (auto simp: queue_inv_def held_def)
qed

lemma settled_key_unique:
  assumes r: "config_ok c" "reachable c envs g"
    and m: "settled c g j k pm m" and n: "settled c g j' k' pm' n" and u: "uid m = uid n"
  shows "j' = j" "k' = k" "pm' = pm"
    "qm_sequence_number n = qm_sequence_number m" "qm_proposer n = qm_proposer m"
proof -
  note d = reachableD [OF r]
  show j: "j' = j"
    using m n u d(1,2) by (auto simp: settled_def uid_def hidw_inject)
  have "counter_inv (view g j)" using m d(3) local_invD(2) unfolding settled_def by blast
  then have "k \<in> int_range" "k' \<in> int_range"
    using m n j msg_id_in_range [of "view g j"] by (simp_all add: settled_def)
  moreover have "to_u32 k' = to_u32 k" using m n u by (simp add: settled_def uid_def)
  ultimately show k: "k' = k" using to_u32_inject by blast
  show "pm' = pm" "qm_sequence_number n = qm_sequence_number m" "qm_proposer n = qm_proposer m"
    using m n j k by (simp_all add: settled_def)
qed

section \<open>Data\<close>

lemma held_data:
  assumes r: "config_ok c" "reachable c envs g" and i: "i < length g"
    and m: "m \<in> set (held (view g i))"
  obtains j where "j < length g" "qm_sender m = hidw (c_hosts c) j"
    "map_of (dataHistory (view g j)) (to_int (qm_msg_id m)) = Some (to_int (qm_data m))"
proof -
  let ?H = "c_hosts c"
  note d = reachableD [OF r] and l = local_invD [OF reachableD(3) [OF r i]]
  have "uid m \<in> own_ids ?H i (view g i) \<union> ack_uid ` set (alreadyAckedMessages (view g i))"
    using l(3) m by (auto simp: queue_inv_def)
  then obtain j where j: "j < length g" "qm_sender m = hidw ?H j"
    using l(4) i d(1) by (auto simp: own_ids_def acked_inv_def ack_uid_def uid_def)
  have "map_of (dataHistory (view g j)) (to_int (qm_msg_id m)) = Some (to_int (qm_data m))"
  proof (cases "j = i")
    case True
    with l(7) m j show ?thesis by (simp add: data_inv_def)
  next
    case False
    with i j(1) have "cross ?H i (view g i) j (view g j)" by (intro d(4)) auto
    from crossD(2) [OF this m j(2)] show ?thesis .
  qed
  with j that show thesis by blast
qed

lemma held_data_at:
  assumes r: "config_ok c" "reachable c envs g" and i: "i < length g" "j < length g"
    and m: "m \<in> set (held (view g i))" "qm_sender m = hidw (c_hosts c) j"
  shows "map_of (dataHistory (view g j)) (to_int (qm_msg_id m)) = Some (to_int (qm_data m))"
proof -
  obtain j' where j': "j' < length g" "qm_sender m = hidw (c_hosts c) j'"
    "map_of (dataHistory (view g j')) (to_int (qm_msg_id m)) = Some (to_int (qm_data m))"
    using held_data [OF r i(1) m(1)] .
  then have "j' = j" using m(2) i(2) reachableD(1,2) [OF r] by (simp add: hidw_inject)
  with j' show ?thesis by simp
qed

text \<open>Two settled messages with one identity are the same message.\<close>

lemma same_message:
  assumes r: "config_ok c" "reachable c envs g" and i: "i < length g" and j: "j < length g"
    and m: "m \<in> set (held (view g i))" "qm_status m = DELIVERABLE"
    and n: "n \<in> set (held (view g j))" "qm_status n = DELIVERABLE" and u: "uid m = uid n"
  shows "m = n"
proof -
  obtain k a pm where sm: "settled c g k a pm m" using deliverable_settled [OF r i m] .
  obtain k' a' pm' where sn: "settled c g k' a' pm' n" using deliverable_settled [OF r j n] .
  have "qm_sequence_number n = qm_sequence_number m" "qm_proposer n = qm_proposer m"
    using settled_key_unique [OF r sm sn u] by simp_all
  moreover have "k < length g" "qm_sender m = hidw (c_hosts c) k" "qm_sender n = hidw (c_hosts c) k"
    using sm u by (auto simp: settled_def uid_def)
  then have "to_int (qm_data m) = to_int (qm_data n)"
    using held_data_at [OF r i _ m(1)] held_data_at [OF r j _ n(1)] u
    by (fastforce simp: uid_def)
  ultimately show ?thesis
    using m(2) n(2) u by (simp add: to_int_inject uid_def)
qed

section \<open>Who holds a settled message\<close>

lemma settled_proposals:
  assumes r: "config_ok c" "reachable c envs g" and m: "settled c g j k pm m" and i: "i < length g"
  obtains v where "map_of pm (hid (c_hosts c) i) = Some v"
    "i \<noteq> j \<longrightarrow> (\<exists>a \<in> set (alreadyAckedMessages (view g i)). ack_uid a = uid m \<and>
        to_int (am_proposed_seq a) = v)"
proof -
  let ?H = "c_hosts c"
  note d = reachableD [OF r]
  have j: "j < length g" using m by (simp add: settled_def)
  have pm: "map_of (ackHistory (view g j)) k = Some pm" "length pm = length ?H"
    using m by (simp_all add: settled_def)
  have "ack_history_inv ?H j (view g j)" using d(3) [OF j] by (rule local_invD)
  then have ok: "map_ok pm" "dom (map_of pm) \<subseteq> host_ids ?H"
    using pm(1) by (auto simp: ack_history_inv_def)
  have "dom (map_of pm) = host_ids ?H"
    using ok finite_host_ids by (rule smap.full_map) (simp add: pm(2) card_host_ids d(2))
  then have "hid ?H i \<in> dom (map_of pm)" using i d(1) by (simp add: host_ids_def)
  then obtain v where v: "map_of pm (hid ?H i) = Some v" by blast
  have "\<exists>a \<in> set (alreadyAckedMessages (view g i)). ack_uid a = uid m \<and> to_int (am_proposed_seq a) = v"
    if "i \<noteq> j"
  proof -
    have "cross ?H j (view g j) i (view g i)" using that i j by (intro d(4)) auto
    from crossD(4) [OF this pm(1) v] m show ?thesis by (simp add: settled_def uid_def)
  qed
  with v that show thesis by blast
qed

lemma settled_held:
  assumes r: "config_ok c" "reachable c envs g" and m: "settled c g j k pm m" and i: "i < length g"
  shows "uid m \<in> uid ` set (held (view g i))"
proof (cases "i = j")
  case True
  then show ?thesis
    using m local_invD(3) [OF reachableD(3) [OF r i]]
    by (auto simp: settled_def queue_inv_def own_ids_def uid_def)
next
  case False
  obtain v where "\<exists>a \<in> set (alreadyAckedMessages (view g i)). ack_uid a = uid m \<and>
      to_int (am_proposed_seq a) = v"
    using settled_proposals [OF r m i] False by metis
  then show ?thesis
    using local_invD(3) [OF reachableD(3) [OF r i]] by (force simp: queue_inv_def)
qed

lemma settled_above_proposal:
  assumes r: "config_ok c" "reachable c envs g" and m: "settled c g j k pm m" and i: "i < length g"
    and n: "n \<in> set (held (view g i))" "uid n = uid m" "qm_status n = UNDELIVERABLE"
  shows "qm_sequence_number n \<le> qm_sequence_number m"
proof -
  let ?H = "c_hosts c"
  note l = local_invD [OF reachableD(3) [OF r i]]
  have own: "own_proposal ?H i (view g i) n"
    using l(8) n by (auto simp: entry_inv_def DELIVERABLE_def UNDELIVERABLE_def)
  obtain v where v: "map_of pm (hid ?H i) = Some v"
    "i \<noteq> j \<longrightarrow> (\<exists>a \<in> set (alreadyAckedMessages (view g i)). ack_uid a = uid m \<and>
        to_int (am_proposed_seq a) = v)"
    using settled_proposals [OF r m i] .
  have "qm_sequence_number n = to_u32 v"
  proof (cases "i = j")
    case True
    have "k \<in> int_range"
      using m local_invD(2) [OF reachableD(3) [OF r]] msg_id_in_range unfolding settled_def by blast
    with m own n(2) v(1) True show ?thesis by (auto simp: own_proposal_def settled_def uid_def)
  next
    case False
    then obtain a where a: "a \<in> set (alreadyAckedMessages (view g i))" "ack_uid a = uid m"
      "to_int (am_proposed_seq a) = v" using v(2) by blast
    have "qm_sender n \<noteq> hidw ?H i"
      using n(2) m False i reachableD(1,2) [OF r] by (simp add: settled_def uid_def hidw_inject)
    with own obtain b where b: "b \<in> set (alreadyAckedMessages (view g i))" "ack_uid b = uid n"
      "am_proposed_seq b = qm_sequence_number n" by (auto simp: own_proposal_def)
    have "distinct (map ack_uid (alreadyAckedMessages (view g i)))" using l(4) by (simp add: acked_inv_def)
    then have "a = b" using a(1) b(1) by (rule distinct_map_filter_unique) (simp add: a(2) b(2) n(2))
    with a(3) b(3) show ?thesis by (metis to_u32_to_int)
  qed
  moreover have "max_sequence pm (0, 0) = (qm_sequence_number m, qm_proposer m)"
    using m by (simp add: settled_def get_max_sequence_from_proposerseq_map_def)
  from max_sequence_ge [OF this map_of_SomeD [OF v(1)]] have "to_u32 v \<le> qm_sequence_number m" .
  ultimately show ?thesis by simp
qed

section \<open>Two strictly sorted lists\<close>

lemma sorted_wrt_unique:
  assumes "\<And>x. \<not> R x x" "\<And>x y z. R x y \<Longrightarrow> R y z \<Longrightarrow> R x z"
    and "sorted_wrt R xs" "sorted_wrt R ys" "set xs = set ys"
  shows "xs = ys"
  using assms(3-5)
proof (induction xs arbitrary: ys)
  case (Cons x xs)
  then obtain y ys' where ys: "ys = y # ys'" by (cases ys) auto
  have "x = y"
    using Cons.prems assms(1,2) unfolding ys by (metis list.set_intros(1) set_ConsD sorted_wrt.simps(2))
  moreover have "x \<notin> set xs" "y \<notin> set ys'" using Cons.prems assms(1) by (auto simp: ys)
  then have "set xs = set ys'" using Cons.prems(3) \<open>x = y\<close> by (auto simp: ys)
  ultimately show ?case using Cons by (simp add: ys)
qed simp

end
