(* ===== verification/Runs.thy ===== *)
theory Runs
  imports Safety
begin

text \<open>
  Two concrete runs of a group of two hosts without drops, errors or reordering, evaluated in the
  kernel: one message from multicast to delivery everywhere, and two hosts that each multicast one
  message at the same time.
\<close>

definition demo_env :: env where
  "demo_env = \<lparr>rand_draw = (\<lambda>k. 1), sendto_rv = (\<lambda>k. 20), stack_junk = (\<lambda>k i. 0),
     tcp_connect = (\<lambda>k. Connected 5), tcp_send_rv = (\<lambda>k fd. 1)\<rparr>"

definition demo_config :: config where
  "demo_config = \<lparr>c_hosts = [''container1'', ''container2''], c_drop_rate = (\<lambda>i. 0),
     c_msg_buf = (\<lambda>i. replicate MAX_STRUCT_SIZE 0), c_marker_buf = (\<lambda>i. replicate 3 (CHR 0x00))\<rparr>"

definition demo_start :: group where
  "demo_start = [Inr (initial_process demo_config 0), Inr (initial_process demo_config 1)]"

lemma demo_start: "initial_group demo_config = demo_start"
  by (simp add: initial_group_def demo_start_def demo_config_def upt_rec)

abbreviation demo_run :: "(nat \<times> event) list \<Rightarrow> group option" where
  "demo_run sched \<equiv> run (\<lambda>i. demo_env) sched demo_start"

definition got :: "string \<Rightarrow> string \<Rightarrow> u8 list \<Rightarrow> event" where
  "got src dst bytes = Receive (Some \<lparr>p_src = src, p_dst = dst, p_payload = bytes\<rparr>)"

text \<open>Host 1 multicasts 7; host 2 proposes number 1; host 1 decides on its own 2.\<close>

definition data1 :: "u8 list" where
  "data1 = [0, 0, 0, 1,  0, 0, 0, 1,  0, 0, 0, 0,  0, 0, 0, 7,  0, 0, 0, 0]"

definition until_decided :: "(nat \<times> event) list" where
  "until_decided =
     [(0, Multicast 7), (1, got ''container1'' ''container2'' data1),
      (0, got ''container2'' ''container1'' [0, 0, 0, 2,  0, 0, 0, 1,  0, 0, 0, 0,  0, 0, 0, 1,  0, 0, 0, 2])]"

definition until_delivered :: "(nat \<times> event) list" where
  "until_delivered = until_decided @
     [(1, got ''container1'' ''container2'' [0, 0, 0, 3,  0, 0, 0, 1,  0, 0, 0, 0,  0, 0, 0, 2,  0, 0, 0, 1])]"

text \<open>Both hosts multicast before either has heard of the other's message.\<close>

definition both_multicast :: "(nat \<times> event) list" where
  "both_multicast =
     [(0, Multicast 7), (1, Multicast 9),
      (1, got ''container1'' ''container2'' data1),
      (0, got ''container2'' ''container1'' [0, 0, 0, 1,  0, 0, 0, 2,  0, 0, 0, 0,  0, 0, 0, 9,  0, 0, 0, 0]),
      (0, got ''container2'' ''container1'' [0, 0, 0, 2,  0, 0, 0, 1,  0, 0, 0, 0,  0, 0, 0, 2,  0, 0, 0, 2]),
      (1, got ''container1'' ''container2'' [0, 0, 0, 2,  0, 0, 0, 2,  0, 0, 0, 0,  0, 0, 0, 2,  0, 0, 0, 1]),
      (1, got ''container1'' ''container2'' [0, 0, 0, 3,  0, 0, 0, 1,  0, 0, 0, 0,  0, 0, 0, 2,  0, 0, 0, 1]),
      (0, got ''container2'' ''container1'' [0, 0, 0, 3,  0, 0, 0, 2,  0, 0, 0, 0,  0, 0, 0, 2,  0, 0, 0, 1])]"

section \<open>What the runs end in\<close>

text \<open>The two messages with their final numbers, and the first one as host 2 queues it.\<close>

definition msg1 :: QueuedMessage where "msg1 = make_queued_msg 2 DELIVERABLE 1 0 7 1"
definition msg2 :: QueuedMessage where "msg2 = make_queued_msg 2 DELIVERABLE 2 0 9 1"
definition msg1_queued :: QueuedMessage where "msg1_queued = make_queued_msg 1 UNDELIVERABLE 1 0 7 2"

definition messages_of :: "group \<Rightarrow> (QueuedMessage list \<times> QueuedMessage list) list" where
  "messages_of g = map (\<lambda>r. (deliveredMessage (state_of r), deliveryQueue (state_of r))) g"

lemma decided_run:
  "map_option messages_of (demo_run until_decided) = Some [([msg1], []), ([], [msg1_queued])]"
  by code_simp

lemma delivered_run:
  "map_option messages_of (demo_run until_delivered) = Some [([msg1], []), ([msg1], [])]"
  by code_simp

lemma both_run:
  "map_option messages_of (demo_run both_multicast) = Some [([msg1, msg2], []), ([msg2, msg1], [])]"
  by code_simp

definition first_packet :: packet where
  "first_packet = \<lparr>p_src = ''container1'', p_dst = ''container2'', p_payload = data1\<rparr>"

definition first_send :: "(nat \<times> event) list" where
  "first_send = [(0, Multicast 7)]"

lemma first_send_outboxes:
  "map_option (map (\<lambda>r. outbox (state_of r))) (demo_run first_send) = Some [[first_packet], []]"
  by code_simp

lemma first_send_run:
  obtains g where "demo_run first_send = Some g" "length g = 2" "outbox (state_of (g ! 0)) = [first_packet]"
proof -
  obtain g where g: "demo_run first_send = Some g" "map (\<lambda>r. outbox (state_of r)) g = [[first_packet], []]"
    using first_send_outboxes by auto
  then obtain r0 r1 where "g = [r0, r1]" by auto
  with g show thesis by (intro that [of g]) simp_all
qed

lemma demo_config_ok: "config_ok demo_config"
  by (simp add: config_ok_def demo_config_def) code_simp

lemma demo_reachable:
  assumes "demo_run sched = Some g"
  shows "reachable demo_config (\<lambda>i. demo_env) g"
proof -
  have "reachable demo_config (\<lambda>i. demo_env) demo_start"
    using reachable_start [of demo_config "\<lambda>i. demo_env"] by (simp only: demo_start)
  from run_reach [OF this assms] show ?thesis .
qed

lemma demo_group:
  assumes "map_option messages_of (demo_run sched) = Some [(d0, q0), (d1, q1)]"
  obtains g where "reachable demo_config (\<lambda>i. demo_env) g" "length g = 2"
    "deliveredMessage (state_of (g ! 0)) = d0" "deliveryQueue (state_of (g ! 0)) = q0"
    "deliveredMessage (state_of (g ! Suc 0)) = d1" "deliveryQueue (state_of (g ! Suc 0)) = q1"
proof -
  obtain g where g: "demo_run sched = Some g" "messages_of g = [(d0, q0), (d1, q1)]"
    using assms by auto
  then obtain r0 r1 where "g = [r0, r1]" by (auto simp: messages_of_def)
  with g(2) demo_reachable [OF g(1)] show thesis by (intro that [of g]) (simp_all add: messages_of_def)
qed

end
