(* ===== verification/HandlerFacts.thy ===== *)
theory HandlerFacts
  imports Runs
begin

text \<open>
  The functional behaviour of the delivery queue, the handlers and the watchdogs of one process,
  branch by branch.
\<close>

section \<open>The delivery queue\<close>

text \<open>
  The final number is the greatest proposal, compared as unsigned numbers, together with the
  first proposer in the order of the ids that made it; an empty or all-zero history gives zeros.
\<close>

lemma maximum_of_proposals:
  assumes "get_max_sequence_from_proposerseq_map pm = (q, p)"
  shows "(\<forall>(k, v) \<in> set pm. to_u32 v \<le> q) \<and>
    (q = 0 \<and> p = 0 \<or>
     (\<exists>pre k v post. pm = pre @ (k, v) # post \<and> q = to_u32 v \<and> p = to_u32 k \<and>
        (\<forall>(k', v') \<in> set pre. to_u32 v' < q)))"
proof -
  have m: "max_sequence pm (0, 0) = (q, p)"
    using assms by (simp add: get_max_sequence_from_proposerseq_map_def)
  from max_sequence_first [OF m] show ?thesis using max_sequence_ge [OF m] by fast
qed

text \<open>
  Delivery appends to the delivered messages a run of deliverable messages in the order of their
  numbers, all of them before everything that stays in the queue, loses and invents nothing, keeps
  the queue a heap, and stops only at an empty queue or an undeliverable front.
\<close>

lemma deliveries_in_order:
  assumes "is_heap cmp (deliveryQueue s)" "s' = deliver_msg_from_deliveryqueue s"
  shows "\<exists>out. deliveredMessage s' = deliveredMessage s @ out \<and>
    mset (deliveryQueue s) = mset out + mset (deliveryQueue s') \<and> is_heap cmp (deliveryQueue s') \<and>
    (\<forall>m \<in> set out. qm_status m = DELIVERABLE) \<and> sorted (map msg_key out) \<and>
    (\<forall>m \<in> set out. \<forall>n \<in> set (deliveryQueue s'). msg_key m \<le> msg_key n) \<and>
    (deliveryQueue s' = [] \<or> qm_status (hd (deliveryQueue s')) \<noteq> DELIVERABLE)"
proof -
  obtain rest out where "deliver_loop (deliveryQueue s) (deliveredMessage s) = (rest, deliveredMessage s @ out)"
    and dr: "dq.drained (deliveryQueue s) rest out"
    using dq.loop_drains [OF assms(1)] by blast
  then have s': "s' = s\<lparr>deliveryQueue := rest, deliveredMessage := deliveredMessage s @ out\<rparr>"
    by (simp add: assms(2) deliver_msg_from_deliveryqueue_def)
  have le: "\<not> cmp a b \<longleftrightarrow> msg_key a \<le> msg_key b" for a b by (auto simp: cmp_key not_less)
  from dr show ?thesis
    by (intro exI [of _ out]) (simp add: s' dq.drained_def le sorted_map)
qed

text \<open>
  Delivery is complete: a deliverable message whose number is below that of every undeliverable
  message of the queue is delivered.
\<close>

lemma ready_messages_delivered:
  assumes "is_heap cmp (deliveryQueue s)" "m \<in> set (deliveryQueue s)" "qm_status m = DELIVERABLE"
    and "\<forall>u \<in> set (deliveryQueue s). qm_status u \<noteq> DELIVERABLE \<longrightarrow> msg_key m < msg_key u"
  shows "m \<in> set (deliveredMessage (deliver_msg_from_deliveryqueue s))"
proof -
  obtain rest out where loop: "deliver_loop (deliveryQueue s) (deliveredMessage s) = (rest, deliveredMessage s @ out)"
    using dq.loop_drains [OF assms(1)] by blast
  have "m \<in> set out"
    using assms(1) loop assms(2,3) by (rule dq.loop_complete) (simp add: assms(4) cmp_key)
  with loop show ?thesis by (simp add: deliver_msg_from_deliveryqueue_def)
qed

text \<open>
  Giving a message its final number changes that message and nothing else, and restores the
  heap; when no message has the given identity the queue is left alone and the result is -1.
\<close>

lemma change_queued_msg_correct:
  assumes "distinct (map uid q)"
  shows "case change_queued_msg_seq_and_status sender msg_id sn pr st q of (rv, q') \<Rightarrow>
    if (sender, msg_id) \<in> uid ` set q
    then rv = 0 \<and> is_heap cmp q' \<and>
      mset q' = image_mset (\<lambda>m. if uid m = (sender, msg_id)
        then m\<lparr>qm_sequence_number := sn, qm_status := st, qm_proposer := pr\<rparr> else m) (mset q)
    else rv = - 1 \<and> q' = q"
proof (cases "(sender, msg_id) \<in> uid ` set q")
  case True
  have "finalize sender msg_id sn pr st = (\<lambda>m. if uid m = (sender, msg_id)
      then m\<lparr>qm_sequence_number := sn, qm_status := st, qm_proposer := pr\<rparr> else m)"
    by (simp add: fun_eq_iff finalize_def)
  with change_found [OF True assms, of sn pr st] True show ?thesis by fastforce
next
  case False
  from change_not_found [OF False, of sn pr st] False show ?thesis by simp
qed

text \<open>
  Queueing keeps the vector a heap and adds exactly the new message, and the front of the heap
  has the least number of all.
\<close>

lemma push_keeps_front_least:
  assumes "is_heap cmp q"
  shows "is_heap cmp (push_msg_to_deliveryqueue m q) \<and>
    mset (push_msg_to_deliveryqueue m q) = add_mset m (mset q) \<and>
    (\<forall>n \<in> insert m (set q). msg_key (hd (push_msg_to_deliveryqueue m q)) \<le> msg_key n)"
proof -
  have h: "is_heap cmp (push_msg_to_deliveryqueue m q)" using assms by (rule dq.inv_push)
  have "msg_key (hd (push_msg_to_deliveryqueue m q)) \<le> msg_key n" if "n \<in> insert m (set q)" for n
    using dq.front [OF h] that dq.set_push [OF assms] by (auto simp: cmp_key not_less)
  with h dq.mset_push [OF assms] show ?thesis by blast
qed

section \<open>Handlers\<close>

text \<open>
  A data message that has been acknowledged before changes nothing in the process: queue,
  histories, counters and watchdogs stay, and all that happens is that the old acknowledgement, with
  the old proposal, is sent to where the datagram came from, unless it is dropped or the send fails.
\<close>

lemma duplicate_data_reacknowledged:
  assumes "(dm_sender dm, dm_msg_id dm) \<in> ack_uid ` set (alreadyAckedMessages s)"
  shows "\<exists>s' am ps. handle_datamsg e dm s = Inr s' \<and> am \<in> set (alreadyAckedMessages s) \<and>
    ack_uid am = (dm_sender dm, dm_msg_id dm) \<and> same_core s s' \<and>
    curr_seq_number s' = curr_seq_number s \<and> watchdogs s' = watchdogs s \<and> outbox s' = outbox s @ ps \<and>
    set ps \<subseteq> {\<lparr>p_src = current_container_name s, p_dst = their_addr s,
      p_payload = serialize_ack_message am (uninit_packet e s)\<rparr>}"
proof -
  let ?P = "\<lambda>am. am_sender am = dm_sender dm \<and> am_msg_id am = dm_msg_id dm"
  have "find ?P (alreadyAckedMessages s) \<noteq> None"
    using assms by (auto simp: find_None_iff ack_uid_def)
  then obtain am where am: "find ?P (alreadyAckedMessages s) = Some am" by blast
  then have mem: "am \<in> set (alreadyAckedMessages s)" "ack_uid am = (dm_sender dm, dm_msg_id dm)"
    by (auto dest: find_Some_memD simp: ack_uid_def)
  obtain rv s' where t: "transmit e (their_addr s) (serialize_ack_message am (uninit_packet e s)) s = (rv, s')"
    by fastforce
  obtain ps where ps: "sends s s' ps" "set ps \<subseteq> {\<lparr>p_src = current_container_name s, p_dst = their_addr s,
      p_payload = serialize_ack_message am (uninit_packet e s)\<rparr>}" using transmit_sends [OF t] by blast
  have "handle_datamsg e dm s = Inr s'"
    using am t by (simp add: handle_datamsg_def reply_msg_with_drop_and_delay_def)
  with mem ps sends_fields [OF ps(1)] show ?thesis by blast
qed

text \<open>
  A new data message is queued as undeliverable under the current sequence number with this
  process as the proposer, the same number is recorded as the acknowledgement, the counter moves to
  the next number, and a watchdog for the acknowledgement starts, aimed at the sender's host.
\<close>

lemma new_data_queued:
  assumes "(dm_sender dm, dm_msg_id dm) \<notin> ack_uid ` set (alreadyAckedMessages s)"
    and "curr_seq_number s < INT_MAX" and "is_heap cmp (deliveryQueue s)"
    and "map_of (hostIDtoHostName s) (to_int (dm_sender dm)) = Some h"
  shows "\<exists>s'. handle_datamsg e dm s = Inr s' \<and>
    (let n = to_u32 (curr_seq_number s); me = to_u32 (current_container_id s);
         a = make_ack_msg (dm_sender dm) (dm_msg_id dm) n me
     in mset (deliveryQueue s') = add_mset (make_queued_msg n UNDELIVERABLE (dm_sender dm)
            (dm_msg_id dm) (dm_data dm) me) (mset (deliveryQueue s)) \<and>
        alreadyAckedMessages s' = alreadyAckedMessages s @ [a] \<and>
        curr_seq_number s' = curr_seq_number s + 1 \<and> deliveredMessage s' = deliveredMessage s \<and>
        watchdogs s' = watchdogs s @ [AckWatchdog a h 0])"
proof -
  let ?n = "to_u32 (curr_seq_number s)" and ?me = "to_u32 (current_container_id s)"
  let ?a = "make_ack_msg (dm_sender dm) (dm_msg_id dm) ?n ?me" and ?s2 = "queue_received dm s"
  have none: "find (\<lambda>am. am_sender am = dm_sender dm \<and> am_msg_id am = dm_msg_id dm)
      (alreadyAckedMessages s) = None"
    using assms(1) by (force simp: find_None_iff ack_uid_def)
  obtain rv s3 where t: "transmit e (their_addr s) (serialize_ack_message ?a (uninit_packet e ?s2)) ?s2 = (rv, s3)"
    by fastforce
  note tf = transmit_frame [OF t] transmit_fields [OF t]
  have inc: "incr_seq_number s3 = Inr (s3\<lparr>curr_seq_number := curr_seq_number s + 1\<rparr>)"
    using assms(2) by (simp add: incr_seq_number_def incr_int_def tf)
  have sub: "subscript [] (hostIDtoHostName s) (to_int (dm_sender dm)) = (hostIDtoHostName s, h)"
    using assms(4) by (rule subscript_present)
  have "handle_datamsg e dm s = Inr (s3\<lparr>curr_seq_number := curr_seq_number s + 1,
      hostIDtoHostName := hostIDtoHostName s, watchdogs := watchdogs s @ [AckWatchdog ?a h 0]\<rparr>)"
    using none t inc sub tf
    by (simp add: handle_datamsg_def reply_msg_with_drop_and_delay_def push_queue_def
        queue_received_def Let_def)
  moreover have "mset (deliveryQueue ?s2) = add_mset (make_queued_msg ?n UNDELIVERABLE (dm_sender dm)
      (dm_msg_id dm) (dm_data dm) ?me) (mset (deliveryQueue s))"
    using dq.mset_push [OF assms(3)] by (simp add: queue_received_def Let_def)
  moreover have "alreadyAckedMessages ?s2 = alreadyAckedMessages s @ [?a]"
    by (simp add: queue_received_def Let_def)
  ultimately show ?thesis by (simp add: Let_def tf)
qed

text \<open>Sends that neither drop nor fail.\<close>

definition lossless :: "env \<Rightarrow> rm \<Rightarrow> bool" where
  "lossless e s \<longleftrightarrow> drop_rate s \<le> 0 \<and> (\<forall>k. 0 \<le> rand_draw e k) \<and> (\<forall>k. 0 \<le> sendto_rv e k)"

lemma lossless_transmit:
  assumes "lossless e s"
  obtains rv t sn where "rv \<noteq> - 1" "transmit e h pkt s = (rv, s\<lparr>ticks := t, snapshot := sn,
    outbox := outbox s @ [\<lparr>p_src = current_container_name s, p_dst = h, p_payload = pkt\<rparr>]\<rparr>)"
proof -
  have "0 \<le> random_uniform_from_0_to_1 e s"
    using assms by (simp add: lossless_def random_uniform_from_0_to_1_def RAND_MAX_def)
  then have nd: "\<not> random_uniform_from_0_to_1 e s < drop_rate s" using assms by (simp add: lossless_def)
  have rv: "sendto_rv e (ticks s) \<noteq> - 1" using assms by (simp add: lossless_def) (metis neg_0_le_iff_le not_one_le_zero)
  let ?s1 = "s\<lparr>ticks := Suc (ticks s)\<rparr>"
  obtain sn where "record_outbound pkt ?s1 = s\<lparr>ticks := Suc (ticks s), snapshot := sn\<rparr>"
    by (simp add: record_outbound_def) (metis rm.surjective rm.update_convs(17))
  with nd rv have "transmit e h pkt s = (sendto_rv e (ticks s), s\<lparr>ticks := Suc (ticks s), snapshot := sn,
      outbox := outbox s @ [\<lparr>p_src = current_container_name s, p_dst = h, p_payload = pkt\<rparr>]\<rparr>)"
    by (simp add: transmit_def Let_def)
  with rv show thesis by (rule that)
qed

lemma lossless_same: "lossless e s \<Longrightarrow> drop_rate s' = drop_rate s \<Longrightarrow> lossless e s'"
  by (simp add: lossless_def)

lemma multicast_loop_lossless:
  assumes "lossless e s"
  shows "\<exists>t sn. multicast_loop e dm pkt hs s = Inr (s\<lparr>ticks := t, snapshot := sn,
    outbox := outbox s @ map (\<lambda>h. \<lparr>p_src = current_container_name s, p_dst = h, p_payload = pkt\<rparr>)
      (filter (\<lambda>h. h \<noteq> current_container_name s) hs),
    watchdogs := watchdogs s @ map (\<lambda>h. DataWatchdog dm h 0)
      (filter (\<lambda>h. h \<noteq> current_container_name s) hs)\<rparr>)"
  using assms
proof (induction hs arbitrary: s)
  case Nil
  show ?case by (intro exI [of _ "ticks s"] exI [of _ "snapshot s"]) simp
next
  case (Cons h hs)
  show ?case
  proof (cases "h = current_container_name s")
    case True
    with Cons show ?thesis by simp
  next
    case False
    obtain rv t sn where rv: "rv \<noteq> - 1" and tr: "transmit e h pkt s = (rv, s\<lparr>ticks := t, snapshot := sn,
        outbox := outbox s @ [\<lparr>p_src = current_container_name s, p_dst = h, p_payload = pkt\<rparr>]\<rparr>)"
      using lossless_transmit [OF Cons.prems, of h pkt] .
    let ?s1 = "s\<lparr>ticks := t, snapshot := sn,
        outbox := outbox s @ [\<lparr>p_src = current_container_name s, p_dst = h, p_payload = pkt\<rparr>],
        watchdogs := watchdogs s @ [DataWatchdog dm h 0]\<rparr>"
    have "lossless e ?s1" using Cons.prems by (rule lossless_same) simp
    from Cons.IH [OF this] False rv tr show ?thesis
      by (simp add: send_msg_with_drop_and_delay_def)
  qed
qed

lemma broadcast_loop_lossless:
  assumes "lossless e s"
  shows "\<exists>t sn. broadcast_loop e pkt hs s = Inr (s\<lparr>ticks := t, snapshot := sn,
    outbox := outbox s @ map (\<lambda>h. \<lparr>p_src = current_container_name s, p_dst = h, p_payload = pkt\<rparr>)
      (filter (\<lambda>h. h \<noteq> current_container_name s) hs)\<rparr>)"
  using assms
proof (induction hs arbitrary: s)
  case Nil
  show ?case by (intro exI [of _ "ticks s"] exI [of _ "snapshot s"]) simp
next
  case (Cons h hs)
  show ?case
  proof (cases "h = current_container_name s")
    case True
    with Cons show ?thesis by simp
  next
    case False
    obtain rv t sn where rv: "rv \<noteq> - 1" and tr: "transmit e h pkt s = (rv, s\<lparr>ticks := t, snapshot := sn,
        outbox := outbox s @ [\<lparr>p_src = current_container_name s, p_dst = h, p_payload = pkt\<rparr>]\<rparr>)"
      using lossless_transmit [OF Cons.prems, of h pkt] .
    let ?s1 = "s\<lparr>ticks := t, snapshot := sn,
        outbox := outbox s @ [\<lparr>p_src = current_container_name s, p_dst = h, p_payload = pkt\<rparr>]\<rparr>"
    have "lossless e ?s1" using Cons.prems by (rule lossless_same) simp
    from Cons.IH [OF this] False rv tr show ?thesis
      by (simp add: send_msg_with_drop_and_delay_def)
  qed
qed

text \<open>
  A multicast without drops and send errors queues the own message under the next sequence
  number, enters that number as the process's own proposal, remembers the data, sends the packet to
  every other host exactly once and starts one watchdog for each of them.
\<close>

lemma multicast_reaches_every_other_host:
  assumes "lossless e s" "curr_seq_number s < INT_MAX" "curr_msg_id s < INT_MAX" "0 \<le> curr_msg_id s"
    and "is_heap cmp (deliveryQueue s)" "num_hosts s = int (length (hostNames s))"
    and "map_ok (ackHistory s)" "map_of (ackHistory s) (curr_msg_id s) = None"
  shows "\<exists>s' junk. multicast_datamsg e data s = Inr s' \<and> length junk = MAX_STRUCT_SIZE \<and>
    (let n = curr_seq_number s + 1; k = curr_msg_id s; me = to_u32 (current_container_id s);
         dm = \<lparr>dm_type = DATAMSG_TYPE, dm_sender = me, dm_msg_id = to_u32 k, dm_data = data\<rparr>;
         others = filter (\<lambda>h. h \<noteq> current_container_name s) (hostNames s)
     in curr_msg_id s' = k + 1 \<and> curr_seq_number s' = n \<and>
        mset (deliveryQueue s') = add_mset
          (make_queued_msg (to_u32 n) UNDELIVERABLE me (to_u32 k) data me) (mset (deliveryQueue s)) \<and>
        map_of (ackHistory s') = (map_of (ackHistory s))(k \<mapsto> [(current_container_id s, n)]) \<and>
        outbox s' = outbox s @ map (\<lambda>h. \<lparr>p_src = current_container_name s, p_dst = h,
          p_payload = serialize_data_message dm junk\<rparr>) others \<and>
        watchdogs s' = watchdogs s @ map (\<lambda>h. DataWatchdog dm h 0) others)"
proof -
  let ?n = "curr_seq_number s + 1" and ?k = "curr_msg_id s"
  let ?s4 = "queue_own data ?n s"
  let ?dm = "\<lparr>dm_type = DATAMSG_TYPE, dm_sender = to_u32 (current_container_id s),
    dm_msg_id = to_u32 ?k, dm_data = data\<rparr>"
  let ?pkt = "serialize_data_message ?dm (uninit_packet e ?s4)"
  have inc: "incr_int ?k = Some (?k + 1)" "incr_int (curr_seq_number s) = Some ?n"
    using assms(2,3) by (simp_all add: incr_int_def)
  have kr: "to_int (to_u32 ?k) = ?k" using assms(3,4) by (simp add: int_rangeI)
  have ll: "lossless e ?s4" using assms(1) by (rule lossless_same) (simp add: queue_own_def Let_def)
  obtain t sn where loop: "multicast_loop e ?dm ?pkt (hostNames s) ?s4 = Inr (?s4\<lparr>ticks := t, snapshot := sn,
    outbox := outbox ?s4 @ map (\<lambda>h. \<lparr>p_src = current_container_name ?s4, p_dst = h, p_payload = ?pkt\<rparr>)
      (filter (\<lambda>h. h \<noteq> current_container_name ?s4) (hostNames s)),
    watchdogs := watchdogs ?s4 @ map (\<lambda>h. DataWatchdog ?dm h 0)
      (filter (\<lambda>h. h \<noteq> current_container_name ?s4) (hostNames s))\<rparr>)" (is "_ = Inr ?s'")
    using multicast_loop_lossless [OF ll] by blast
  have "multicast_datamsg e data s = Inr ?s'"
    using loop by (simp add: multicast_datamsg_eq inc assms(6) Let_def)
  moreover have "mset (deliveryQueue ?s4) = add_mset (make_queued_msg (to_u32 ?n) UNDELIVERABLE
      (to_u32 (current_container_id s)) (to_u32 ?k) data (to_u32 (current_container_id s)))
      (mset (deliveryQueue s))"
    using dq.mset_push [OF assms(5)] by (simp add: queue_own_def Let_def)
  moreover have "map_of (ackHistory ?s4) = (map_of (ackHistory s))(?k \<mapsto> [(current_container_id s, ?n)])"
    using smap.ins_fresh [OF assms(7,8)] by (simp add: queue_own_def Let_def kr)
  ultimately show ?thesis
    by (intro exI [of _ ?s'] exI [of _ "uninit_packet e ?s4"]) (simp add: Let_def)
qed

text \<open>
  C26. The last missing acknowledgement settles a message: the history is complete, its maximum
  becomes the final number, the sequence message enters the history and goes to every other host
  once, and the process's own copy of the message becomes deliverable under that number.
\<close>

theorem last_ack_settles:
  assumes "lossless e s" "map_of (ackHistory s) (to_int (am_msg_id a)) = Some pm" "map_ok pm"
    and "map_of pm (to_int (am_proposer a)) = None" "num_hosts s = int (Suc (length pm))"
    and "curr_seq_number s < INT_MAX" "is_heap cmp (deliveryQueue s)"
    and "distinct (map uid (deliveryQueue s))"
    and "(am_sender a, am_msg_id a) \<in> uid ` set (deliveryQueue s)"
  shows "\<exists>s' fs fp junk. handle_ackmsg e a s = Inr s' \<and> length junk = MAX_STRUCT_SIZE \<and>
    get_max_sequence_from_proposerseq_map
      (map_insert (to_int (am_proposer a)) (to_int (am_proposed_seq a)) pm) = (fs, fp) \<and>
    (let sm = make_seq_msg (am_sender a) (am_msg_id a) fs fp in
     seqMessageHistory s' = seqMessageHistory s @ [sm] \<and>
     outbox s' = outbox s @ map (\<lambda>h. \<lparr>p_src = current_container_name s, p_dst = h,
         p_payload = serialize_seq_message sm junk\<rparr>)
       (filter (\<lambda>h. h \<noteq> current_container_name s) (take (Suc (length pm)) (hostNames s)))) \<and>
    (\<exists>m \<in> set (deliveredMessage s' @ deliveryQueue s'). uid m = (am_sender a, am_msg_id a) \<and>
       qm_status m = DELIVERABLE \<and> qm_sequence_number m = fs \<and> qm_proposer m = fp)"
proof -
  let ?pm = "map_insert (to_int (am_proposer a)) (to_int (am_proposed_seq a)) pm"
  let ?n = "curr_seq_number s + 1"
  let ?s1 = "ack_recorded a ?pm ?n [] s"
  obtain fs fp where mx: "get_max_sequence_from_proposerseq_map ?pm = (fs, fp)" by fastforce
  let ?sm = "make_seq_msg (am_sender a) (am_msg_id a) fs fp"
  let ?s2 = "?s1\<lparr>seqMessageHistory := seqMessageHistory ?s1 @ [?sm]\<rparr>"
  have len: "length ?pm = Suc (length pm)" using assms(3,4) by (rule smap.size_ins_fresh)
  have start: "handle_ackmsg e a s = finalize_message e a ?pm ?s1"
    using assms(4-6) len by (simp add: handle_ackmsg_known [OF assms(2)] incr_int_def Let_def)
  have ll: "lossless e ?s2" using assms(1) by (rule lossless_same) (simp add: ack_recorded_def)
  let ?junk = "uninit_packet e ?s2"
  let ?hs = "take (nat (num_hosts ?s2)) (hostNames ?s2)"
  obtain t sn where b: "broadcast_loop e (serialize_seq_message ?sm ?junk) ?hs ?s2 = Inr (?s2\<lparr>ticks := t, snapshot := sn,
      outbox := outbox ?s2 @ map (\<lambda>h. \<lparr>p_src = current_container_name ?s2, p_dst = h,
        p_payload = serialize_seq_message ?sm ?junk\<rparr>) (filter (\<lambda>h. h \<noteq> current_container_name ?s2) ?hs)\<rparr>)"
      (is "_ = Inr ?s3") using broadcast_loop_lossless [OF ll] by blast
  obtain q where ch: "change_queued_msg_seq_and_status (am_sender a) (am_msg_id a) fs fp DELIVERABLE
      (deliveryQueue s) = (0, q)" "is_heap cmp q"
    and mq: "mset q = image_mset (finalize (am_sender a) (am_msg_id a) fs fp DELIVERABLE) (mset (deliveryQueue s))"
    using change_found [OF assms(9,8)] by blast
  obtain rest out where loop: "deliver_loop q (deliveredMessage s) = (rest, deliveredMessage s @ out)"
    and dr: "dq.drained q rest out" using dq.loop_drains [OF ch(2)] by blast
  let ?s' = "?s3\<lparr>deliveryQueue := rest, deliveredMessage := deliveredMessage s @ out\<rparr>"
  have fin: "finalize_message e a ?pm ?s1 = Inr ?s'"
    using mx b ch(1) loop
    by (simp add: finalize_message_def broadcast_seq_msg_def Let_def deliver_msg_from_deliveryqueue_def)
  obtain m0 where m0: "m0 \<in> set (deliveryQueue s)" "uid m0 = (am_sender a, am_msg_id a)"
    using assms(9) by auto
  let ?m = "finalize (am_sender a) (am_msg_id a) fs fp DELIVERABLE m0"
  have "set q = set out \<union> set rest" using dr by (metis dq.drained_def set_mset_mset set_mset_union)
  moreover have "?m \<in> set q" using m0(1) arg_cong [OF mq, of set_mset] by simp
  ultimately have "?m \<in> set (deliveredMessage ?s' @ deliveryQueue ?s')" by auto
  moreover have "uid ?m = (am_sender a, am_msg_id a)" "qm_status ?m = DELIVERABLE"
    "qm_sequence_number ?m = fs" "qm_proposer ?m = fp"
    using m0(2) by (simp_all add: finalize_def uid_def)
  ultimately have "\<exists>m \<in> set (deliveredMessage ?s' @ deliveryQueue ?s'). uid m = (am_sender a, am_msg_id a) \<and>
       qm_status m = DELIVERABLE \<and> qm_sequence_number m = fs \<and> qm_proposer m = fp" by blast
  moreover have "seqMessageHistory ?s' = seqMessageHistory s @ [?sm]"
    "outbox ?s' = outbox s @ map (\<lambda>h. \<lparr>p_src = current_container_name s, p_dst = h,
         p_payload = serialize_seq_message ?sm ?junk\<rparr>)
       (filter (\<lambda>h. h \<noteq> current_container_name s) (take (Suc (length pm)) (hostNames s)))"
    using assms(5) by (simp_all add: nat_add_distrib)
  moreover have "handle_ackmsg e a s = Inr ?s'" using start fin by simp
  ultimately show ?thesis using mx length_uninit_packet [of e ?s2] unfolding Let_def
    by (intro exI [of _ ?s'] exI [of _ fs] exI [of _ fp] exI [of _ ?junk] conjI)
qed

theorem last_ack_settles_witness:
  "let a = make_ack_msg 1 0 1 2; pm = [(1, 2)];
       s = (initial_process demo_config 0)\<lparr>curr_msg_id := 1, ackHistory := [(0, pm)],
         deliveryQueue := [make_queued_msg 2 UNDELIVERABLE 1 0 7 1]\<rparr>
   in \<exists>s' fs fp junk. handle_ackmsg demo_env a s = Inr s' \<and> length junk = MAX_STRUCT_SIZE \<and>
    get_max_sequence_from_proposerseq_map
      (map_insert (to_int (am_proposer a)) (to_int (am_proposed_seq a)) pm) = (fs, fp) \<and>
    (let sm = make_seq_msg (am_sender a) (am_msg_id a) fs fp in
     seqMessageHistory s' = seqMessageHistory s @ [sm] \<and>
     outbox s' = outbox s @ map (\<lambda>h. \<lparr>p_src = current_container_name s, p_dst = h,
         p_payload = serialize_seq_message sm junk\<rparr>)
       (filter (\<lambda>h. h \<noteq> current_container_name s) (take (Suc (length pm)) (hostNames s)))) \<and>
    (\<exists>m \<in> set (deliveredMessage s' @ deliveryQueue s'). uid m = (am_sender a, am_msg_id a) \<and>
       qm_status m = DELIVERABLE \<and> qm_sequence_number m = fs \<and> qm_proposer m = fp)"
proof -
  let ?m = "make_queued_msg 2 UNDELIVERABLE 1 0 7 1"
  let ?s = "(initial_process demo_config 0)\<lparr>curr_msg_id := 1, ackHistory := [(0, [(1, 2)])],
    deliveryQueue := [?m]\<rparr>"
  have a: "to_int (am_msg_id (make_ack_msg 1 0 1 2)) = 0" "to_int (am_proposer (make_ack_msg 1 0 1 2)) = 2"
    by code_simp+
  have "lossless demo_env ?s" by (simp add: lossless_def demo_env_def) (simp add: demo_config_def)
  moreover have "is_heap cmp [?m]" by code_simp
  moreover have "uid ?m = (am_sender (make_ack_msg 1 0 1 2), am_msg_id (make_ack_msg 1 0 1 2))"
    by (simp add: uid_def make_queued_msg_def make_ack_msg_def)
  moreover have "num_hosts ?s = 2" by (simp add: demo_config_def)
  ultimately show ?thesis unfolding Let_def
    by (intro last_ack_settles [unfolded Let_def]) (simp_all add: a map_ok_Cons INT_MAX_def)
qed

text \<open>
  A repeated acknowledgement never changes the state of the protocol: before the history is
  complete nothing happens at all, afterwards the final number is sent again, to where the
  acknowledgement came from.
\<close>

lemma duplicate_ack_harmless:
  assumes "map_of (ackHistory s) (to_int (am_msg_id a)) = Some pm"
    and "map_of pm (to_int (am_proposer a)) = Some v"
    and "int (length pm) = num_hosts s \<longrightarrow>
      find (\<lambda>sm. sm_msg_id sm = am_msg_id a \<and> sm_sender sm = am_sender a) (seqMessageHistory s) = Some sm"
  shows "if int (length pm) = num_hosts s
    then \<exists>s' ps. handle_ackmsg e a s \<in> {Inr s', Inl (SendFailed, s')} \<and> same_core s s' \<and>
      curr_seq_number s' = curr_seq_number s \<and> outbox s' = outbox s @ ps \<and>
      set ps \<subseteq> {\<lparr>p_src = current_container_name s, p_dst = their_addr s,
        p_payload = serialize_seq_message sm (uninit_packet e s)\<rparr>}
    else handle_ackmsg e a s = Inr s"
proof (cases "int (length pm) = num_hosts s")
  case True
  obtain rv s' where t: "transmit e (their_addr s) (serialize_seq_message sm (uninit_packet e s)) s = (rv, s')"
    by fastforce
  obtain ps where ps: "sends s s' ps" "set ps \<subseteq> {\<lparr>p_src = current_container_name s, p_dst = their_addr s,
      p_payload = serialize_seq_message sm (uninit_packet e s)\<rparr>}" using transmit_sends [OF t] by blast
  have "handle_ackmsg e a s = (if rv = - 1 then Inl (SendFailed, s') else Inr s')"
    using True assms t
    by (simp add: handle_ackmsg_known [OF assms(1)] resend_seq_msg_def
        reply_msg_with_drop_and_delay_def)
  with True ps sends_fields [OF ps(1)] show ?thesis
    by (intro if_P [THEN iffD2] exI [of _ s'] exI [of _ ps]) auto
next
  case False
  with assms show ?thesis by (simp add: handle_ackmsg_known [OF assms(1)])
qed

text \<open>
  A final number for a message that has been delivered already is ignored: the process goes on
  in exactly the state it was in.
\<close>

lemma duplicate_seq_ignored:
  assumes "distinct (map uid (deliveredMessage s @ deliveryQueue s))"
    and "(sm_sender sm, sm_msg_id sm) \<in> uid ` set (deliveredMessage s)"
  shows "handle_seqmsg e sm s = Inr s"
proof -
  have "(sm_sender sm, sm_msg_id sm) \<notin> uid ` set (deliveryQueue s)" using assms by auto
  then have "change_queued_msg_seq_and_status (sm_sender sm) (sm_msg_id sm) (sm_final_seq sm)
      (sm_final_seq_proposer sm) DELIVERABLE (deliveryQueue s) = (- 1, deliveryQueue s)"
    by (rule change_not_found)
  moreover have "list_ex (is_msg (sm_sender sm) (sm_msg_id sm)) (deliveredMessage s)"
    using assms(2) by (auto simp: list_ex_iff is_msg_uid)
  ultimately show ?thesis by (simp add: handle_seqmsg_def)
qed

section \<open>Watchdogs\<close>

text \<open>
  A pass of a data watchdog ends the watchdog exactly when the host it watches has an entry in
  the acknowledgement history of the message; otherwise it sends the same data message to that host
  again and goes on, or the process exits because the send failed.
\<close>

lemma data_watchdog_resends_until_acked:
  assumes "map_of (ackHistory s) (to_int (dm_msg_id dm)) = Some pm"
  shows "if extract_int_from_string h \<in> dom (map_of pm)
    then datamsg_watchdog_pass e dm h s = Inr (True, s)
    else \<exists>s' ps. datamsg_watchdog_pass e dm h s \<in> {Inr (False, s'), Inl (SendFailed, s')} \<and>
      same_core s s' \<and> watchdogs s' = watchdogs s \<and> outbox s' = outbox s @ ps \<and>
      set ps \<subseteq> {\<lparr>p_src = current_container_name s, p_dst = h,
        p_payload = serialize_data_message dm (uninit_packet e s)\<rparr>}"
proof (cases "map_of pm (extract_int_from_string h)")
  case None
  obtain rv s' where t: "transmit e h (serialize_data_message dm (uninit_packet e s)) s = (rv, s')"
    by fastforce
  obtain ps where ps: "sends s s' ps" "set ps \<subseteq> {\<lparr>p_src = current_container_name s, p_dst = h,
      p_payload = serialize_data_message dm (uninit_packet e s)\<rparr>}" using transmit_sends [OF t] by blast
  have "datamsg_watchdog_pass e dm h s = (if rv = - 1 then Inl (SendFailed, s') else Inr (False, s'))"
    using assms None t
    by (simp add: datamsg_watchdog_pass_def map_count_zero send_msg_with_drop_and_delay_def)
  then have "datamsg_watchdog_pass e dm h s \<in> {Inr (False, s'), Inl (SendFailed, s')}" by simp
  moreover have "extract_int_from_string h \<notin> dom (map_of pm)" using None by (simp add: domIff)
  ultimately show ?thesis using ps sends_fields [OF ps(1)] by (simp only: if_False) blast
next
  case (Some v)
  then have "map_count pm (extract_int_from_string h) \<noteq> 0" by (simp add: map_count_zero)
  with assms Some show ?thesis by (simp add: datamsg_watchdog_pass_def domIff)
qed

text \<open>
  A pass of an acknowledgement watchdog ends the watchdog exactly when a final number of the
  message is in the history; otherwise it sends the same acknowledgement again.
\<close>

lemma ack_watchdog_resends_until_final:
  "if (am_sender a, am_msg_id a) \<in> seq_uid ` set (seqMessageHistory s)
   then ackmsg_watchdog_pass e a h s = Inr (True, s)
   else \<exists>s' ps. ackmsg_watchdog_pass e a h s \<in> {Inr (False, s'), Inl (SendFailed, s')} \<and>
     same_core s s' \<and> watchdogs s' = watchdogs s \<and> outbox s' = outbox s @ ps \<and>
     set ps \<subseteq> {\<lparr>p_src = current_container_name s, p_dst = h,
       p_payload = serialize_ack_message a (uninit_packet e s)\<rparr>}"
proof -
  let ?found = "list_ex (\<lambda>sm. sm_sender sm = am_sender a \<and> sm_msg_id sm = am_msg_id a) (seqMessageHistory s)"
  have found: "(am_sender a, am_msg_id a) \<in> seq_uid ` set (seqMessageHistory s) \<longleftrightarrow> ?found"
    by (force simp: list_ex_iff seq_uid_def image_iff)
  show ?thesis
  proof (cases ?found)
    case True
    then show ?thesis using found by (simp add: ackmsg_watchdog_pass_def)
  next
    case False
    obtain rv s' where t: "transmit e h (serialize_ack_message a (uninit_packet e s)) s = (rv, s')"
      by fastforce
    obtain ps where ps: "sends s s' ps" "set ps \<subseteq> {\<lparr>p_src = current_container_name s, p_dst = h,
        p_payload = serialize_ack_message a (uninit_packet e s)\<rparr>}" using transmit_sends [OF t] by blast
    have "ackmsg_watchdog_pass e a h s = (if rv = - 1 then Inl (SendFailed, s') else Inr (False, s'))"
      using False t by (simp add: ackmsg_watchdog_pass_def send_msg_with_drop_and_delay_def)
    then have "ackmsg_watchdog_pass e a h s \<in> {Inr (False, s'), Inl (SendFailed, s')}" by simp
    with False found ps sends_fields [OF ps(1)] show ?thesis by (simp only: if_False) blast
  qed
qed

text \<open>
  The turns the live watchdogs of a process have left at most: each may send
  \<open>WATCHDOG_RESEND_CAP\<close> times and is gone at the next turn.
\<close>

definition watchdog_budget :: "rm \<Rightarrow> nat" where
  "watchdog_budget s = (\<Sum>w \<leftarrow> watchdogs s. Suc (WATCHDOG_RESEND_CAP - attempts w))"

lemma sum_list_remove_nth:
  "k < length xs \<Longrightarrow> sum_list (map f xs) = f (xs ! k) + sum_list (map f (remove_nth k xs :: 'a list))"
  for f :: "'a \<Rightarrow> nat"
  by (subst id_take_nth_drop [of k xs], simp, simp add: remove_nth_def)

lemma sum_list_update_less:
  fixes f :: "'a \<Rightarrow> nat"
  assumes "k < length xs" "f y < f (xs ! k)"
  shows "sum_list (map f (xs[k := y])) < sum_list (map f xs)"
  using assms(1) assms(2) by (simp add: upd_conv_take_nth_drop sum_list_remove_nth [of k xs f])
    (simp add: remove_nth_def)

lemma watchdog_pass_keeps:
  "watchdog_pass e w s = Inr (b, s') \<Longrightarrow> watchdogs s' = watchdogs s"
  by (cases w) (auto simp: datamsg_watchdog_pass_def ackmsg_watchdog_pass_def
      send_msg_with_drop_and_delay_def dest: transmit_fields(5) split: option.splits if_splits prod.splits)

lemma attempts_next [simp]: "attempts (next_attempt w) = Suc (attempts w)"
  by (cases w) simp_all

text \<open>
  Watchdogs terminate: every turn of a live watchdog uses up part of a finite budget of turns,
  501 for each watchdog that starts, so a process in which no watchdog is started falls silent.
\<close>

lemma watchdogs_terminate:
  assumes "k < length (watchdogs s)" "watchdog_turn e k s = Inr s'"
  shows "watchdog_budget s' < watchdog_budget s \<and>
    watchdog_budget s \<le> length (watchdogs s) * Suc WATCHDOG_RESEND_CAP"
proof
  let ?w = "watchdogs s ! k" and ?f = "\<lambda>w. Suc (WATCHDOG_RESEND_CAP - attempts w)"
  have gone: "sum_list (map ?f (remove_nth k (watchdogs s))) < sum_list (map ?f (watchdogs s))"
    using sum_list_remove_nth [OF assms(1), of ?f] by simp
  show "watchdog_budget s' < watchdog_budget s"
  proof (cases "attempts ?w < WATCHDOG_RESEND_CAP")
    case False
    with assms have "s' = s\<lparr>watchdogs := remove_nth k (watchdogs s)\<rparr>" by (simp add: watchdog_turn_def)
    with gone show ?thesis by (simp add: watchdog_budget_def)
  next
    case True
    then obtain b s1 where p: "watchdog_pass e ?w s = Inr (b, s1)"
      and s': "s' = s1\<lparr>watchdogs := (if b then remove_nth k (watchdogs s1)
        else (watchdogs s1)[k := next_attempt ?w])\<rparr>"
      using assms by (auto simp: watchdog_turn_def Let_def split: sum.splits prod.splits)
    have "?f (next_attempt ?w) < ?f ?w" using True by simp
    with assms(1) have "sum_list (map ?f ((watchdogs s)[k := next_attempt ?w])) < sum_list (map ?f (watchdogs s))"
      by (rule sum_list_update_less)
    with gone s' watchdog_pass_keeps [OF p] show ?thesis by (simp add: watchdog_budget_def)
  qed
  have "sum_list (map ?f ws) \<le> length ws * Suc WATCHDOG_RESEND_CAP" for ws
    by (induction ws) auto
  then show "watchdog_budget s \<le> length (watchdogs s) * Suc WATCHDOG_RESEND_CAP"
    by (simp add: watchdog_budget_def)
qed

section \<open>The constructor\<close>

text \<open>
  After construction every host can be found under the number in its name, the maps and queues
  are empty, message numbers start at 0 and sequence numbers at 1, and the snapshot daemon has the
  same idea of the group as the multicast.
\<close>

lemma constructor_knows_hosts:
  assumes "distinct (map extract_int_from_string hosts)"
    and "s = ReliableMulticast hosts name rate buf mbuf"
  shows "(\<forall>h \<in> set hosts. map_of (hostIDtoHostName s) (extract_int_from_string h) = Some h) \<and>
    num_hosts s = int (length hosts) \<and> curr_msg_id s = 0 \<and> curr_seq_number s = 1 \<and>
    deliveryQueue s = [] \<and> deliveredMessage s = [] \<and> ackHistory s = [] \<and>
    snap_num_hosts (snapshot s) = num_hosts s \<and> snap_hostNames (snapshot s) = hostNames s \<and>
    curr_container_id (snapshot s) = extract_int_from_string name"
proof -
  have "map_of (fill_host_map hosts []) (extract_int_from_string h) = Some h" if "h \<in> set hosts" for h
    using assms(1) that by (intro fill_host_map_finds) simp_all
  then show ?thesis by (simp add: assms(2) ReliableMulticast_def set_rm_def)
qed

end
