(* ===== verification/SnapshotFacts.thy ===== *)
theory SnapshotFacts
  imports HandlerFacts
begin

text \<open>
  What the snapshot daemon does and does not do: it leaves the multicast alone, files every recorded
  message exactly once, stops recording a channel at its marker, and counts markers to the end. The
  properties with a limit in them (ids of two digits, the name of a channel) show where the code's
  buffers and keys do not fit its purpose.
\<close>

section \<open>The multicast is left alone\<close>

lemma calm_quiet: "calm s s' \<Longrightarrow> quiet s s'"
  by (simp add: calm_def)

lemma quiet_broadcast_markers: "quiet s t \<Longrightarrow> quiet s (state_of (broadcast_markers e t))"
  unfolding broadcast_markers_def
  by (erule quiet_trans) (rule calm_quiet [OF conjunct1 [OF calm_marker_loop]])

lemma quiet_initiate: "quiet s (state_of (initiate_snapshot e s))"
  unfolding initiate_snapshot_def Let_def
proof (rule quiet_broadcast_markers, rule quiet_trans, rule calm_quiet)
  show "calm s (take_local_snapshot s)" by (rule calm_steps)
  show "quiet (take_local_snapshot s) (tell_rm_to_start_recording_channel
      (take_local_snapshot s\<lparr>snapshot := (snapshot (take_local_snapshot s))\<lparr>amInitiator := True\<rparr>\<rparr>))"
    by (simp add: quiet_def same_core_def tell_rm_to_start_recording_channel_def)
qed

lemma quiet_finish: "quiet s t \<Longrightarrow> quiet s (finish_snapshot t)"
  by (simp add: quiet_def same_core_def finish_snapshot_def tell_rm_to_stop_recording_def)

lemma quiet_process_marker: "quiet s (state_of (process_marker s))"
proof (cases "markers_missing s")
  case False
  then show ?thesis by (simp add: process_marker_def quiet_finish)
next
  case True
  have q: "quiet s (mark_received p (s\<lparr>snapshot := c\<rparr>))"
    "quiet s (mark_received p (s\<lparr>snapshot := c\<rparr>)\<lparr>listener_pc := pc\<rparr>)" for p c pc
    by (simp_all add: quiet_def same_core_def mark_received_def)
  show ?thesis
    using True q by (auto simp: process_marker_def Let_def quiet_finish split: sum.split)
qed

lemma quiet_first_marker: "quiet s (state_of (first_marker e s))"
proof (cases "amInitiator (snapshot s)")
  case True
  then show ?thesis by (simp add: first_marker_def quiet_process_marker)
next
  case False
  let ?t = "tell_rm_to_start_recording_channel (take_local_snapshot (mark_received (marker_id s) s))"
  have "quiet s ?t"
    by (simp add: quiet_def same_core_def tell_rm_to_start_recording_channel_def
        take_local_snapshot_def mark_received_def)
  then have b: "quiet s (state_of (broadcast_markers e ?t))" by (rule quiet_broadcast_markers)
  show ?thesis
  proof (cases "broadcast_markers e ?t")
    case (Inl x)
    with b False show ?thesis by (simp add: first_marker_def Let_def)
  next
    case (Inr u)
    with b have u: "quiet s u" by simp
    then have "quiet s (u\<lparr>listener_pc := AwaitNext\<rparr>)" by (rule quiet_trans) simp
    with u Inr False show ?thesis by (simp add: first_marker_def Let_def quiet_finish)
  qed
qed

lemma quiet_listener: "quiet s (state_of (listener_turn e r s))"
proof -
  have acc: "accept_and_recv r s = Inr t \<Longrightarrow> quiet s t" "accept_and_recv r s = Inl x \<Longrightarrow> quiet s (state_of (Inl x))" for t x
    by (cases r; auto)+
  show ?thesis
    using acc quiet_trans [OF _ quiet_first_marker] quiet_trans [OF _ quiet_process_marker]
    by (auto simp: listener_turn_def split: listener_pc.split sum.split)
qed

definition multicast_state where
  "multicast_state s = (deliveryQueue s, deliveredMessage s, alreadyAckedMessages s, seqMessageHistory s,
     ackHistory s, dataHistory s, curr_msg_id s, curr_seq_number s, watchdogs s, outbox s)"

text \<open>
  Taking a snapshot does not disturb the multicast: whatever the initiator and the listener do,
  delivery queue, delivered messages, histories, counters, watchdogs and the datagrams sent stay as
  they are.
\<close>

lemma snapshot_leaves_multicast_alone:
  "multicast_state (state_of (initiate_snapshot e s)) = multicast_state s \<and>
   multicast_state (state_of (listener_turn e r s)) = multicast_state s"
  using quiet_initiate [of s e] quiet_listener [of s e r]
  by (simp add: quiet_def same_core_def multicast_state_def)

section \<open>Filing\<close>







text \<open>
  In a reachable group the name under which a recorded message is filed is that of the process
  that sent it, for incoming messages as intended. But a process's outgoing messages are classified
  the same way: every packet a process sends is filed under its own id, whoever it is addressed to,
  so the records of all outgoing channels fall together into one channel to the process itself.
\<close>

lemma messages_filed_under_sender:
  assumes "config_ok c" "reachable c envs g" "i < length g" "p \<in> set (outbox (state_of (g ! i)))"
  shows "p_src p = c_hosts c ! i \<and>
    (\<exists>t. classify_message (p_payload p) = Inr (extract_int_from_string (p_src p), t))"
proof -
  let ?H = "c_hosts c" and ?s = "view g i"
  note l = local_invD [OF reachableD(3) [OF assms(1-3)]]
  have src: "p_src p = ?H ! i" and pay: "payload_ok ?H i ?s (p_dst p) (p_payload p)"
    using l(9) assms(4) by (simp_all add: outbox_inv_def view_def)
  have "\<exists>t. classify_message (p_payload p) = Inr (hid ?H i, t)"
    using pay l(4,6) unfolding payload_ok_def
    by (auto simp: classify_message_def Let_def own_data_def acked_inv_def seq_inv_def
        DATAMSG_TYPE_def ACKMSG_TYPE_def SEQMSG_TYPE_def)
  with src show ?thesis by (simp add: hid_def)
qed

section \<open>Markers\<close>

lemma takeWhile_digits:
  "\<forall>c \<in> set ds. is_digit c \<Longrightarrow> takeWhile (\<lambda>c. c \<noteq> CHR 0x00) (ds @ CHR 0x00 # rest) = ds"
  by (induction ds) (auto simp: is_digit_def)

lemma stored_marker:
  assumes "\<forall>c \<in> set ds. is_digit c"
  shows "marker_id (s\<lparr>marker_buf := store_marker ds buf\<rparr>) = atoi (take 2 ds)"
proof -
  have "\<forall>c \<in> set (take 2 ds). is_digit c" using assms by (auto dest: in_set_takeD)
  then have "takeWhile (\<lambda>c. c \<noteq> CHR 0x00) (take 2 ds @ CHR 0x00 # rest) = take 2 ds" for rest
    by (rule takeWhile_digits)
  moreover have "take (min (length ds) 2) ds = take 2 ds" by (simp add: min_def)
  ultimately show ?thesis
    by (simp add: marker_id_def store_marker_def Let_def MAX_MARKER_SIZE_def)
qed

text \<open>
  A marker with an id of at most two digits is understood; a longer id is cut off after two digits,
  and the listener counts the marker for another process, one with an id below 100.
\<close>

lemma short_marker_understood:
  assumes "0 \<le> p" "p < 100" "accept_and_recv (Bytes (int_to_string p)) s = Inr s'"
  shows "marker_id s' = p"
proof -
  have len: "take 2 (nat_to_string (nat p)) = nat_to_string (nat p)"
    using assms(1,2) length_nat_to_string [of "nat p"] by simp
  have "marker_id s' = atoi (take 2 (int_to_string p))"
    using assms(1,3) stored_marker [OF nat_to_string_digits] by (auto simp: int_to_string_def)
  with len assms(1,2) atoi_int_to_string [of p] show ?thesis
    by (simp add: int_to_string_def INT_MAX_def)
qed

lemma long_marker_truncated:
  assumes "100 \<le> p" "accept_and_recv (Bytes (int_to_string p)) s = Inr s'"
  shows "0 \<le> marker_id s' \<and> marker_id s' < 100 \<and> marker_id s' \<noteq> p"
proof -
  let ?ds = "nat_to_string (nat p)"
  have "marker_id s' = atoi (take 2 ?ds)"
    using assms stored_marker [OF nat_to_string_digits] by (auto simp: int_to_string_def)
  moreover have "\<forall>c \<in> set (take 2 ?ds). is_digit c"
    using nat_to_string_digits by (auto dest: in_set_takeD)
  moreover have "take 2 ?ds \<noteq> []" using nat_to_string_nonempty by simp
  ultimately show ?thesis using assms(1) atoi_short_digits [of "take 2 ?ds"] by simp
qed

text \<open>
  C37. The listener reads out of its buffer the id that the sender printed if and only if the id has at
  most two digits: the buffer of \<open>MAX_MARKER_SIZE\<close> characters has no room for more.
\<close>

theorem marker_understood_iff_short:
  assumes "0 \<le> p" "accept_and_recv (Bytes (int_to_string p)) s = Inr s'"
  shows "marker_id s' = p \<longleftrightarrow> p < 100"
  using short_marker_understood [OF assms(1) _ assms(2)] long_marker_truncated [OF _ assms(2)] by fastforce

theorem marker_understood_iff_short_witness:
  "let s = initial_process demo_config 0;
       s' = s\<lparr>marker_buf := store_marker (int_to_string 123) (marker_buf s)\<rparr> in
   marker_id s' \<noteq> 123"
proof -
  let ?s = "initial_process demo_config 0"
  let ?s' = "?s\<lparr>marker_buf := store_marker (int_to_string 123) (marker_buf ?s)\<rparr>"
  have "marker_id ?s' = 123 \<longleftrightarrow> (123 :: int) < 100"
    by (rule marker_understood_iff_short [where s = ?s]) simp_all
  then show ?thesis by simp
qed

section \<open>Counting markers\<close>

lemma drain_messages_keeps:
  "drain_messages d bs c = Inr c' \<Longrightarrow> alreadyReceivedProc c' = alreadyReceivedProc c \<and>
   snap_num_hosts c' = snap_num_hosts c"
proof (induction d bs c rule: drain_messages.induct)
  case (2 d b bs c)
  then obtain c1 where h: "handle_message (take MAX_STRUCT_SIZE b) d c = Inr c1"
    and r: "drain_messages d bs c1 = Inr c'" by (auto split: sum.splits)
  have "alreadyReceivedProc c1 = alreadyReceivedProc c \<and> snap_num_hosts c1 = snap_num_hosts c"
    using h by (auto simp: handle_message_def add_msg_to_inbound_def add_msg_to_outbound_def
        split: sum.splits direction.splits)
  with "2.IH" [OF h r] show ?case by simp
qed simp

lemma size_of_hosts: "1 \<le> n \<Longrightarrow> n \<le> INT_MAX \<Longrightarrow> to_size_t (n - 1) = n - 1"
  by (simp add: to_size_t_def INT_MAX_def)

lemma process_marker_counts:
  assumes "snap_known (snapshot s)" "snap_num_hosts (snapshot s) = n" "n \<le> INT_MAX"
    and "int (length (alreadyReceivedProc (snapshot s))) < n - 1"
  shows "\<exists>s'. process_marker s = Inr s' \<and>
    alreadyReceivedProc (snapshot s') = alreadyReceivedProc (snapshot s) @ [marker_id s] \<and>
    inboundMessageBuffer (snapshot s') = [] \<and> outboundMessageBuffer (snapshot s') = [] \<and>
    (if int (Suc (length (alreadyReceivedProc (snapshot s)))) = n - 1
     then listener_pc s' = Finished \<and> \<not> recordMessages s'
     else listener_pc s' = AwaitNext \<and> recordMessages s' = recordMessages s)"
proof -
  have n: "to_size_t (n - 1) = n - 1" using assms(3,4) by (intro size_of_hosts) auto
  then have miss: "markers_missing s" using assms(2,4) by (simp add: markers_missing_def)
  obtain c1 c2 where c: "drain_inbound (snapshot s) = Inr c1" "drain_outbound c1 = Inr c2"
    "inboundMessageBuffer c2 = []" "outboundMessageBuffer c2 = []"
    using assms(1) by (rule drains_known)
  have "alreadyReceivedProc c2 = alreadyReceivedProc (snapshot s) \<and> snap_num_hosts c2 = n"
    using c(1,2) assms(2) drain_messages_keeps
    by (fastforce simp: drain_inbound_def drain_outbound_def split: sum.splits)
  then show ?thesis
    using miss c n
    by (simp add: process_marker_def mark_received_def all_markers_def finish_snapshot_def
        tell_rm_to_stop_recording_def Let_def)
qed

text \<open>
  Each further marker is counted once, after all recorded messages have been filed and both
  buffers emptied; with the marker that makes one for each of the other hosts, and with no earlier
  one, the listener ends and recording is switched off.
\<close>

lemma listener_counts_markers:
  assumes "listener_pc s = AwaitNext" "snap_known (snapshot s)" "snap_num_hosts (snapshot s) = n"
    and "n \<le> INT_MAX" "int (length (alreadyReceivedProc (snapshot s))) < n - 1"
    and "0 \<le> p" "p < 100"
  shows "\<exists>s'. listener_turn e (Bytes (int_to_string p)) s = Inr s' \<and>
    alreadyReceivedProc (snapshot s') = alreadyReceivedProc (snapshot s) @ [p] \<and>
    inboundMessageBuffer (snapshot s') = [] \<and> outboundMessageBuffer (snapshot s') = [] \<and>
    (if int (Suc (length (alreadyReceivedProc (snapshot s)))) = n - 1
     then listener_pc s' = Finished \<and> \<not> recordMessages s'
     else listener_pc s' = AwaitNext \<and> recordMessages s' = recordMessages s)"
proof -
  let ?s1 = "s\<lparr>marker_buf := store_marker (int_to_string p) (marker_buf s)\<rparr>"
  have "take 2 (nat_to_string (nat p)) = nat_to_string (nat p)"
    using assms(6,7) length_nat_to_string [of "nat p"] by simp
  then have m: "marker_id ?s1 = p"
    using assms(6,7) stored_marker [OF nat_to_string_digits] atoi_int_to_string [of p]
    by (simp add: int_to_string_def INT_MAX_def)
  have "listener_turn e (Bytes (int_to_string p)) s = process_marker ?s1"
    using assms(1) by (simp add: listener_turn_def)
  moreover obtain s' where "process_marker ?s1 = Inr s'"
    "alreadyReceivedProc (snapshot s') = alreadyReceivedProc (snapshot s) @ [p]"
    "inboundMessageBuffer (snapshot s') = []" "outboundMessageBuffer (snapshot s') = []"
    "if int (Suc (length (alreadyReceivedProc (snapshot s)))) = n - 1
     then listener_pc s' = Finished \<and> \<not> recordMessages s'
     else listener_pc s' = AwaitNext \<and> recordMessages s' = recordMessages s"
    using process_marker_counts [of ?s1 n] assms(2-5) m by (auto simp del: of_nat_Suc)
  ultimately show ?thesis by (intro exI [of _ s'] conjI) (simp_all del: of_nat_Suc)
qed

text \<open>
  A connection that could not be accepted counts as a marker: the listener does not look at the
  result of the call and counts the id that is still in its buffer once more.
\<close>

lemma failed_accept_counted:
  assumes "listener_pc s = AwaitNext" "snap_known (snapshot s)" "snap_num_hosts (snapshot s) \<le> INT_MAX"
    and "int (length (alreadyReceivedProc (snapshot s))) < snap_num_hosts (snapshot s) - 1"
  shows "\<exists>s'. listener_turn e AcceptFailed s = Inr s' \<and>
    alreadyReceivedProc (snapshot s') = alreadyReceivedProc (snapshot s) @ [marker_id s]"
proof -
  have "listener_turn e AcceptFailed s = process_marker s" using assms(1) by (simp add: listener_turn_def)
  with process_marker_counts [OF assms(2) refl assms(3,4)] show ?thesis by auto
qed

section \<open>Initiating\<close>

lemma marker_loop_connected:
  assumes "\<forall>k. \<exists>fd. tcp_connect e k = Connected fd" "\<forall>k fd. tcp_send_rv e k fd \<noteq> - 1"
  shows "\<exists>t. marker_loop e hs s = Inr (s\<lparr>ticks := t, marker_outbox := marker_outbox s @
    map (\<lambda>h. \<lparr>mk_src = curr_container_name (snapshot s), mk_dst = h, mk_text = our_id s\<rparr>)
      (filter (\<lambda>h. h \<noteq> curr_container_name (snapshot s)) hs)\<rparr>)"
proof (induction hs arbitrary: s)
  case Nil
  show ?case by (intro exI [of _ "ticks s"]) simp
next
  case (Cons h hs)
  obtain fd where fd: "tcp_connect e (ticks s) = Connected fd" using assms(1) by blast
  let ?s1 = "s\<lparr>ticks := Suc (ticks s), marker_outbox := marker_outbox s @
    [\<lparr>mk_src = curr_container_name (snapshot s), mk_dst = h, mk_text = our_id s\<rparr>]\<rparr>"
  have id: "our_id (s\<lparr>ticks := t\<rparr>) = our_id s" "our_id ?s1 = our_id s" for t by (simp_all add: our_id_def)
  show ?case
    using Cons.IH [of s] Cons.IH [of ?s1] fd assms(2) by (simp add: Let_def id)
qed

text \<open>
  A process that initiates a snapshot over working connections has recorded its own queue and
  delivered messages as they are, records its channels from then on, and has sent one marker with
  its id to every other host.
\<close>

lemma initiator_records_and_marks:
  assumes "\<forall>k. \<exists>fd. tcp_connect e k = Connected fd" "\<forall>k fd. tcp_send_rv e k fd \<noteq> - 1"
    and "snap_num_hosts (snapshot s) = int (length (snap_hostNames (snapshot s)))"
  shows "\<exists>s'. initiate_snapshot e s = Inr s' \<and> recordMessages s' \<and> amInitiator (snapshot s') \<and>
    ls_deliveryQueue (locsnap (snapshot s')) = deliveryQueue s \<and>
    ls_deliveredMessage (locsnap (snapshot s')) = deliveredMessage s \<and>
    marker_outbox s' = marker_outbox s @
      map (\<lambda>h. \<lparr>mk_src = curr_container_name (snapshot s), mk_dst = h,
                 mk_text = int_to_string (curr_container_id (snapshot s))\<rparr>)
        (filter (\<lambda>h. h \<noteq> curr_container_name (snapshot s)) (snap_hostNames (snapshot s)))"
proof -
  let ?s1 = "take_local_snapshot s"
  let ?s2 = "?s1\<lparr>snapshot := (snapshot ?s1)\<lparr>amInitiator := True\<rparr>\<rparr>"
  let ?s3 = "tell_rm_to_start_recording_channel ?s2"
  have "initiate_snapshot e s = marker_loop e (snap_hostNames (snapshot s)) ?s3"
    using assms(3) by (simp add: initiate_snapshot_def broadcast_markers_def Let_def
        tell_rm_to_start_recording_channel_def take_local_snapshot_def)
  moreover obtain t where "marker_loop e (snap_hostNames (snapshot s)) ?s3 = Inr (?s3\<lparr>ticks := t,
      marker_outbox := marker_outbox ?s3 @
        map (\<lambda>h. \<lparr>mk_src = curr_container_name (snapshot ?s3), mk_dst = h, mk_text = our_id ?s3\<rparr>)
          (filter (\<lambda>h. h \<noteq> curr_container_name (snapshot ?s3)) (snap_hostNames (snapshot s)))\<rparr>)"
    using marker_loop_connected [OF assms(1,2)] by blast
  ultimately show ?thesis
    by (simp add: tell_rm_to_start_recording_channel_def take_local_snapshot_def our_id_def
        get_local_state_snapshot_def)
qed

text \<open>
  The line written for a recorded message fits the buffer \<open>char buff[100]\<close> of \<open>sprintf\<close> with
  its terminating zero, whatever the message holds.
\<close>

lemma message_text_fits_buffer:
  assumes "classify_message b = Inr (p, t)"
  shows "length t < 100"
proof -
  have "length (show_u32 w) \<le> 11" for w by (simp add: show_u32_def length_int_to_string)
  note b = this
  have "length (describe_data m) < 100" for m
    unfolding describe_data_def
    using b [of "dm_type m"] b [of "dm_sender m"] b [of "dm_msg_id m"] b [of "dm_data m"] by simp
  moreover have "length (describe_ack a) < 100" for a
    unfolding describe_ack_def
    using b [of "am_type a"] b [of "am_sender a"] b [of "am_msg_id a"] b [of "am_proposed_seq a"]
      b [of "am_proposer a"] by simp
  moreover have "length (describe_seq sm) < 100" for sm
    unfolding describe_seq_def
    using b [of "sm_type sm"] b [of "sm_sender sm"] b [of "sm_msg_id sm"] b [of "sm_final_seq sm"]
      b [of "sm_final_seq_proposer sm"] by simp
  ultimately show ?thesis
    using assms by (auto simp: classify_message_def Let_def split: if_splits)
qed

end
