(* ===== verification/CommandLine.thy ===== *)
theory CommandLine
  imports SnapshotFacts
begin

text \<open>
  \<open>main.cpp\<close>: the command line and the loop of the main thread, which multicasts its messages one
  after the other and takes one snapshot on the way.
\<close>

section \<open>Parameters\<close>

text \<open>
  What \<open>atof\<close> may return. The conversion itself, with its rounding, is a parameter of the model; the
  program compares its result with 0 and 1 and with random numbers.
\<close>

datatype double = NaN | PosInf | NegInf | Finite rat

fun less_zero :: "double \<Rightarrow> bool" where
  "less_zero (Finite q) = (q < 0)"
| "less_zero NegInf = True"
| "less_zero _ = False"

fun at_least_one :: "double \<Rightarrow> bool" where
  "at_least_one (Finite q) = (q \<ge> 1)"
| "at_least_one PosInf = True"
| "at_least_one _ = False"

text \<open>The global variables and what they start with.\<close>

record params =
  num_msg_tosend :: int
  param_drop_rate :: double
  delay_in_ms :: int
  snapshotafter :: int
  hostFileName :: "string option"

definition default_params :: params where
  "default_params = \<lparr>num_msg_tosend = - 1, param_drop_rate = Finite 0, delay_in_ms = 0,
     snapshotafter = - 1, hostFileName = None\<rparr>"

datatype usage_exit = Usage | BadCount | BadDropRate | BadDelay | BadSnapshot

text \<open>The loop over the arguments behind the program's name, two at a time.\<close>

fun param_loop :: "(string \<Rightarrow> double) \<Rightarrow> string list \<Rightarrow> params \<Rightarrow> usage_exit + params" where
  "param_loop atof (opt # arg # args) p =
     (if opt = ''-h'' then param_loop atof args (p\<lparr>hostFileName := Some arg\<rparr>)
      else if opt = ''-c'' then
        (let p1 = p\<lparr>num_msg_tosend := strtol arg\<rparr> in
         if num_msg_tosend p1 < 0 then Inl BadCount else param_loop atof args p1)
      else if opt = ''-d'' then
        (let p1 = p\<lparr>param_drop_rate := atof arg\<rparr> in
         if less_zero (param_drop_rate p1) \<or> at_least_one (param_drop_rate p1) then Inl BadDropRate
         else param_loop atof args p1)
      else if opt = ''-t'' then
        (let p1 = p\<lparr>delay_in_ms := atoi arg\<rparr> in
         if delay_in_ms p1 < 0 then Inl BadDelay else param_loop atof args p1)
      else if opt = ''-X'' then
        (let p1 = p\<lparr>snapshotafter := atoi arg\<rparr> in
         if snapshotafter p1 < 0 \<or> snapshotafter p1 > num_msg_tosend p1 then Inl BadSnapshot
         else param_loop atof args p1)
      else Inl Usage)"
| "param_loop atof _ p = Inr p"

definition handle_param :: "(string \<Rightarrow> double) \<Rightarrow> string list \<Rightarrow> usage_exit + params" where
  "handle_param atof argv =
     (let argc = length argv in
      if argc < 5 \<or> argc mod 2 = 0 then Inl Usage
      else case param_loop atof (tl argv) default_params of
             Inl err \<Rightarrow> Inl err
           | Inr p \<Rightarrow> if num_msg_tosend p = - 1 then Inl Usage else Inr p)"

section \<open>The main thread\<close>

text \<open>One turn of the loop: \<open>i*198%27\<close> is computed in \<open>int\<close>.\<close>

definition fits_int :: "int \<Rightarrow> bool" where
  "fits_int x \<longleftrightarrow> - INT_MAX - 1 \<le> x \<and> x \<le> INT_MAX"

lemma fits_int_range: "fits_int x \<longleftrightarrow> x \<in> int_range"
  by (simp add: fits_int_def int_range_def INT_MAX_def)

definition main_iteration :: "env \<Rightarrow> params \<Rightarrow> int \<Rightarrow> rm \<Rightarrow> outcome" where
  "main_iteration e p i s =
     (if \<not> fits_int (i * 198) then Inl (SignedOverflow, s)
      else case multicast_datamsg e (to_u32 (i * 198 mod 27)) s of
             Inl err \<Rightarrow> Inl err
           | Inr s1 \<Rightarrow> if i = snapshotafter p - 1 then initiate_snapshot e s1 else Inr s1)"

text \<open>
  The whole loop, with nothing in between; what other threads do between two turns is in the group's
  step relation.
\<close>

function main_loop :: "env \<Rightarrow> params \<Rightarrow> int \<Rightarrow> rm \<Rightarrow> outcome" where
  "main_loop e p i s =
     (if i < num_msg_tosend p
      then case main_iteration e p i s of Inl err \<Rightarrow> Inl err | Inr s1 \<Rightarrow> main_loop e p (i + 1) s1
      else Inr s)"
  by pat_completeness auto
termination by (relation "measure (\<lambda>(e, p, i, s). nat (num_msg_tosend p - i))") auto

declare main_loop.simps [simp del]

section \<open>Facts on the command line\<close>

fun option_names :: "string list \<Rightarrow> string list" where
  "option_names (opt # arg # args) = opt # option_names args"
| "option_names _ = []"

definition params_ok :: "params \<Rightarrow> bool" where
  "params_ok p \<longleftrightarrow> - 1 \<le> num_msg_tosend p \<and> num_msg_tosend p \<le> LONG_MAX \<and>
     \<not> less_zero (param_drop_rate p) \<and> \<not> at_least_one (param_drop_rate p) \<and>
     0 \<le> delay_in_ms p \<and> delay_in_ms p \<le> INT_MAX \<and> - 1 \<le> snapshotafter p \<and> snapshotafter p \<le> INT_MAX"

lemma strtol_max: "strtol s \<le> LONG_MAX"
  by (simp add: strtol_def Let_def LONG_MAX_def LONG_MIN_def)

lemma atoi_max: "atoi s \<le> INT_MAX"
  using to_int_range [of "to_u32 (strtol s)"] by (simp add: atoi_def int_range_def INT_MAX_def)

lemma param_loop_ok:
  "param_loop atof args p = Inr p' \<Longrightarrow> params_ok p \<Longrightarrow> params_ok p'"
  by (induction atof args p rule: param_loop.induct)
    (auto simp: params_ok_def strtol_max atoi_max Let_def split: if_splits)

lemma param_loop_host_file:
  "param_loop atof args p = Inr p' \<Longrightarrow> hostFileName p' = None \<longleftrightarrow>
    hostFileName p = None \<and> ''-h'' \<notin> set (option_names args)"
  by (induction atof args p rule: param_loop.induct) (auto simp: Let_def split: if_splits)

lemma param_loop_snapshot:
  "param_loop atof args p = Inr p' \<Longrightarrow> distinct (option_names args) \<Longrightarrow>
   - 1 \<le> snapshotafter p \<Longrightarrow> snapshotafter p \<le> num_msg_tosend p \<Longrightarrow>
   (''-c'' \<in> set (option_names args) \<Longrightarrow> num_msg_tosend p = - 1) \<Longrightarrow>
   snapshotafter p' \<le> num_msg_tosend p'"
  by (induction atof args p rule: param_loop.induct) (auto simp: Let_def split: if_splits)

lemma handle_paramE:
  assumes "handle_param atof argv = Inr p"
  obtains "param_loop atof (tl argv) default_params = Inr p" "num_msg_tosend p \<noteq> - 1"
  using assms that by (auto simp: handle_param_def Let_def split: if_splits sum.splits)

text \<open>
  C35. A command line that is accepted gives parameters in their ranges: a count from 0 on, a drop
  rate that is not below 0 and not 1 or more, a delay from 0 on; a snapshot point at most the count
  if every option is given once. The host file is there exactly if \<open>-h\<close> is, which is not checked.
\<close>

theorem accepted_parameters_in_range:
  assumes "handle_param atof argv = Inr p"
  shows "0 \<le> num_msg_tosend p \<and> num_msg_tosend p \<le> LONG_MAX \<and>
    (param_drop_rate p = NaN \<or> (\<exists>q. param_drop_rate p = Finite q \<and> 0 \<le> q \<and> q < 1)) \<and>
    0 \<le> delay_in_ms p \<and> delay_in_ms p \<le> INT_MAX \<and>
    - 1 \<le> snapshotafter p \<and> snapshotafter p \<le> INT_MAX \<and>
    (distinct (option_names (tl argv)) \<longrightarrow> snapshotafter p \<le> num_msg_tosend p) \<and>
    (hostFileName p = None \<longleftrightarrow> ''-h'' \<notin> set (option_names (tl argv)))"
proof -
  have d: "params_ok default_params" by (simp add: params_ok_def default_params_def LONG_MAX_def INT_MAX_def)
  obtain l: "param_loop atof (tl argv) default_params = Inr p" and n: "num_msg_tosend p \<noteq> - 1"
    using assms by (rule handle_paramE)
  have ok: "params_ok p" using l d by (rule param_loop_ok)
  have "distinct (option_names (tl argv)) \<longrightarrow> snapshotafter p \<le> num_msg_tosend p"
    using param_loop_snapshot [OF l] by (simp add: default_params_def)
  moreover have "hostFileName p = None \<longleftrightarrow> ''-h'' \<notin> set (option_names (tl argv))"
    using param_loop_host_file [OF l] by (simp add: default_params_def)
  moreover have "param_drop_rate p = NaN \<or> (\<exists>q. param_drop_rate p = Finite q \<and> 0 \<le> q \<and> q < 1)"
    using ok by (cases "param_drop_rate p") (auto simp: params_ok_def)
  ultimately show ?thesis using ok n by (simp add: params_ok_def)
qed

theorem accepted_parameters_in_range_witness:
  "\<exists>p. handle_param (\<lambda>s. Finite (1 / 10)) [''prj'', ''-c'', ''5'', ''-X'', ''5'', ''-d'', ''0.1''] = Inr p \<and>
     hostFileName p = None \<and> 0 \<le> num_msg_tosend p \<and> snapshotafter p \<le> num_msg_tosend p"
proof -
  let ?argv = "[''prj'', ''-c'', ''5'', ''-X'', ''5'', ''-d'', ''0.1'']"
  let ?p = "\<lparr>num_msg_tosend = 5, param_drop_rate = Finite (1 / 10), delay_in_ms = 0, snapshotafter = 5, hostFileName = None\<rparr>"
  have "strtol ''5'' = 5" "atoi ''5'' = 5" by code_simp+
  then have h: "handle_param (\<lambda>s. Finite (1 / 10)) ?argv = Inr ?p"
    by (simp add: handle_param_def default_params_def)
  from accepted_parameters_in_range [OF h] h show ?thesis by (intro exI [of _ ?p]) simp
qed

lemma param_loop_count_unset:
  "param_loop atof args p = Inr p' \<Longrightarrow> ''-c'' \<notin> set (option_names args) \<Longrightarrow>
   num_msg_tosend p' = num_msg_tosend p"
  by (induction atof args p rule: param_loop.induct) (auto simp: Let_def split: if_splits)

lemma param_loop_append:
  "even (length pre) \<Longrightarrow> param_loop atof (pre @ args) p =
    (case param_loop atof pre p of Inl err \<Rightarrow> Inl err | Inr p1 \<Rightarrow> param_loop atof args p1)"
  by (induction atof pre p rule: param_loop.induct) (auto simp: Let_def)

text \<open>
  The options are not free in their order, as the usage line suggests: a command line that gives
  \<open>-X\<close> before \<open>-c\<close> is refused, whatever the numbers are.
\<close>

lemma snapshot_before_count_refused:
  assumes "even (length pre)" "''-c'' \<notin> set (option_names pre)"
  shows "\<exists>err. handle_param atof (prog # pre @ ''-X'' # x # args) = Inl err"
proof (cases "param_loop atof pre default_params")
  case (Inl err)
  then show ?thesis by (auto simp: handle_param_def param_loop_append assms(1))
next
  case (Inr p)
  have "num_msg_tosend p = - 1" using param_loop_count_unset [OF Inr assms(2)] by (simp add: default_params_def)
  moreover have "atoi x < 0 \<or> - 1 < atoi x" by linarith
  ultimately have "param_loop atof (''-X'' # x # args) p = Inl BadSnapshot" by auto
  with Inr show ?thesis by (auto simp: handle_param_def param_loop_append assms(1))
qed

section \<open>Facts on the main thread\<close>

lemma main_data_values: "i * 198 mod 27 = 9 * (i mod 3)" for i :: int
proof -
  have e: "i * 198 = 9 * (22 * i)" by simp
  have "i * 198 mod 27 = 9 * (22 * i) mod (9 * 3)" unfolding e by simp
  also have "\<dots> = 9 * (22 * i mod 3)" by (rule mod_mult_mult1)
  also have "22 * i mod 3 = i mod 3" by presburger
  finally show ?thesis .
qed

text \<open>
  A turn of \<open>main\<close>'s loop is one or two steps of the group: a \<open>Multicast\<close> event, followed by an
  \<open>InitiateSnapshot\<close> event in the turn the snapshot is due. Hence all that holds of reachable groups
  holds of a group whose main threads run this loop.
\<close>

lemma main_turns_are_group_steps:
  assumes "reachable c envs g" "i < length g" "g ! i = Inr s" "k * 198 \<in> int_range"
  shows "reachable c envs (g[i := main_iteration (envs i) p k s])"
proof -
  let ?ev = "Multicast (to_u32 (k * 198 mod 27))"
  let ?g1 = "g[i := process_event (envs i) ?ev s]"
  have "group_step envs g ?g1" using assms(2,3) by (intro group_step.turn) simp_all
  with assms(1) have r1: "reachable c envs ?g1" unfolding reachable_def by (rule reach_step)
  show ?thesis
  proof (cases "multicast_datamsg (envs i) (to_u32 (k * 198 mod 27)) s")
    case (Inl err)
    with r1 show ?thesis using assms(4) by (simp add: main_iteration_def fits_int_range)
  next
    case (Inr s1)
    have "group_step envs ?g1 (?g1[i := process_event (envs i) InitiateSnapshot s1])"
      using Inr assms(2) by (intro group_step.turn) simp_all
    with r1 have "reachable c envs (?g1[i := process_event (envs i) InitiateSnapshot s1])"
      unfolding reachable_def by (rule reach_step)
    with r1 Inr assms(4) show ?thesis by (simp add: main_iteration_def fits_int_range)
  qed
qed

text \<open>What a turn leaves behind.\<close>

lemma initiator_transmit:
  "transmit e dst pkt s = (rv, s') \<Longrightarrow> amInitiator (snapshot s') = amInitiator (snapshot s)"
  by (auto simp: transmit_def record_outbound_def Let_def split: if_splits)

lemma multicast_loop_keeps:
  "multicast_loop e dm pkt hs s = Inr s' \<Longrightarrow>
   same_core s s' \<and> amInitiator (snapshot s') = amInitiator (snapshot s)"
proof (induction hs arbitrary: s)
  case Nil
  then show ?case by (simp add: same_core_def)
next
  case (Cons h hs)
  show ?case
  proof (cases "h = current_container_name s")
    case True
    with Cons show ?thesis by simp
  next
    case False
    obtain rv s1 where t: "transmit e h pkt s = (rv, s1)" by fastforce
    let ?s2 = "s1\<lparr>watchdogs := watchdogs s1 @ [DataWatchdog dm h 0]\<rparr>"
    have "multicast_loop e dm pkt hs ?s2 = Inr s'"
      using Cons.prems False t by (auto simp: send_msg_with_drop_and_delay_def split: if_splits)
    from Cons.IH [OF this] transmit_fields(1) [OF t] initiator_transmit [OF t]
    show ?thesis by (simp add: same_core_def)
  qed
qed

lemma multicast_keeps:
  assumes "multicast_datamsg e data s = Inr s'"
  shows "curr_msg_id s' = curr_msg_id s + 1"
    and "dataHistory s' = map_insert (to_int (to_u32 (curr_msg_id s))) (to_int data) (dataHistory s)"
    and "amInitiator (snapshot s') = amInitiator (snapshot s)"
proof -
  obtain n where n: "incr_int (curr_seq_number s) = Some n" and k: "incr_int (curr_msg_id s) = Some (curr_msg_id s + 1)"
    using assms by (auto simp: multicast_datamsg_eq incr_int_def split: if_splits)
  from multicast_loop_keeps assms n k
  have "same_core (queue_own data n s) s' \<and> amInitiator (snapshot s') = amInitiator (snapshot (queue_own data n s))"
    unfolding multicast_datamsg_eq Let_def by simp
  then show "curr_msg_id s' = curr_msg_id s + 1"
    and "dataHistory s' = map_insert (to_int (to_u32 (curr_msg_id s))) (to_int data) (dataHistory s)"
    and "amInitiator (snapshot s') = amInitiator (snapshot s)"
    by (simp_all add: same_core_def queue_own_def Let_def)
qed

lemma marker_loop_snapshot: "marker_loop e hs s = Inr s' \<Longrightarrow> snapshot s' = snapshot s"
proof (induction hs arbitrary: s)
  case (Cons h hs)
  let ?s1 = "s\<lparr>ticks := Suc (ticks s)\<rparr>"
  from Cons.prems have "marker_loop e hs s = Inr s' \<or> marker_loop e hs ?s1 = Inr s' \<or>
      (\<exists>m. marker_loop e hs (?s1\<lparr>marker_outbox := m\<rparr>) = Inr s')"
    by (auto simp: Let_def split: if_splits connect_outcome.splits)
  then show ?case using Cons.IH by fastforce
qed simp

lemma initiate_keeps:
  assumes "initiate_snapshot e s = Inr s'"
  shows "same_core s s'" "amInitiator (snapshot s')"
proof -
  show "same_core s s'" using quiet_initiate [of s e] assms by (simp add: quiet_def)
  from assms show "amInitiator (snapshot s')"
    by (auto simp: initiate_snapshot_def broadcast_markers_def Let_def
        tell_rm_to_start_recording_channel_def dest!: marker_loop_snapshot)
qed

text \<open>After \<open>k\<close> turns.\<close>

definition turns_done :: "params \<Rightarrow> int \<Rightarrow> rm \<Rightarrow> bool" where
  "turns_done p k s \<longleftrightarrow> curr_msg_id s = k \<and> map_ok (dataHistory s) \<and>
     (\<forall>j. map_of (dataHistory s) j = (if 0 \<le> j \<and> j < k then Some (9 * (j mod 3)) else None)) \<and>
     (amInitiator (snapshot s) \<longleftrightarrow> 1 \<le> snapshotafter p \<and> snapshotafter p \<le> k)"

lemma turns_done_step:
  assumes "main_iteration e p k s = Inr s'" "turns_done p k s" "0 \<le> k"
  shows "turns_done p (k + 1) s'"
proof -
  have r: "k * 198 \<in> int_range" using assms(1) by (auto simp: main_iteration_def fits_int_range split: if_splits)
  obtain s1 where m: "multicast_datamsg e (to_u32 (k * 198 mod 27)) s = Inr s1"
    and f: "if k = snapshotafter p - 1 then initiate_snapshot e s1 = Inr s' else s' = s1"
    using assms(1) r by (auto simp: main_iteration_def fits_int_range split: sum.splits if_splits)
  have k: "k \<in> int_range" using r assms(3) by (simp add: int_range_def)
  have "0 \<le> k mod 3" "k mod 3 < 3" by simp_all
  then have "9 * (k mod 3) \<in> int_range" unfolding int_range_def atLeastAtMost_iff by linarith
  then have v: "to_int (to_u32 (k * 198 mod 27)) = 9 * (k mod 3)"
    unfolding main_data_values by (rule to_int_to_u32)
  have mk: "map_of (dataHistory s) k = None" "map_ok (dataHistory s)" "curr_msg_id s = k"
    using assms(2) by (simp_all add: turns_done_def)
  have h: "dataHistory s1 = map_insert k (9 * (k mod 3)) (dataHistory s)" "curr_msg_id s1 = k + 1"
    "amInitiator (snapshot s1) = amInitiator (snapshot s)"
    using multicast_keeps [OF m] by (simp_all add: mk(3) k v)
  have c: "same_core s1 s' \<and> amInitiator (snapshot s') = (amInitiator (snapshot s1) \<or> k = snapshotafter p - 1)"
    using f initiate_keeps [of e s1 s'] by (auto simp: same_core_def split: if_splits)
  have "map_of (dataHistory s1) = (map_of (dataHistory s))(k \<mapsto> 9 * (k mod 3))"
    unfolding h(1) by (rule smap.ins_fresh [OF mk(2,1)])
  then show ?thesis
    using assms(2,3) c h mk smap.ok_ins [OF mk(2)] by (auto simp: turns_done_def same_core_def)
qed

lemma main_loop_turns:
  "main_loop e p k s = Inr s' \<Longrightarrow> 0 \<le> k \<Longrightarrow> k \<le> num_msg_tosend p \<Longrightarrow> turns_done p k s \<Longrightarrow>
   turns_done p (num_msg_tosend p) s'"
proof (induction e p k s rule: main_loop.induct)
  case (1 e p k s)
  show ?case
  proof (cases "k < num_msg_tosend p")
    case False
    with 1 show ?thesis by (simp add: main_loop.simps [of e p k s])
  next
    case True
    with "1.prems"(1) obtain s1 where s1: "main_iteration e p k s = Inr s1" "main_loop e p (k + 1) s1 = Inr s'"
      by (auto simp: main_loop.simps [of e p k s] split: sum.splits)
    have "turns_done p (k + 1) s1" using s1(1) "1.prems"(4,2) by (rule turns_done_step)
    then show ?thesis using "1.IH" [OF True s1] "1.prems"(2) True by simp
  qed
qed

text \<open>
  C34. Left to itself the main thread multicasts exactly as many messages as asked for, numbered from 0,
  with the data 0, 9, 18 in turn, and initiates a snapshot if and only if the snapshot point is
  between 1 and the count; a snapshot point of 0, which the command line admits, means none.
\<close>

theorem main_multicasts_as_asked:
  assumes "main_loop e p 0 s = Inr s'" "0 \<le> num_msg_tosend p"
    and "curr_msg_id s = 0" "dataHistory s = []" "\<not> amInitiator (snapshot s)"
  shows "curr_msg_id s' = num_msg_tosend p \<and>
    (\<forall>j. map_of (dataHistory s') j = (if 0 \<le> j \<and> j < num_msg_tosend p then Some (9 * (j mod 3)) else None)) \<and>
    (amInitiator (snapshot s') \<longleftrightarrow> 1 \<le> snapshotafter p \<and> snapshotafter p \<le> num_msg_tosend p)"
proof -
  have "turns_done p 0 s" using assms(3-5) by (simp add: turns_done_def)
  from main_loop_turns [OF assms(1) order_refl assms(2) this] show ?thesis by (simp add: turns_done_def)
qed

definition two_messages :: params where
  "two_messages = \<lparr>num_msg_tosend = 2, param_drop_rate = Finite 0, delay_in_ms = 0, snapshotafter = 1, hostFileName = None\<rparr>"

theorem main_multicasts_as_asked_witness:
  "\<exists>s'. main_loop demo_env two_messages 0 (initial_process demo_config 0) = Inr s' \<and> curr_msg_id s' = 2 \<and>
     map_of (dataHistory s') 1 = Some 9 \<and> amInitiator (snapshot s')"
proof -
  have "case main_loop demo_env two_messages 0 (initial_process demo_config 0) of Inl _ \<Rightarrow> False | Inr _ \<Rightarrow> True"
    by code_simp
  then obtain s' where m: "main_loop demo_env two_messages 0 (initial_process demo_config 0) = Inr s'"
    by (auto split: sum.splits)
  have "\<not> amInitiator (snapshot (initial_process demo_config 0))"
    by (simp add: initial_snapshot new_snapshot_def)
  moreover have "curr_msg_id (initial_process demo_config 0) = 0" "dataHistory (initial_process demo_config 0) = []"
    by (simp_all add: initial_process_def ReliableMulticast_def set_rm_def)
  ultimately show ?thesis using main_multicasts_as_asked [OF m] m
    by (intro exI [of _ s']) (simp add: two_messages_def)
qed

end
