(* ===== verification/MainProgram.thy ===== *)
theory MainProgram
  imports CommandLine StartUp
begin

text \<open>
  \<open>main\<close> up to its loop: the command line, the sockets, the constructor of \<open>ReliableMulticast\<close> with the
  host file and the start-up exchange. It ties the command line to the initial state of the group.
\<close>

section \<open>The start of the program\<close>






section \<open>It starts the process of the group model\<close>





section \<open>The delay\<close>

text \<open>
  \<open>start_delay\<close>: how long \<open>usleep\<close> is asked to sleep, if at all; \<open>None\<close> is a product that does not fit
  into an \<open>int\<close>. The command line accepts every delay up to \<open>INT_MAX\<close>.
\<close>

definition start_delay :: "int \<Rightarrow> int option option" where
  "start_delay delay =
     (if delay = 0 then Some None
      else if fits_int (delay * 1000) then Some (Some (delay * 1000)) else None)"

lemma start_delay_overflows:
  assumes "handle_param atof argv = Inr p"
  shows "start_delay (delay_in_ms p) = None \<longleftrightarrow> 2147483 < delay_in_ms p"
proof -
  have "params_ok default_params" by (simp add: params_ok_def default_params_def LONG_MAX_def INT_MAX_def)
  then have "params_ok p" using assms by (auto elim!: handle_paramE intro: param_loop_ok)
  then show ?thesis by (auto simp: start_delay_def fits_int_def INT_MAX_def params_ok_def)
qed

section \<open>Giving a TCP server back\<close>

definition TCP_Server_dtor :: "TCP_Server \<Rightarrow> os \<Rightarrow> socket_exit + os" where
  "TCP_Server_dtor t w =
     (case freeaddrinfo (ts_addrinfo t) w of
        Inl err \<Rightarrow> Inl err
      | Inr w1 \<Rightarrow> Inr (case ts_sockfd t of None \<Rightarrow> w1 | Some fd \<Rightarrow> close_fd fd w1))"

text \<open>
  A server that was bound gives back its address list; one whose address was not found frees a pointer
  that was never set.
\<close>

lemma tcp_server_given_back:
  assumes "TCP_Server_ctor port gai l a w = Inr (t, w1)" "os_ok w"
  shows "if ts_addrinfo t = None then TCP_Server_dtor t w1 = Inl FreeUninitialised
    else \<exists>w2. TCP_Server_dtor t w1 = Inr w2 \<and> addrinfos w2 = addrinfos w"
proof (cases "ts_addrinfo t")
  case None
  then show ?thesis by (simp add: TCP_Server_dtor_def freeaddrinfo_def)
next
  case (Some k)
  with assms have "k = next_addrinfo w" "addrinfos w1 = addrinfos w @ [next_addrinfo w]" "next_addrinfo w \<notin> set (addrinfos w)"
    by (auto simp: TCP_Server_ctor_def new_addrinfo_def os_ok_def split: option.splits prod.splits sum.splits if_splits)
  with Some show ?thesis
    by (auto simp: TCP_Server_dtor_def freeaddrinfo_def close_fd_def remove1_append split: option.split)
qed

end
