(* ===== verification/ProtocolFacts.thy ===== *)
theory ProtocolFacts
  imports SnapshotFacts "HOL-Library.Sublist"
begin

text \<open>
  Further properties of the multicast: the wire format, the receive buffer, the names of the hosts,
  delivery against a reference definition, the stability of what has been delivered, and the group
  of a single host.
\<close>

section \<open>Bytes and names\<close>

text \<open>
  C32. Every message survives the wire: whatever was on the stack where it is packed, its packet has
  20 bytes, its first word is the type, and unpacking gives the message back.
\<close>

theorem messages_survive_the_wire:
  assumes "length buf = MAX_STRUCT_SIZE"
  shows "deserialize_data_message (serialize_data_message d buf) = d \<and>
    deserialize_ack_message (serialize_ack_message a buf) = a \<and>
    deserialize_seq_message (serialize_seq_message q buf) = q \<and>
    map length [serialize_data_message d buf, serialize_ack_message a buf, serialize_seq_message q buf] =
      [MAX_STRUCT_SIZE, MAX_STRUCT_SIZE, MAX_STRUCT_SIZE] \<and>
    map (\<lambda>p. unpacku32 p 0) [serialize_data_message d buf, serialize_ack_message a buf, serialize_seq_message q buf] =
      [ucast (dm_type d), ucast (am_type a), ucast (sm_type q)]"
  using assms by simp

theorem messages_survive_the_wire_witness:
  "let d = \<lparr>dm_type = 1, dm_sender = 2, dm_msg_id = 3, dm_data = 4294967295\<rparr> in
   deserialize_data_message (serialize_data_message d (replicate 20 255)) = d"
  unfolding Let_def
  by (rule messages_survive_the_wire [THEN conjunct1]) (simp add: MAX_STRUCT_SIZE_def)

lemma word_or_disjoint: "x AND y = 0 \<Longrightarrow> x OR y = x + y" for x y :: u64
  using word_plus_and_or [of x y] by simp

lemma byte_word: "(ucast x :: u64) = word_of_int (uint x)" for x :: u8
  by (rule ucast_eq)

lemma push_byte: "push_bit n (ucast x :: u64) = word_of_int (uint x * 2 ^ n)" for x :: u8
  by (simp add: push_bit_eq_mult wi_hom_mult [symmetric])

lemma unpacku32_value:
  "uint (unpacku32 buf off) = uint (buf ! off) * 256 ^ 3 + uint (buf ! (off + 1)) * 256 ^ 2 +
      uint (buf ! (off + 2)) * 256 + uint (buf ! (off + 3))"
proof -
  define a b c d where "a = (ucast (buf ! off) :: u64)" and "b = (ucast (buf ! (off + 1)) :: u64)"
    and "c = (ucast (buf ! (off + 2)) :: u64)" and "d = (ucast (buf ! (off + 3)) :: u64)"
  note defs = a_def b_def c_def d_def
  have h: "push_bit 24 a AND push_bit 16 b = 0"
    "(push_bit 24 a OR push_bit 16 b) AND push_bit 8 c = 0"
    "((push_bit 24 a OR push_bit 16 b) OR push_bit 8 c) AND d = 0"
    by (rule bit_word_eqI, auto simp: defs bit_simps dest: bit_imp_le_length)+
  have "unpacku32 buf off = ((push_bit 24 a OR push_bit 16 b) OR push_bit 8 c) OR d"
    by (simp only: unpacku32_def defs or.assoc)
  also have "\<dots> = push_bit 24 a + push_bit 16 b + push_bit 8 c + d"
    by (subst word_or_disjoint [OF h(3)], subst word_or_disjoint [OF h(2)],
      subst word_or_disjoint [OF h(1)], rule refl)
  also have "\<dots> = word_of_int (uint (buf ! off) * 256 ^ 3 + uint (buf ! (off + 1)) * 256 ^ 2 +
      uint (buf ! (off + 2)) * 256 + uint (buf ! (off + 3)))"
    unfolding defs push_byte unfolding byte_word wi_hom_add by (rule arg_cong [of _ _ word_of_int]) simp
  finally have "uint (unpacku32 buf off) = (uint (buf ! off) * 256 ^ 3 + uint (buf ! (off + 1)) * 256 ^ 2 +
      uint (buf ! (off + 2)) * 256 + uint (buf ! (off + 3))) mod 2 ^ LENGTH(64)"
    by (simp only: uint_word_of_int)
  moreover have "0 \<le> uint x \<and> uint x < 256" for x :: u8 using uint_range_size [of x] by (simp add: word_size)
  from this [of "buf ! off"] this [of "buf ! (off + 1)"] this [of "buf ! (off + 2)"] this [of "buf ! (off + 3)"]
  have "0 \<le> uint (buf ! off) * 256 ^ 3 + uint (buf ! (off + 1)) * 256 ^ 2 +
      uint (buf ! (off + 2)) * 256 + uint (buf ! (off + 3)) \<and> uint (buf ! off) * 256 ^ 3 +
      uint (buf ! (off + 1)) * 256 ^ 2 + uint (buf ! (off + 2)) * 256 + uint (buf ! (off + 3)) < 2 ^ 64"
    by simp
  ultimately show ?thesis by (simp add: mod_pos_pos_trivial)
qed

text \<open>
  A word is packed as its big-endian digits in base 256 and unpacking adds them up; the 64 bits
  of \<open>unsigned long\<close> are cut to the low 32 on the way out.
\<close>

lemma packed_word_is_big_endian:
  assumes "off + 3 < length buf"
  shows "map (\<lambda>k. uint (packi32 buf off w ! (off + k))) [0, 1, 2, 3] =
      map (\<lambda>k. uint w div 256 ^ (3 - k) mod 256) [0, 1, 2, 3] \<and>
    uint (unpacku32 buf off) = uint (buf ! off) * 256 ^ 3 + uint (buf ! (off + 1)) * 256 ^ 2 +
      uint (buf ! (off + 2)) * 256 + uint (buf ! (off + 3))"
proof -
  have b: "uint (ucast v :: u8) = uint v mod 256" for v :: u64
    by (simp add: unsigned_ucast_eq take_bit_eq_mod)
  have d: "uint (drop_bit n w) = uint w div 2 ^ n" for n
    using uint_range_size [of w]
    by (simp only: unsigned_drop_bit_eq) (simp add: drop_bit_eq_div word_size take_bit_int_eq_self)
  have "map (\<lambda>k. packi32 buf off w ! (off + k)) [0, 1, 2, 3] =
      [ucast (drop_bit 24 w), ucast (drop_bit 16 w), ucast (drop_bit 8 w), ucast w]"
    using assms by (simp add: packi32_def nth_list_update)
  then have "map (\<lambda>k. uint (packi32 buf off w ! (off + k))) [0, 1, 2, 3] =
      map (\<lambda>k. uint w div 256 ^ (3 - k) mod 256) [0, 1, 2, 3]"
    by (simp add: b d)
  moreover note unpacku32_value [of buf off]
  ultimately show ?thesis by blast
qed

text \<open>
  The id of a process is the first number in its name, not the last: what stands before it must
  have no digit, what follows it does not matter, and a name without a digit gets the id 0.
\<close>

lemma process_id_is_first_number:
  assumes "\<forall>c \<in> set pre. \<not> is_digit c" "rest = [] \<or> \<not> is_digit (hd rest)" "int n \<le> INT_MAX"
  shows "extract_int_from_string (pre @ nat_to_string n @ rest) = int n \<and> extract_int_from_string pre = 0"
  using assms by (simp add: extract_int_numbered extract_int_no_digit)



section \<open>Delivery against a reference\<close>

definition reference_delivery :: "QueuedMessage list \<Rightarrow> QueuedMessage list" where
  "reference_delivery q = takeWhile (\<lambda>m. qm_status m = DELIVERABLE) (sort_key msg_key q)"

text \<open>
  C14. On a heap in which no two messages have the same number and proposer, the loop over the heap does
  what it is meant to do: it delivers the longest deliverable prefix of the messages sorted by
  number and proposer.
\<close>

theorem delivery_is_sorted_prefix:
  assumes "is_heap cmp (deliveryQueue s)" "distinct (map msg_key (deliveryQueue s))"
  shows "deliveredMessage (deliver_msg_from_deliveryqueue s) =
    deliveredMessage s @ reference_delivery (deliveryQueue s)"
proof -
  let ?q = "deliveryQueue s" and ?ready = "\<lambda>m. qm_status m = DELIVERABLE"
  obtain rest out where loop: "deliver_loop ?q (deliveredMessage s) = (rest, deliveredMessage s @ out)"
    and dr: "dq.drained ?q rest out"
    using dq.loop_drains [OF assms(1)] by blast
  have le: "\<not> cmp a b \<longleftrightarrow> msg_key a \<le> msg_key b" for a b by (auto simp: cmp_key not_less)
  have ms: "mset ?q = mset (out @ sort_key msg_key rest)" using dr by (simp add: dq.drained_def)
  have inj: "inj_on msg_key (set ?q)" using assms(2) by (simp add: distinct_map)
  have "sorted (map msg_key out)" using dr by (simp add: dq.drained_def le sorted_map)
  then have "sorted (map msg_key (out @ sort_key msg_key rest))"
    using dr by (auto simp: dq.drained_def le sorted_append)
  then have q: "sort_key msg_key ?q = out @ sort_key msg_key rest"
    using ms inj by (intro sort_key_inj_key_eq)
  have "takeWhile ?ready (sort_key msg_key rest) = []"
  proof (cases "rest = []")
    case False
    let ?t = "sort_key msg_key rest"
    have ne: "?t \<noteq> []" using False by (metis length_0_conv length_sort)
    have sub: "set rest \<subseteq> set ?q" using dr by (metis dq.drained_def set_mset_mset set_mset_union sup_ge2)
    have hd: "hd ?t \<in> set rest" using ne by (metis hd_in_set set_sort)
    have "msg_key (hd ?t) \<le> msg_key (hd rest)"
    proof -
      have "hd rest \<in> set ?t" using False by simp
      moreover have "sorted (map msg_key ?t)" by simp
      ultimately show ?thesis using ne by (cases ?t) auto
    qed
    moreover have "msg_key (hd rest) \<le> msg_key (hd ?t)"
      using dr hd dq.front [of rest "hd ?t"] by (simp add: dq.drained_def le)
    ultimately have "hd ?t = hd rest"
      using inj sub hd False by (metis antisym hd_in_set inj_onD subsetD)
    with dr False ne show ?thesis by (cases ?t) (auto simp: dq.drained_def)
  qed simp
  moreover have "takeWhile ?ready (out @ xs) = out @ takeWhile ?ready xs" for xs
    using dr by (intro takeWhile_append2) (simp add: dq.drained_def)
  ultimately show ?thesis using loop q by (simp add: deliver_msg_from_deliveryqueue_def reference_delivery_def)
qed

theorem delivery_is_sorted_prefix_witness:
  "let m = make_queued_msg 2 DELIVERABLE 1 0 7 1; u = make_queued_msg 3 UNDELIVERABLE 2 0 9 2;
       s = (initial_process demo_config 0)\<lparr>deliveryQueue := [m, u]\<rparr>
   in deliveredMessage (deliver_msg_from_deliveryqueue s) = deliveredMessage s @ reference_delivery [m, u]"
proof -
  have "is_heap cmp [make_queued_msg 2 DELIVERABLE 1 0 7 1, make_queued_msg 3 UNDELIVERABLE 2 0 9 2]"
    by code_simp
  with delivery_is_sorted_prefix [of "(initial_process demo_config 0)\<lparr>deliveryQueue :=
      [make_queued_msg 2 DELIVERABLE 1 0 7 1, make_queued_msg 3 UNDELIVERABLE 2 0 9 2]\<rparr>"]
  show ?thesis by (simp add: msg_key_def make_queued_msg_def Let_def)
qed

section \<open>What has been delivered stays\<close>

definition extends :: "rm \<Rightarrow> rm \<Rightarrow> bool" where
  "extends s s' \<longleftrightarrow> prefix (deliveredMessage s) (deliveredMessage s')"

lemma extends_core: "same_core s s' \<Longrightarrow> extends s s'"
  by (simp add: same_core_def extends_def)

lemma extends_trans: "extends s t \<Longrightarrow> extends t u \<Longrightarrow> extends s u"
  unfolding extends_def by (rule prefix_order.trans)

lemma extends_same [simp]: "deliveredMessage s' = deliveredMessage s \<Longrightarrow> extends s s'"
  by (simp add: extends_def)

lemma deliver_loop_extends: "prefix d (snd (deliver_loop q d))"
proof (induction q d rule: deliver_loop.induct)
  case (1 q d)
  then show ?case
    by (subst deliver_loop.simps) (auto intro: prefix_order.trans [OF prefixI])
qed

lemma deliver_extends: "deliveredMessage t = deliveredMessage s \<Longrightarrow> extends s (deliver_msg_from_deliveryqueue t)"
  using deliver_loop_extends [of "deliveredMessage t" "deliveryQueue t"]
  by (cases "deliver_loop (deliveryQueue t) (deliveredMessage t)")
    (simp add: extends_def deliver_msg_from_deliveryqueue_def)

lemma transmit_delivered: "transmit e dst pkt s = (rv, s') \<Longrightarrow> deliveredMessage s' = deliveredMessage s"
  by (drule transmit_frame(6))

lemma broadcast_loop_delivered: "deliveredMessage (state_of (broadcast_loop e pkt hs s)) = deliveredMessage s"
proof (induction hs arbitrary: s)
  case (Cons h hs)
  obtain rv s1 where t: "transmit e h pkt s = (rv, s1)" by fastforce
  with Cons transmit_delivered [OF t] show ?case by (simp add: send_msg_with_drop_and_delay_def)
qed simp

lemma multicast_loop_delivered: "deliveredMessage (state_of (multicast_loop e dm pkt hs s)) = deliveredMessage s"
proof (induction hs arbitrary: s)
  case (Cons h hs)
  obtain rv s1 where t: "transmit e h pkt s = (rv, s1)" by fastforce
  with Cons transmit_delivered [OF t] show ?case by (simp add: send_msg_with_drop_and_delay_def)
qed simp

lemma multicast_extends: "extends s (state_of (multicast_datamsg e data s))"
  by (auto simp: multicast_datamsg_eq multicast_loop_delivered queue_own_def Let_def split: option.split)

lemma resend_extends: "extends s (state_of (resend_seq_msg e am s))"
proof (cases "find (\<lambda>sm. sm_msg_id sm = am_msg_id am \<and> sm_sender sm = am_sender am) (seqMessageHistory s)")
  case None
  then show ?thesis by (simp add: resend_seq_msg_def)
next
  case (Some sm)
  obtain rv s1 where "transmit e (their_addr s) (serialize_seq_message sm (uninit_packet e s)) s = (rv, s1)"
    by fastforce
  with Some transmit_delivered [OF this] show ?thesis
    by (simp add: resend_seq_msg_def reply_msg_with_drop_and_delay_def)
qed

lemma finalize_extends: "extends s (state_of (finalize_message e am pm s))"
proof -
  have b: "deliveredMessage (state_of (broadcast_seq_msg e sm t)) = deliveredMessage t" for sm t
    by (simp add: broadcast_seq_msg_def broadcast_loop_delivered)
  show ?thesis
    using b by (auto simp: finalize_message_def Let_def split: prod.split sum.split
        intro!: deliver_extends dest!: arg_cong [of _ _ "\<lambda>r. deliveredMessage (state_of r)"])
qed

lemma handle_datamsg_extends: "extends s (state_of (handle_datamsg e dm s))"
proof -
  have t: "deliveredMessage (snd (transmit e d pkt u)) = deliveredMessage u" for d pkt u
    by (cases "transmit e d pkt u") (simp add: transmit_delivered)
  then show ?thesis
    by (auto simp: handle_datamsg_def reply_msg_with_drop_and_delay_def Let_def push_queue_def
        incr_seq_number_def split: option.split prod.split sum.split)
qed

lemma handle_ackmsg_extends: "extends s (state_of (handle_ackmsg e am s))"
proof -
  have "extends s (state_of (finalize_message e am pm t))" "extends s (state_of (resend_seq_msg e am t))"
    if "deliveredMessage t = deliveredMessage s" for pm t
    using that finalize_extends [of t e am pm] resend_extends [of t e am] by (simp_all add: extends_def)
  then show ?thesis
    by (auto simp: handle_ackmsg_def Let_def incr_seq_number_def split: prod.split option.split sum.split)
qed

lemma handle_seqmsg_extends: "extends s (state_of (handle_seqmsg e sm s))"
  by (auto simp: handle_seqmsg_def Let_def deliver_extends split: prod.split)

lemma receiver_extends: "extends s (state_of (msg_receiver_turn e r s))"
proof -
  have "extends s (state_of (dispatch e (record_inbound (s\<lparr>msg_buf := b, their_addr := a\<rparr>))))" for b a
  proof -
    let ?t = "record_inbound (s\<lparr>msg_buf := b, their_addr := a\<rparr>)"
    have "deliveredMessage ?t = deliveredMessage s" by (simp add: record_inbound_def)
    then show ?thesis
      using handle_datamsg_extends [of ?t] handle_ackmsg_extends [of ?t] handle_seqmsg_extends [of ?t]
      by (simp add: dispatch_def Let_def extends_def)
  qed
  then show ?thesis
    by (auto simp: msg_receiver_turn_def extends_def split: option.split sum.split)
      (metis state_of.simps)+
qed

lemma watchdog_pass_delivered:
  "watchdog_pass e w s = Inl (err, s1) \<Longrightarrow> deliveredMessage s1 = deliveredMessage s"
  "watchdog_pass e w s = Inr (b, s1) \<Longrightarrow> deliveredMessage s1 = deliveredMessage s"
  by (cases w; auto simp: datamsg_watchdog_pass_def ackmsg_watchdog_pass_def send_msg_with_drop_and_delay_def
      split: option.splits if_splits prod.splits dest: transmit_delivered)+

lemma watchdog_extends: "extends s (state_of (watchdog_turn e k s))"
  by (auto simp: watchdog_turn_def Let_def dest: watchdog_pass_delivered split: sum.split prod.split)

lemma event_extends: "extends s (state_of (process_event e ev s))"
proof (cases ev)
  case InitiateSnapshot
  then show ?thesis using quiet_initiate [of s e] by (simp add: quiet_def extends_core)
next
  case (ListenerTurn r)
  then show ?thesis using quiet_listener [of s e r] by (simp add: quiet_def extends_core)
qed (simp_all add: multicast_extends receiver_extends watchdog_extends)

text \<open>
  C13. Deliveries are final: whatever happens afterwards, what a process has delivered it keeps, in the
  same order, and later deliveries come behind it.
\<close>

theorem deliveries_are_final:
  assumes "reach (\<lambda>h. h = g) (group_step envs) g'" "i < length g"
  shows "prefix (deliveredMessage (state_of (g ! i))) (deliveredMessage (state_of (g' ! i)))"
proof -
  have "length g' = length g \<and> prefix (deliveredMessage (state_of (g ! i))) (deliveredMessage (state_of (g' ! i)))"
    using assms(1)
  proof (induction rule: reach.induct)
    case (reach_step h h')
    from reach_step.hyps(2) obtain j s ev where st: "j < length h" "h ! j = Inr s"
      "h' = h[j := process_event (envs j) ev s]" by (rule group_stepE)
    have "prefix (deliveredMessage (state_of (h ! i))) (deliveredMessage (state_of (h' ! i)))"
      using st event_extends [of s "envs j" ev] by (cases "i = j") (simp_all add: extends_def)
    with reach_step.IH st show ?case by (auto intro: prefix_order.trans)
  qed simp
  then show ?thesis by simp
qed

theorem deliveries_are_final_witness:
  "\<exists>g'. reach (\<lambda>h. h = demo_start) (group_step (\<lambda>i. demo_env)) g' \<and> deliveredMessage (state_of (g' ! 0)) = [msg1] \<and>
    prefix (deliveredMessage (state_of (demo_start ! 0))) (deliveredMessage (state_of (g' ! 0)))"
proof -
  obtain g' where g': "reachable demo_config (\<lambda>i. demo_env) g'" "deliveredMessage (state_of (g' ! 0)) = [msg1]"
    using demo_group [OF delivered_run] .
  then have r: "reach (\<lambda>h. h = demo_start) (group_step (\<lambda>i. demo_env)) g'"
    by (simp only: reachable_def demo_start)
  have "0 < length demo_start" by (simp add: demo_start_def)
  from deliveries_are_final [OF r this] r g'(2) show ?thesis by blast
qed

section \<open>A group of one\<close>

text \<open>
  A process that is alone queues its messages and waits: nothing is sent, nobody answers, no thread
  watches.
\<close>

definition alone :: "rm \<Rightarrow> bool" where
  "alone s \<longleftrightarrow> hostNames s = [current_container_name s] \<and> outbox s = [] \<and> watchdogs s = [] \<and>
     deliveredMessage s = []"

lemma alone_quiet: "alone s \<Longrightarrow> quiet s s' \<Longrightarrow> alone s'"
  by (simp add: alone_def quiet_def same_core_def)

lemma alone_multicast: "alone s \<Longrightarrow> alone (state_of (multicast_datamsg e data s))"
  by (cases "nat (num_hosts s)")
    (auto simp: multicast_datamsg_eq alone_def queue_own_def Let_def split: option.split)

lemma alone_receives_nothing: "alone s \<Longrightarrow> alone (state_of (msg_receiver_turn e None s))"
  by (simp add: msg_receiver_turn_def)

lemma alone_event:
  assumes "alone s" "\<And>p. ev \<noteq> Receive (Some p)"
  shows "alone (state_of (process_event e ev s))"
proof (cases ev)
  case (Receive r)
  with assms(2) have "r = None" by (cases r) blast+
  with Receive alone_receives_nothing [OF assms(1)] show ?thesis by simp
next
  case (WatchdogTurn k)
  with assms(1) show ?thesis by (simp add: watchdog_turn_def alone_def)
next
  case InitiateSnapshot
  with alone_quiet [OF assms(1) quiet_initiate] show ?thesis by simp
next
  case (ListenerTurn r)
  with alone_quiet [OF assms(1) quiet_listener] show ?thesis by simp
qed (simp add: alone_multicast assms(1))

definition all_alone :: "group \<Rightarrow> bool" where
  "all_alone g \<longleftrightarrow> length g = 1 \<and> alone (state_of (g ! 0))"

lemma all_alone_step:
  assumes "all_alone g" "group_step envs g g'"
  shows "all_alone g'"
proof -
  obtain r where g: "g = [r]" "alone (state_of r)"
    using assms(1) by (cases g) (auto simp: all_alone_def)
  from assms(2) obtain ev s where st: "r = Inr s" "possible g ev s" "g' = [process_event (envs 0) ev s]"
    by (rule group_stepE) (auto simp: g(1))
  have "wire g = []" using g by (simp add: wire_def alone_def)
  then have "ev \<noteq> Receive (Some p)" for p using st(2) by auto
  from alone_event [OF _ this] g(2) st(1,3) show ?thesis by (simp add: all_alone_def)
qed

interpretation solo: invariant "\<lambda>h. length (c_hosts c) = 1 \<and> h = initial_group c" "group_step envs" all_alone
  for c envs
proof
  fix g assume "length (c_hosts c) = 1 \<and> g = initial_group c"
  then have "c_hosts c = [c_hosts c ! 0]" "g = [Inr (initial_process c 0)]"
    by (cases "c_hosts c"; simp add: initial_group_def)+
  then show "all_alone g"
    by (simp add: all_alone_def alone_def initial_process_def ReliableMulticast_def set_rm_def)
qed (rule all_alone_step)

text \<open>
  A group of one host never delivers anything, not even its own messages: the history of a message
  starts with the own proposal, and only an acknowledgement from the network looks whether it is
  complete.
\<close>

lemma single_host_never_delivers:
  assumes "length (c_hosts c) = 1" "reachable c envs g"
  shows "deliveredMessage (state_of (g ! 0)) = []"
  using solo.always [of c envs g] assms by (simp add: reachable_def all_alone_def alone_def)

end
