(* ===== verification/Interleaving.thy ===== *)
theory Interleaving
  imports HandlerFacts
begin

text \<open>
  Below the level of whole handlers: the main thread inside \<open>multicast_datamsg\<close> and the receiver
  thread inside \<open>handle_datamsg\<close>, statement by statement, on one process. Both read and increment
  \<open>curr_seq_number\<close>, which no mutex protects, and both read it twice. A step is one access to the
  shared state, or one critical section of a mutex; what a thread has read sits in its local
  variables, which its program counter carries. (A single increment is taken to be indivisible.)
\<close>

section \<open>The main thread\<close>

datatype main_pc =
    MStart u32
  | MIncr DataMessage
  | MRead DataMessage
  | MInsert DataMessage int
  | MMake DataMessage int
  | MPush DataMessage int int
  | MSend DataMessage int int "u8 list" "string list"

text \<open>
  \<open>MInsert dm p\<close> holds the own proposal \<open>p\<close> in \<open>ackHistForThisMes\<close>, \<open>MPush dm p q\<close> the number \<open>q\<close> in
  \<open>queuedMessage\<close>; \<open>MSend\<close> with no hosts left is the end of the function.
\<close>

definition own_message :: "DataMessage \<Rightarrow> int \<Rightarrow> rm \<Rightarrow> QueuedMessage" where
  "own_message dm q s = make_queued_msg (to_u32 q) UNDELIVERABLE (dm_sender dm) (dm_msg_id dm) (dm_data dm)
     (to_u32 (current_container_id s))"

fun main_step :: "env \<Rightarrow> main_pc \<Rightarrow> rm \<Rightarrow> (exit_reason \<times> rm) + (main_pc \<times> rm)" where
  "main_step e (MStart data) s =
     (case incr_int (curr_msg_id s) of
        None \<Rightarrow> Inl (SignedOverflow, s)
      | Some next_id \<Rightarrow>
          let dm = \<lparr>dm_type = DATAMSG_TYPE, dm_sender = to_u32 (current_container_id s),
                dm_msg_id = to_u32 (curr_msg_id s), dm_data = data\<rparr>
          in Inr (MIncr dm, s\<lparr>curr_msg_id := next_id,
               dataHistory := map_insert (to_int (dm_msg_id dm)) (to_int (dm_data dm)) (dataHistory s)\<rparr>))"
| "main_step e (MIncr dm) s =
     (case incr_int (curr_seq_number s) of
        None \<Rightarrow> Inl (SignedOverflow, s)
      | Some next_seq \<Rightarrow> Inr (MRead dm, s\<lparr>curr_seq_number := next_seq\<rparr>))"
| "main_step e (MRead dm) s = Inr (MInsert dm (curr_seq_number s), s)"
| "main_step e (MInsert dm p) s =
     Inr (MMake dm p, s\<lparr>ackHistory := map_insert (to_int (dm_msg_id dm))
       (map_insert (current_container_id s) p []) (ackHistory s)\<rparr>)"
| "main_step e (MMake dm p) s = Inr (MPush dm p (curr_seq_number s), s)"
| "main_step e (MPush dm p q) s =
     (let s1 = push_queue (own_message dm q s) s
      in Inr (MSend dm p q (serialize_data_message dm (uninit_packet e s1))
           (take (nat (num_hosts s1)) (hostNames s1)), s1))"
| "main_step e (MSend dm p q pkt []) s = Inr (MSend dm p q pkt [], s)"
| "main_step e (MSend dm p q pkt (h # hs)) s =
     (if h \<noteq> current_container_name s
      then (case send_msg_with_drop_and_delay e h pkt s of
              (rv, s1) \<Rightarrow>
                if rv = - 1 then Inl (SendFailed, s1)
                else Inr (MSend dm p q pkt hs, s1\<lparr>watchdogs := watchdogs s1 @ [DataWatchdog dm h 0]\<rparr>))
      else Inr (MSend dm p q pkt hs, s))"

section \<open>The receiver thread\<close>

datatype receiver_pc =
    RStart DataMessage
  | RPush DataMessage int
  | RAck DataMessage int
  | RReply DataMessage int int
  | RIncr DataMessage int int
  | RWatch DataMessage int int
  | RDone DataMessage int int
  | RDuplicate

text \<open>
  \<open>b\<close> is the number in \<open>toQueue\<close>, \<open>a\<close> that in \<open>ackMessage\<close>. The search for an earlier acknowledgement is one
  step with what follows it: only this thread writes \<open>alreadyAckedMessages\<close>.
\<close>

definition peer_message :: "DataMessage \<Rightarrow> int \<Rightarrow> rm \<Rightarrow> QueuedMessage" where
  "peer_message dm b s = make_queued_msg (to_u32 b) UNDELIVERABLE (dm_sender dm) (dm_msg_id dm) (dm_data dm)
     (to_u32 (current_container_id s))"

definition ack_reply :: "DataMessage \<Rightarrow> int \<Rightarrow> rm \<Rightarrow> AckMessage" where
  "ack_reply dm a s = make_ack_msg (dm_sender dm) (dm_msg_id dm) (to_u32 a) (to_u32 (current_container_id s))"

fun receiver_step :: "env \<Rightarrow> receiver_pc \<Rightarrow> rm \<Rightarrow> (exit_reason \<times> rm) + (receiver_pc \<times> rm)" where
  "receiver_step e (RStart dm) s =
     (case find (\<lambda>am. am_sender am = dm_sender dm \<and> am_msg_id am = dm_msg_id dm) (alreadyAckedMessages s) of
        Some am \<Rightarrow>
          Inr (RDuplicate, snd (reply_msg_with_drop_and_delay e (serialize_ack_message am (uninit_packet e s)) s))
      | None \<Rightarrow> Inr (RPush dm (curr_seq_number s), s))"
| "receiver_step e (RPush dm b) s = Inr (RAck dm b, push_queue (peer_message dm b s) s)"
| "receiver_step e (RAck dm b) s =
     Inr (RReply dm b (curr_seq_number s),
       s\<lparr>alreadyAckedMessages := alreadyAckedMessages s @ [ack_reply dm (curr_seq_number s) s]\<rparr>)"
| "receiver_step e (RReply dm b a) s =
     Inr (RIncr dm b a, snd (reply_msg_with_drop_and_delay e
       (serialize_ack_message (ack_reply dm a s) (uninit_packet e s)) s))"
| "receiver_step e (RIncr dm b a) s =
     (case incr_seq_number s of Inl err \<Rightarrow> Inl err | Inr s1 \<Rightarrow> Inr (RWatch dm b a, s1))"
| "receiver_step e (RWatch dm b a) s =
     (case subscript [] (hostIDtoHostName s) (to_int (dm_sender dm)) of
        (m, rep_host_name) \<Rightarrow>
          Inr (RDone dm b a, s\<lparr>hostIDtoHostName := m,
            watchdogs := watchdogs s @ [AckWatchdog (ack_reply dm a s) rep_host_name 0]\<rparr>))"
| "receiver_step e (RDone dm b a) s = Inr (RDone dm b a, s)"
| "receiver_step e RDuplicate s = Inr (RDuplicate, s)"

section \<open>One thread at a time\<close>

text \<open>\<open>n\<close> steps of one thread with nothing in between.\<close>

fun steps :: "('pc \<Rightarrow> rm \<Rightarrow> (exit_reason \<times> rm) + ('pc \<times> rm)) \<Rightarrow> nat \<Rightarrow> 'pc \<Rightarrow> rm \<Rightarrow>
    (exit_reason \<times> rm) + ('pc \<times> rm)" where
  "steps step 0 pc s = Inr (pc, s)"
| "steps step (Suc n) pc s =
     (case step pc s of Inl err \<Rightarrow> Inl err | Inr (pc1, s1) \<Rightarrow> steps step n pc1 s1)"

text \<open>What a thread leaves behind, forgetting its local variables.\<close>

fun outcome_of :: "(exit_reason \<times> rm) + ('pc \<times> rm) \<Rightarrow> outcome" where
  "outcome_of (Inl err) = Inl err"
| "outcome_of (Inr (pc, s)) = Inr s"

lemma main_sends:
  "outcome_of (steps (main_step e) (length hs) (MSend dm p q pkt hs) s) = multicast_loop e dm pkt hs s"
  by (induction hs arbitrary: s) (auto split: prod.split)

lemma main_sends_first [simp]:
  "outcome_of (steps (main_step e) (min (length hs) n) (MSend dm p q pkt (take n hs)) s) =
   multicast_loop e dm pkt (take n hs) s"
  using main_sends [of e "take n hs"] by simp

lemma reply_frame:
  "same_core s (snd (reply_msg_with_drop_and_delay e pkt s))"
  "curr_seq_number (snd (reply_msg_with_drop_and_delay e pkt s)) = curr_seq_number s"
proof -
  obtain rv s' where t: "transmit e (their_addr s) pkt s = (rv, s')" by fastforce
  then show "same_core s (snd (reply_msg_with_drop_and_delay e pkt s))"
    "curr_seq_number (snd (reply_msg_with_drop_and_delay e pkt s)) = curr_seq_number s"
    using transmit_fields [OF t] by (simp_all add: reply_msg_with_drop_and_delay_def)
qed

lemma reply_id [simp]:
  "current_container_id (snd (reply_msg_with_drop_and_delay e pkt s)) = current_container_id s"
  using reply_frame(1) [of s e pkt] by (simp add: same_core_def)

text \<open>
  Without interference the statements add up to the handlers of the model: the steps of the main
  thread to \<open>multicast_datamsg\<close>, those of the receiver to \<open>handle_datamsg\<close>.
\<close>

lemma undisturbed_threads_are_handlers:
  assumes "curr_seq_number s \<noteq> INT_MAX"
  shows "outcome_of (steps (main_step e) (6 + length (take (nat (num_hosts s)) (hostNames s))) (MStart data) s) =
      multicast_datamsg e data s \<and>
    outcome_of (steps (receiver_step e) 6 (RStart dm) s) = handle_datamsg e dm s"
proof
  have n: "6 + k = Suc (Suc (Suc (Suc (Suc (Suc k)))))" for k :: nat by simp
  show "outcome_of (steps (main_step e) (6 + length (take (nat (num_hosts s)) (hostNames s))) (MStart data) s) =
     multicast_datamsg e data s"
    unfolding n multicast_datamsg_def Let_def using assms
    by (auto simp: own_message_def push_queue_def Let_def incr_int_def split: option.split)
  show "outcome_of (steps (receiver_step e) 6 (RStart dm) s) = handle_datamsg e dm s"
  proof -
    have six: "6 = Suc (Suc (Suc (Suc (Suc (Suc 0)))))" by simp
    show ?thesis unfolding six
    by (auto simp: handle_datamsg_def peer_message_def ack_reply_def Let_def push_queue_def
        incr_seq_number_def split: option.split prod.split)
  qed
qed

section \<open>Both threads\<close>

text \<open>A schedule says which thread takes the next step: \<open>True\<close> is the main thread.\<close>

fun interleave :: "env \<Rightarrow> bool list \<Rightarrow> main_pc \<Rightarrow> receiver_pc \<Rightarrow> rm \<Rightarrow>
    (exit_reason \<times> rm) + (main_pc \<times> receiver_pc \<times> rm)" where
  "interleave e [] mpc rpc s = Inr (mpc, rpc, s)"
| "interleave e (True # sched) mpc rpc s =
     (case main_step e mpc s of Inl err \<Rightarrow> Inl err | Inr (mpc1, s1) \<Rightarrow> interleave e sched mpc1 rpc s1)"
| "interleave e (False # sched) mpc rpc s =
     (case receiver_step e rpc s of Inl err \<Rightarrow> Inl err | Inr (rpc1, s1) \<Rightarrow> interleave e sched mpc rpc1 s1)"

text \<open>How often either thread has incremented the counter.\<close>

fun main_incr :: "main_pc \<Rightarrow> int" where
  "main_incr (MStart data) = 0"
| "main_incr (MIncr dm) = 0"
| "main_incr _ = 1"

fun receiver_incr :: "receiver_pc \<Rightarrow> int" where
  "receiver_incr (RWatch dm b a) = 1"
| "receiver_incr (RDone dm b a) = 1"
| "receiver_incr _ = 0"

text \<open>
  The invariant, from a state \<open>s0\<close> and a data message \<open>dm0\<close>: what each thread has read, and what it has
  put into the shared structures.
\<close>

fun main_numbers :: "int \<Rightarrow> int \<Rightarrow> main_pc \<Rightarrow> bool" where
  "main_numbers n m (MInsert dm p) = (n < p \<and> p \<le> m)"
| "main_numbers n m (MMake dm p) = (n < p \<and> p \<le> m)"
| "main_numbers n m (MPush dm p q) = (n < p \<and> p \<le> q \<and> q \<le> m)"
| "main_numbers n m (MSend dm p q pkt hs) = (n < p \<and> p \<le> q \<and> q \<le> m)"
| "main_numbers n m _ = True"

fun receiver_numbers :: "int \<Rightarrow> int \<Rightarrow> receiver_pc \<Rightarrow> bool" where
  "receiver_numbers n m (RPush dm b) = (n \<le> b \<and> b \<le> m)"
| "receiver_numbers n m (RAck dm b) = (n \<le> b \<and> b \<le> m)"
| "receiver_numbers n m (RReply dm b a) = (n \<le> b \<and> b \<le> a \<and> a \<le> m)"
| "receiver_numbers n m (RIncr dm b a) = (n \<le> b \<and> b \<le> a \<and> a \<le> m)"
| "receiver_numbers n m (RWatch dm b a) = (n \<le> b \<and> b \<le> a \<and> a \<le> m)"
| "receiver_numbers n m (RDone dm b a) = (n \<le> b \<and> b \<le> a \<and> a \<le> m)"
| "receiver_numbers n m _ = True"

fun main_queued :: "rm \<Rightarrow> main_pc \<Rightarrow> QueuedMessage multiset" where
  "main_queued s (MSend dm p q pkt hs) = {#own_message dm q s#}"
| "main_queued s _ = {#}"

fun main_proposed :: "main_pc \<Rightarrow> (DataMessage \<times> int) option" where
  "main_proposed (MMake dm p) = Some (dm, p)"
| "main_proposed (MPush dm p q) = Some (dm, p)"
| "main_proposed (MSend dm p q pkt hs) = Some (dm, p)"
| "main_proposed _ = None"

fun receiver_queued :: "rm \<Rightarrow> receiver_pc \<Rightarrow> QueuedMessage multiset" where
  "receiver_queued s (RAck dm b) = {#peer_message dm b s#}"
| "receiver_queued s (RReply dm b a) = {#peer_message dm b s#}"
| "receiver_queued s (RIncr dm b a) = {#peer_message dm b s#}"
| "receiver_queued s (RWatch dm b a) = {#peer_message dm b s#}"
| "receiver_queued s (RDone dm b a) = {#peer_message dm b s#}"
| "receiver_queued s _ = {#}"

fun receiver_acked :: "rm \<Rightarrow> receiver_pc \<Rightarrow> AckMessage list" where
  "receiver_acked s (RReply dm b a) = [ack_reply dm a s]"
| "receiver_acked s (RIncr dm b a) = [ack_reply dm a s]"
| "receiver_acked s (RWatch dm b a) = [ack_reply dm a s]"
| "receiver_acked s (RDone dm b a) = [ack_reply dm a s]"
| "receiver_acked s _ = []"

text \<open>The messages the threads work on.\<close>

fun main_msg :: "main_pc \<Rightarrow> DataMessage option" where
  "main_msg (MStart data) = None"
| "main_msg (MIncr dm) = Some dm"
| "main_msg (MRead dm) = Some dm"
| "main_msg (MInsert dm p) = Some dm"
| "main_msg (MMake dm p) = Some dm"
| "main_msg (MPush dm p q) = Some dm"
| "main_msg (MSend dm p q pkt hs) = Some dm"

fun receiver_msg :: "receiver_pc \<Rightarrow> DataMessage option" where
  "receiver_msg (RStart dm) = Some dm"
| "receiver_msg (RPush dm b) = Some dm"
| "receiver_msg (RAck dm b) = Some dm"
| "receiver_msg (RReply dm b a) = Some dm"
| "receiver_msg (RIncr dm b a) = Some dm"
| "receiver_msg (RWatch dm b a) = Some dm"
| "receiver_msg (RDone dm b a) = Some dm"
| "receiver_msg RDuplicate = None"

definition own_data_message :: "rm \<Rightarrow> u32 \<Rightarrow> DataMessage" where
  "own_data_message s data = \<lparr>dm_type = DATAMSG_TYPE, dm_sender = to_u32 (current_container_id s),
     dm_msg_id = to_u32 (curr_msg_id s), dm_data = data\<rparr>"

definition race_inv :: "rm \<Rightarrow> u32 \<Rightarrow> DataMessage \<Rightarrow> main_pc \<Rightarrow> receiver_pc \<Rightarrow> rm \<Rightarrow> bool" where
  "race_inv s0 data dm0 mpc rpc s \<longleftrightarrow>
     current_container_id s = current_container_id s0 \<and>
     curr_seq_number s = curr_seq_number s0 + main_incr mpc + receiver_incr rpc \<and>
     main_numbers (curr_seq_number s0) (curr_seq_number s0 + 1 + receiver_incr rpc) mpc \<and>
     receiver_numbers (curr_seq_number s0) (curr_seq_number s0 + main_incr mpc) rpc \<and>
     is_heap cmp (deliveryQueue s) \<and>
     mset (deliveryQueue s) = mset (deliveryQueue s0) + main_queued s0 mpc + receiver_queued s0 rpc \<and>
     alreadyAckedMessages s = alreadyAckedMessages s0 @ receiver_acked s0 rpc \<and>
     ackHistory s = (case main_proposed mpc of
        None \<Rightarrow> ackHistory s0
      | Some (dm, p) \<Rightarrow> map_insert (to_int (dm_msg_id dm)) (map_insert (current_container_id s0) p []) (ackHistory s0)) \<and>
     (case main_msg mpc of None \<Rightarrow> mpc = MStart data \<and> curr_msg_id s = curr_msg_id s0
      | Some dm \<Rightarrow> dm = own_data_message s0 data) \<and>
     receiver_msg rpc = Some dm0"

lemma own_message_id: "current_container_id s = current_container_id t \<Longrightarrow> own_message dm q s = own_message dm q t"
  by (simp add: own_message_def)

lemma peer_id: "current_container_id s = current_container_id t \<Longrightarrow> peer_message dm b s = peer_message dm b t"
    "current_container_id s = current_container_id t \<Longrightarrow> ack_reply dm a s = ack_reply dm a t"
  by (simp_all add: peer_message_def ack_reply_def)

lemma race_main:
  assumes "race_inv s0 data dm0 mpc rpc s" "main_step e mpc s = Inr (mpc1, s1)"
  shows "race_inv s0 data dm0 mpc1 rpc s1"
proof (cases mpc)
  case (MSend dm p q pkt hs)
  show ?thesis
  proof (cases hs)
    case Nil
    with assms MSend show ?thesis by simp
  next
    case (Cons h hs')
    show ?thesis
    proof (cases "h = current_container_name s")
      case True
      with assms MSend Cons show ?thesis by (auto simp: race_inv_def)
    next
      case False
      obtain rv s2 where t: "transmit e h pkt s = (rv, s2)" by fastforce
      with assms(2) MSend Cons False have "mpc1 = MSend dm p q pkt hs'"
        "s1 = s2\<lparr>watchdogs := watchdogs s2 @ [DataWatchdog dm h 0]\<rparr>"
        by (auto simp: send_msg_with_drop_and_delay_def split: if_splits)
      with assms(1) MSend transmit_fields(1,3) [OF t] show ?thesis
        by (simp add: race_inv_def same_core_def)
    qed
  qed
next
  case (MPush dm p q)
  with assms have h: "is_heap cmp (deliveryQueue s)" "current_container_id s = current_container_id s0"
    by (simp_all add: race_inv_def)
  have "mpc1 = MSend dm p q (serialize_data_message dm (uninit_packet e s1)) (take (nat (num_hosts s1)) (hostNames s1))"
    "s1 = push_queue (own_message dm q s0) s"
    using assms(2) MPush own_message_id [OF h(2)] by (auto simp: Let_def)
  with assms(1) MPush dq.mset_push [OF h(1)] dq.inv_push [OF h(1)] show ?thesis
    by (simp add: race_inv_def push_queue_def)
next
  case (MStart data')
  with assms show ?thesis
    by (auto simp: race_inv_def own_data_message_def Let_def incr_int_def split: if_splits)
next
  case (MIncr dm)
  with assms show ?thesis
    by (cases rpc) (auto simp: race_inv_def incr_int_def split: if_splits)
next
  case (MRead dm)
  with assms show ?thesis by (auto simp: race_inv_def) (cases rpc; simp)
next
  case (MInsert dm p)
  with assms show ?thesis by (auto simp: race_inv_def)
next
  case (MMake dm p)
  with assms show ?thesis by (auto simp: race_inv_def)
qed

lemma race_receiver:
  assumes "race_inv s0 data dm0 mpc rpc s" "receiver_step e rpc s = Inr (rpc1, s1)" "rpc1 \<noteq> RDuplicate"
  shows "race_inv s0 data dm0 mpc rpc1 s1"
proof (cases rpc)
  case (RStart dm)
  with assms show ?thesis by (cases mpc) (auto simp: race_inv_def split: option.splits)
next
  case (RPush dm b)
  with assms(1) have h: "is_heap cmp (deliveryQueue s)" "current_container_id s = current_container_id s0"
    by (simp_all add: race_inv_def)
  have "rpc1 = RAck dm b" "s1 = push_queue (peer_message dm b s0) s"
    using assms(2) RPush peer_id [OF h(2)] by auto
  with assms(1) RPush dq.mset_push [OF h(1)] dq.inv_push [OF h(1)] show ?thesis
    by (auto simp: race_inv_def push_queue_def split: option.split)
next
  case (RAck dm b)
  with assms(1) have "current_container_id s = current_container_id s0" by (simp add: race_inv_def)
  with assms RAck peer_id [OF this] show ?thesis by (auto simp: race_inv_def split: option.split)
next
  case (RReply dm b a)
  with assms(2) have "rpc1 = RIncr dm b a" "s1 = snd (reply_msg_with_drop_and_delay e
      (serialize_ack_message (ack_reply dm a s) (uninit_packet e s)) s)" by simp_all
  with assms(1) RReply reply_frame [where s = s] show ?thesis
    by (auto simp: race_inv_def same_core_def split: option.split)
next
  case (RIncr dm b a)
  with assms show ?thesis
    by (cases mpc) (auto simp: race_inv_def incr_seq_number_def incr_int_def split: if_splits)
next
  case (RWatch dm b a)
  with assms show ?thesis by (auto simp: race_inv_def split: prod.splits option.split)
next
  case (RDone dm b a)
  with assms show ?thesis by simp
next
  case RDuplicate
  with assms show ?thesis by simp
qed

lemma race_runs:
  assumes "interleave e sched mpc rpc s = Inr (mpc', rpc', s')" "race_inv s0 data dm0 mpc rpc s"
    and "find (\<lambda>am. am_sender am = dm_sender dm0 \<and> am_msg_id am = dm_msg_id dm0) (alreadyAckedMessages s0) = None"
  shows "race_inv s0 data dm0 mpc' rpc' s'"
  using assms(1,2)
proof (induction e sched mpc rpc s rule: interleave.induct)
  case (2 e sched mpc rpc s)
  then obtain mpc1 s1 where st: "main_step e mpc s = Inr (mpc1, s1)" "interleave e sched mpc1 rpc s1 = Inr (mpc', rpc', s')"
    by (auto split: sum.splits)
  from "2.IH" [OF st(1) refl st(2)] race_main [OF "2.prems"(2) st(1)] show ?case by simp
next
  case (3 e sched mpc rpc s)
  then obtain rpc1 s1 where st: "receiver_step e rpc s = Inr (rpc1, s1)" "interleave e sched mpc rpc1 s1 = Inr (mpc', rpc', s')"
    by (auto split: sum.splits)
  have "rpc1 \<noteq> RDuplicate"
  proof (cases rpc)
    case (RStart dm)
    with "3.prems"(2) have "dm = dm0" "alreadyAckedMessages s = alreadyAckedMessages s0"
      by (simp_all add: race_inv_def)
    with st(1) RStart assms(3) show ?thesis by auto
  next
    case RDuplicate
    with "3.prems"(2) show ?thesis by (simp add: race_inv_def)
  qed (use st(1) in \<open>auto split: sum.splits prod.splits\<close>)
  from "3.IH" [OF st(1) refl st(2)] race_receiver [OF "3.prems"(2) st(1) this] show ?case by simp
qed simp

lemma race_inv_start:
  "is_heap cmp (deliveryQueue s) \<Longrightarrow> race_inv s data dm (MStart data) (RStart dm) s"
  by (simp add: race_inv_def)

text \<open>
  However the two threads interleave, both messages are queued once, both increments count, and the
  numbers stay close: the number \<open>b\<close> under which the received message is queued is not above the number \<open>a\<close>
  that is proposed for it, but for the own message it is the other way round, its proposal \<open>p\<close> may lie
  below the number \<open>q\<close> under which it is queued. An increment of the counter is one step here; what a
  split increment loses is the subject of C22.
\<close>

lemma interleaved_threads_numbers:
  assumes "interleave e sched (MStart data) (RStart dm) s = Inr (MSend own p q pkt hs, RDone dm' b a, s')"
    and "is_heap cmp (deliveryQueue s)"
    and "find (\<lambda>am. am_sender am = dm_sender dm \<and> am_msg_id am = dm_msg_id dm) (alreadyAckedMessages s) = None"
  shows "own = own_data_message s data \<and>
    mset (deliveryQueue s') = mset (deliveryQueue s) + {#own_message own q s, peer_message dm b s#} \<and>
    ackHistory s' = map_insert (to_int (dm_msg_id own)) [(current_container_id s, p)] (ackHistory s) \<and>
    alreadyAckedMessages s' = alreadyAckedMessages s @ [ack_reply dm a s] \<and>
    curr_seq_number s' = curr_seq_number s + 2 \<and>
    curr_seq_number s < p \<and> p \<le> q \<and> q \<le> curr_seq_number s + 2 \<and>
    curr_seq_number s \<le> b \<and> b \<le> a \<and> a \<le> curr_seq_number s + 1"
proof -
  have "race_inv s data dm (MSend own p q pkt hs) (RDone dm' b a) s'"
    using assms(1) race_inv_start [OF assms(2)] assms(3) by (rule race_runs)
  then show ?thesis by (auto simp: race_inv_def)
qed

text \<open>The receiver handles a data message of host 2 between the two reads of the main thread.\<close>

definition race_schedule :: "bool list" where
  "race_schedule = [True, True, True, False, False, False, False, False, False, True, True, True, True, True]"

definition data2 :: DataMessage where
  "data2 = \<lparr>dm_type = 1, dm_sender = 2, dm_msg_id = 0, dm_data = 9\<rparr>"

fun race_view :: "(exit_reason \<times> rm) + (main_pc \<times> receiver_pc \<times> rm) \<Rightarrow> (int \<times> int \<times> string list \<times> int \<times> int) option" where
  "race_view (Inr (MSend own p q pkt hs, RDone dm b a, s)) = Some (p, q, hs, b, a)"
| "race_view _ = None"

fun_cases race_viewE: "race_view r = Some (p, q, hs, b, a)"

lemma race_evaluated:
  "race_view (interleave demo_env race_schedule (MStart 7) (RStart data2) (initial_process demo_config 0)) =
     Some (2, 3, [], 2, 2)"
  by code_simp

lemma race_result:
  obtains own pkt dm s' where "interleave demo_env race_schedule (MStart 7) (RStart data2)
    (initial_process demo_config 0) = Inr (MSend own 2 3 pkt [], RDone dm 2 2, s')"
  using race_evaluated by (elim race_viewE) (rule that)

lemma race_start:
  "is_heap cmp (deliveryQueue (initial_process demo_config 0))"
  "find P (alreadyAckedMessages (initial_process demo_config 0)) = None"
  "curr_seq_number (initial_process demo_config 0) = 1" "ackHistory (initial_process demo_config 0) = []"
  "deliveryQueue (initial_process demo_config 0) = []" "current_container_id (initial_process demo_config 0) = 1"
  "curr_msg_id (initial_process demo_config 0) = 0"
proof -
  show "current_container_id (initial_process demo_config 0) = 1" by code_simp
qed (simp_all add: initial_process_def ReliableMulticast_def set_rm_def dq.inv_Nil)

text \<open>
  The race is real: the main thread reads the counter once for its own proposal and, after the receiver
  has handled a message, again for the queue. Its message waits under number 3, while the history of
  its acknowledgements, from which the final number is taken, says 2.
\<close>

lemma queued_above_own_proposal:
  "\<exists>own pkt dm s' m. interleave demo_env race_schedule (MStart 7) (RStart data2) (initial_process demo_config 0) =
       Inr (MSend own 2 3 pkt [], RDone dm 2 2, s') \<and>
     ackHistory s' = [(0, [(1, 2)])] \<and> m \<in> set (deliveryQueue s') \<and> qm_sender m = 1 \<and> qm_msg_id m = 0 \<and>
     qm_sequence_number m = 3"
proof -
  let ?s = "initial_process demo_config 0"
  obtain own pkt dm s' where r: "interleave demo_env race_schedule (MStart 7) (RStart data2) ?s =
    Inr (MSend own 2 3 pkt [], RDone dm 2 2, s')" by (rule race_result)
  have inv: "race_inv ?s 7 data2 (MSend own 2 3 pkt []) (RDone dm 2 2) s'"
    using r race_inv_start [OF race_start(1)] race_start(2) by (rule race_runs)
  have id: "hid (c_hosts demo_config) 0 = 1" by code_simp
  have own: "dm_sender own = 1" "dm_msg_id own = 0"
    using inv by (simp_all add: race_inv_def own_data_message_def race_start(6,7) id to_u32_def)
  have "own_message own 3 ?s \<in># mset (deliveryQueue s')" using inv by (simp add: race_inv_def)
  moreover have "ackHistory s' = [(0, [(1, 2)])]"
    using inv own by (simp add: race_inv_def race_start(4,6) id to_int_def)
  ultimately show ?thesis using r own
    by (intro exI [of _ own] exI [of _ pkt] exI [of _ dm] exI [of _ s'] exI [of _ "own_message own 3 ?s"])
      (simp add: own_message_def make_queued_msg_def to_u32_def id)
qed

end
