(* ===== verification/Report.thy ===== *)
theory Report
  imports SnapshotFacts
begin

text \<open>
  What the program prints about its state: \<open>print_delivery_queue\<close>, \<open>print_ack_history\<close> and
  \<open>print_delivered_messages\<close> of \<open>reliable_multicast.cpp\<close>, and the report of a finished snapshot,
  \<open>print_local_snapshot\<close> of \<open>CL_global_snapshot.cpp\<close>, which goes to both output streams and then
  closes one of them. \<open>%d\<close> of an \<open>uint32_t\<close> is printed as an \<open>int\<close>, as \<open>show_u32\<close> does.
\<close>

section \<open>Lines\<close>

abbreviation NL :: char where "NL \<equiv> CHR 0x0A"
abbreviation TAB :: char where "TAB \<equiv> CHR 0x09"

definition line :: "string \<Rightarrow> string" where
  "line s = s @ [NL]"

definition rule_off :: string where
  "rule_off = ''=================================''"

text \<open>\<open>seq/proposer (%d, %d), msg_id/sender (%d, %d)\<close>\<close>

definition show_pair :: "u32 \<Rightarrow> u32 \<Rightarrow> string" where
  "show_pair a b = ''('' @ show_u32 a @ '', '' @ show_u32 b @ '')''"

definition show_queued :: "QueuedMessage \<Rightarrow> string" where
  "show_queued qm = ''seq/proposer '' @ show_pair (qm_sequence_number qm) (qm_proposer qm) @
     '', msg_id/sender '' @ show_pair (qm_msg_id qm) (qm_sender qm)"

section \<open>The printing functions of the multicast\<close>

definition print_delivery_queue :: "rm \<Rightarrow> string" where
  "print_delivery_queue s =
     line (''=== [Process '' @ int_to_string (current_container_id s) @ ''] deliveryQueue (min-heap of size '' @
       nat_to_string (length (deliveryQueue s)) @ '') ===='') @
     concat (map (\<lambda>qm. line (TAB # show_queued qm @ '', status '' @ nat_to_string (unat (qm_status qm))))
       (deliveryQueue s)) @
     line rule_off"

definition print_ack_history :: "rm \<Rightarrow> string" where
  "print_ack_history s =
     line (''=== ackHistory (size '' @ nat_to_string (length (ackHistory s)) @ '') ===='') @
     concat (map (\<lambda>(msg_id, props). line (TAB # ''msg_id '' @ int_to_string msg_id @
       concat (map (\<lambda>(k, v). ''prop '' @ int_to_string k @ '' seq '' @ int_to_string v @ '', '') props)))
       (ackHistory s)) @
     line rule_off"

text \<open>The loop over the delivered messages counts them.\<close>

fun delivered_lines :: "nat \<Rightarrow> QueuedMessage list \<Rightarrow> string list" where
  "delivered_lines i [] = []"
| "delivered_lines i (qm # qms) =
     (TAB # nat_to_string i @ '': '' @ show_queued qm) # delivered_lines (Suc i) qms"

definition print_delivered_messages :: "rm \<Rightarrow> string" where
  "print_delivered_messages s =
     line (''=== [Process '' @ int_to_string (current_container_id s) @ ''] delivered messages so far (size '' @
       nat_to_string (length (deliveredMessage s)) @ '') ===='') @
     concat (map line (delivered_lines 0 (deliveredMessage s))) @
     line rule_off"

section \<open>The report of a snapshot\<close>

text \<open>
  \<open>DUPPRINT\<close> prints to standard output and to standard error. Printing to a stream that is closed is
  undefined behaviour, \<open>None\<close> here.
\<close>

record console =
  con_out :: string
  con_err :: string
  con_err_open :: bool

definition DUPPRINT :: "string \<Rightarrow> console \<Rightarrow> console option" where
  "DUPPRINT t con =
     (if con_err_open con then Some (con\<lparr>con_out := con_out con @ t, con_err := con_err con @ t\<rparr>) else None)"

fun DUPPRINTs :: "string list \<Rightarrow> console \<Rightarrow> console option" where
  "DUPPRINTs [] con = Some con"
| "DUPPRINTs (t # ts) con = (case DUPPRINT t con of None \<Rightarrow> None | Some con1 \<Rightarrow> DUPPRINTs ts con1)"

text \<open>The loop over one of the channel maps; \<open>dir\<close> is the word \<open>From\<close> or \<open>To\<close>.\<close>

fun channel_lines :: "string \<Rightarrow> (int, string list) std_map \<Rightarrow> string list" where
  "channel_lines dir [] = []"
| "channel_lines dir ((k, msgs) # m) =
     (TAB # dir @ '' '' @ int_to_string k @ '':'') # map (\<lambda>t. TAB # TAB # t) msgs @ channel_lines dir m"

text \<open>What \<open>print_local_snapshot\<close> passes to \<open>DUPPRINT\<close>, call by call.\<close>

definition local_snapshot_report :: "CL_Global_Snapshot \<Rightarrow> string list" where
  "local_snapshot_report c =
     (let delivered = ls_deliveredMessage (locsnap c); queue = ls_deliveryQueue (locsnap c) in
      [line (''************************ LOCALSNAPSHOT for Process '' @ int_to_string (curr_container_id c) @ ''**********************''),
       line (''=== deliveryQueue (min-heap of size '' @ nat_to_string (length queue) @ '') ===='')] @
      map (\<lambda>qm. line (TAB # show_queued qm)) queue @
      [line (line rule_off),
       line (''=== delivered messages so far (size '' @ nat_to_string (length delivered) @ '') ===='')] @
      map line (delivered_lines 0 delivered) @
      [line (line rule_off),
       line ''================== CHANNEL STATES:============== '',
       line ''Inbound channels: ''] @
      map line (channel_lines ''From'' (inboundChannelState c)) @
      [NL # NL # line ''Outbound channels: ''] @
      map line (channel_lines ''To'' (outboundChannelState c)) @
      [line (''************************ END LOCAL SNAPSHOT for Process '' @ int_to_string (curr_container_id c) @ ''*************************'')])"

definition print_local_snapshot :: "CL_Global_Snapshot \<Rightarrow> console \<Rightarrow> console option" where
  "print_local_snapshot c con =
     (case DUPPRINTs (local_snapshot_report c) con of
        None \<Rightarrow> None
      | Some con1 \<Rightarrow> Some (con1\<lparr>con_err_open := False\<rparr>))"

section \<open>Printing\<close>

lemma DUPPRINTs_open: "con_err_open con \<Longrightarrow>
    DUPPRINTs ts con = Some (con\<lparr>con_out := con_out con @ concat ts, con_err := con_err con @ concat ts\<rparr>)"
  by (induction ts arbitrary: con) (simp_all add: DUPPRINT_def)

lemma print_local_snapshot_open: "con_err_open con \<Longrightarrow>
    print_local_snapshot c con = Some (con\<lparr>con_out := con_out con @ concat (local_snapshot_report c),
      con_err := con_err con @ concat (local_snapshot_report c), con_err_open := False\<rparr>)"
  by (simp add: print_local_snapshot_def DUPPRINTs_open)

lemma print_local_snapshot_closed: "\<not> con_err_open con \<Longrightarrow> print_local_snapshot c con = None"
  by (simp add: print_local_snapshot_def local_snapshot_report_def Let_def DUPPRINT_def)

text \<open>The report can be printed once: it closes the stream it needs.\<close>

lemma printed_once: "print_local_snapshot c con = Some con1 \<Longrightarrow> print_local_snapshot d con1 = None"
  by (cases "con_err_open con")
    (auto simp: print_local_snapshot_open print_local_snapshot_closed intro!: print_local_snapshot_closed)

section \<open>Reading the report\<close>

text \<open>Numbers.\<close>

lemma digit_not: "\<not> is_digit c \<Longrightarrow> c \<notin> set (nat_to_string n)"
  using nat_to_string_digits by blast

lemma nat_to_string_inject [simp]: "nat_to_string m = nat_to_string n \<longleftrightarrow> m = n"
  by (metis nat_to_string_value of_nat_eq_iff)

lemma int_to_string_not: "\<not> is_digit c \<Longrightarrow> c \<noteq> CHR ''-'' \<Longrightarrow> c \<notin> set (int_to_string x)"
  by (simp add: int_to_string_def digit_not)

lemma minus_not_digits: "CHR ''-'' # xs \<noteq> nat_to_string n"
  using digit_not [of "CHR ''-''" n] by (metis is_digit_not_sign list.set_intros(1))

lemma int_to_string_inject [simp]: "int_to_string x = int_to_string y \<longleftrightarrow> x = y"
  using minus_not_digits minus_not_digits [symmetric] by (auto simp: int_to_string_def)

lemma show_u32_inject [simp]: "show_u32 v = show_u32 w \<longleftrightarrow> v = w"
  by (simp add: show_u32_def to_int_inject)

text \<open>A text up to the first separator, and lines up to the first line of another kind.\<close>

lemma sep_inject: "c \<notin> set xs \<Longrightarrow> c \<notin> set ys \<Longrightarrow> xs @ c # r = ys @ c # r' \<longleftrightarrow> xs = ys \<and> r = r'"
proof (induction xs arbitrary: ys)
  case Nil
  then show ?case by (cases ys) auto
next
  case (Cons x xs)
  then show ?case by (cases ys) auto
qed

lemma block_inject:
  assumes "as @ z # r = bs @ z' # r'" "\<forall>a \<in> set as. P a" "\<forall>b \<in> set bs. P b" "\<not> P z" "\<not> P z'"
  shows "as = bs \<and> z # r = z' # r'"
  using assms
proof (induction as arbitrary: bs)
  case Nil
  then show ?case by (cases bs) auto
next
  case (Cons a as)
  then show ?case by (cases bs) auto
qed

lemma lines_inject:
  assumes "concat (map line xs) = concat (map line ys)"
    and "\<forall>x \<in> set xs. NL \<notin> set x" "\<forall>y \<in> set ys. NL \<notin> set y"
  shows "xs = ys"
  using assms
proof (induction xs arbitrary: ys)
  case Nil
  then show ?case by (cases ys) (auto simp: line_def)
next
  case (Cons x xs)
  then obtain y ys' where "ys = y # ys'" by (cases ys) (auto simp: line_def)
  with Cons show ?case by (auto simp: line_def sep_inject)
qed

lemmas not_in_numbers = int_to_string_not digit_not

lemma char_facts [simp]: "\<not> is_digit NL" "\<not> is_digit TAB" "\<not> is_digit CHR '',''" "\<not> is_digit CHR '')''"
  "\<not> is_digit CHR '':''" "\<not> is_digit CHR ''*''"
  by (simp_all add: is_digit_def)

text \<open>Every line of a queued message tells its numbers.\<close>

lemma show_u32_not [simp]:
  "CHR '','' \<notin> set (show_u32 w)" "CHR '')'' \<notin> set (show_u32 w)" "NL \<notin> set (show_u32 w)"
  by (simp_all add: show_u32_def not_in_numbers)

lemma show_pair_inject: "show_pair a b @ r = show_pair a' b' @ r' \<longleftrightarrow> a = a' \<and> b = b' \<and> r = r'"
  by (simp add: show_pair_def sep_inject)

definition printed :: "QueuedMessage \<Rightarrow> u32 \<times> u32 \<times> u32 \<times> u32" where
  "printed qm = (qm_sequence_number qm, qm_proposer qm, qm_msg_id qm, qm_sender qm)"

lemma show_queued_inject: "show_queued m = show_queued n \<longleftrightarrow> printed m = printed n"
  using show_pair_inject [of "qm_msg_id m" "qm_sender m" "[]" "qm_msg_id n" "qm_sender n" "[]"]
  by (simp add: show_queued_def printed_def show_pair_inject)

lemma show_queued_NL [simp]: "NL \<notin> set (show_queued m)"
  by (simp add: show_queued_def show_pair_def)

lemma map_inject_mono:
  assumes "map f xs = map f ys" "\<And>a b. f a = f b \<Longrightarrow> g a = g b"
  shows "map g xs = map g ys"
  using assms(1)
proof (induction xs arbitrary: ys)
  case (Cons x xs)
  then obtain y ys' where "ys = y # ys'" "f x = f y" "map f xs = map f ys'" by (cases ys) simp_all
  moreover from this(2) have "g x = g y" by (rule assms(2))
  ultimately show ?case using Cons.IH by simp
qed simp

lemma queue_lines_inject:
  "map (\<lambda>m. TAB # show_queued m) q = map (\<lambda>m. TAB # show_queued m) q' \<Longrightarrow> map printed q = map printed q'"
  by (erule map_inject_mono) (simp add: show_queued_inject)

lemma delivered_lines_inject:
  "delivered_lines i q = delivered_lines i q' \<Longrightarrow> map printed q = map printed q'"
proof (induction i q arbitrary: q' rule: delivered_lines.induct)
  case (1 i)
  then show ?case by (cases q') simp_all
next
  case (2 i m q)
  then obtain n r where q': "q' = n # r" by (cases q') simp_all
  with 2(2) have "show_queued m = show_queued n" "delivered_lines (Suc i) q = delivered_lines (Suc i) r"
    by simp_all
  with 2(1) q' show ?case by (simp add: show_queued_inject)
qed

lemma delivered_lines_shape: "\<forall>l \<in> set (delivered_lines i q). NL \<notin> set l \<and> (\<exists>r. l = TAB # r)"
  by (induction i q rule: delivered_lines.induct) (auto simp: digit_not)

text \<open>The channels.\<close>

definition one_line_texts :: "(int, string list) std_map \<Rightarrow> bool" where
  "one_line_texts m = list_all (\<lambda>(k, msgs). list_all (\<lambda>t. NL \<notin> set t) msgs) m"

lemma channel_lines_shape:
  "one_line_texts m \<Longrightarrow> NL \<notin> set dir \<Longrightarrow> \<forall>l \<in> set (channel_lines dir m). NL \<notin> set l \<and> (\<exists>r. l = TAB # r)"
  by (induction dir m rule: channel_lines.induct) (auto simp: one_line_texts_def list_all_iff not_in_numbers)

lemma channel_lines_head:
  "channel_lines dir m = [] \<or> (\<exists>r s. channel_lines dir m = (TAB # dir @ '' '' @ r) # s)"
  by (cases m) auto

lemma channel_lines_inject:
  assumes "channel_lines dir m = channel_lines dir m'" "dir \<noteq> []" "hd dir \<noteq> TAB"
  shows "m = m'"
  using assms
proof (induction dir m arbitrary: m' rule: channel_lines.induct)
  case (1 dir)
  then show ?case by (cases m') auto
next
  case (2 dir k msgs m)
  then obtain k' msgs' n where m': "m' = (k', msgs') # n" by (cases m') auto
  let ?P = "\<lambda>l. \<exists>r. l = TAB # TAB # r"
  let ?f = "\<lambda>t. TAB # TAB # t"
  have k: "int_to_string k @ '':'' = int_to_string k' @ '':''"
    and rest: "map ?f msgs @ channel_lines dir m @ [[]] = map ?f msgs' @ channel_lines dir n @ [[]]"
    using 2(2) m' by simp_all
  have block: "\<exists>z r. channel_lines dir p @ [[]] = z # r \<and> \<not> ?P z" for p
    using channel_lines_head [of dir p] 2(3,4) by (cases dir) auto
  obtain z r where z: "channel_lines dir m @ [[]] = z # r" "\<not> ?P z" using block by blast
  obtain z' r' where z': "channel_lines dir n @ [[]] = z' # r'" "\<not> ?P z'" using block by blast
  have "map ?f msgs = map ?f msgs' \<and> z # r = z' # r'"
    by (rule block_inject [where P = ?P]) (use rest z z' in auto)
  then have "msgs = msgs'" "channel_lines dir m = channel_lines dir n"
    using z(1) z'(1) by (simp_all add: inj_map_eq_map inj_def) (metis append_same_eq)
  with 2 k m' show ?case by simp
qed

section \<open>The report determines the snapshot\<close>

definition queue_lines :: "CL_Global_Snapshot \<Rightarrow> string list" where
  "queue_lines c = map (\<lambda>m. TAB # show_queued m) (ls_deliveryQueue (locsnap c))"

text \<open>The same text, line by line.\<close>

definition end_line :: "CL_Global_Snapshot \<Rightarrow> string" where
  "end_line c = ''************************ END LOCAL SNAPSHOT for Process '' @ int_to_string (curr_container_id c) @ ''*************************''"

definition channel_part :: "CL_Global_Snapshot \<Rightarrow> string list" where
  "channel_part c = channel_lines ''From'' (inboundChannelState c) @
     [] # [] # ''Outbound channels: '' # channel_lines ''To'' (outboundChannelState c) @ [end_line c]"

definition delivered_part :: "CL_Global_Snapshot \<Rightarrow> string list" where
  "delivered_part c =
     [] # (''=== delivered messages so far (size '' @ nat_to_string (length (ls_deliveredMessage (locsnap c))) @ '') ===='') #
     delivered_lines 0 (ls_deliveredMessage (locsnap c)) @
     rule_off # [] # ''================== CHANNEL STATES:============== '' # ''Inbound channels: '' # channel_part c"

definition report_lines :: "CL_Global_Snapshot \<Rightarrow> string list" where
  "report_lines c =
     (''************************ LOCALSNAPSHOT for Process '' @ int_to_string (curr_container_id c) @ ''**********************'') #
     (''=== deliveryQueue (min-heap of size '' @ nat_to_string (length (ls_deliveryQueue (locsnap c))) @ '') ===='') #
     queue_lines c @ rule_off # delivered_part c"

lemmas report_defs = report_lines_def delivered_part_def channel_part_def end_line_def

lemma report_text: "concat (local_snapshot_report c) = concat (map line (report_lines c))"
  by (simp add: local_snapshot_report_def report_defs queue_lines_def Let_def comp_def line_def)

definition one_line_snapshot :: "CL_Global_Snapshot \<Rightarrow> bool" where
  "one_line_snapshot c \<longleftrightarrow>
     one_line_texts (inboundChannelState c) \<and> one_line_texts (outboundChannelState c)"

definition tab_lines :: "string list \<Rightarrow> bool" where
  "tab_lines ls \<longleftrightarrow> (\<forall>l \<in> set ls. NL \<notin> set l \<and> (\<exists>r. l = TAB # r))"

lemma tab_channel: "one_line_texts m \<Longrightarrow> NL \<notin> set dir \<Longrightarrow> tab_lines (channel_lines dir m)"
  unfolding tab_lines_def by (rule channel_lines_shape)

lemma tab_lines [simp]:
  "tab_lines (queue_lines c)" "tab_lines (delivered_lines i q)"
  "one_line_snapshot c \<Longrightarrow> tab_lines (channel_lines ''From'' (inboundChannelState c))"
  "one_line_snapshot c \<Longrightarrow> tab_lines (channel_lines ''To'' (outboundChannelState c))"
  by (simp_all add: one_line_snapshot_def tab_channel)
    (simp_all add: tab_lines_def queue_lines_def delivered_lines_shape)

lemma tab_block:
  "as @ z # r = bs @ z # r' \<Longrightarrow> tab_lines as \<Longrightarrow> tab_lines bs \<Longrightarrow> \<forall>t. z \<noteq> TAB # t \<Longrightarrow> as = bs \<and> r = r'"
  using block_inject [of as z r bs z r' "\<lambda>l. \<exists>t. l = TAB # t"] by (simp add: tab_lines_def)

lemma report_lines_NL: "one_line_snapshot c \<Longrightarrow> \<forall>l \<in> set (report_lines c). NL \<notin> set l"
  using tab_lines(1)[of c] tab_lines(2)[of 0 "ls_deliveredMessage (locsnap c)"] tab_lines(3,4)[of c]
  by (auto simp: report_defs tab_lines_def rule_off_def not_in_numbers)

lemma report_lines_inject:
  assumes eq: "report_lines c = report_lines d" and one: "one_line_snapshot c" "one_line_snapshot d"
  shows "curr_container_id c = curr_container_id d" "queue_lines c = queue_lines d"
    "delivered_lines 0 (ls_deliveredMessage (locsnap c)) = delivered_lines 0 (ls_deliveredMessage (locsnap d))"
    "channel_lines ''From'' (inboundChannelState c) = channel_lines ''From'' (inboundChannelState d)"
    "channel_lines ''To'' (outboundChannelState c) = channel_lines ''To'' (outboundChannelState d)"
proof -
  show id: "curr_container_id c = curr_container_id d" using eq by (simp add: report_lines_def)
  have "queue_lines c @ rule_off # delivered_part c = queue_lines d @ rule_off # delivered_part d"
    using eq by (simp add: report_lines_def)
  from tab_block [OF this] have 1: "queue_lines c = queue_lines d" "delivered_part c = delivered_part d"
    by (simp_all add: rule_off_def)
  from 1 show "queue_lines c = queue_lines d" by simp
  from 1(2) have "delivered_lines 0 (ls_deliveredMessage (locsnap c)) @ rule_off # [] #
      ''================== CHANNEL STATES:============== '' # ''Inbound channels: '' # channel_part c =
    delivered_lines 0 (ls_deliveredMessage (locsnap d)) @ rule_off # [] #
      ''================== CHANNEL STATES:============== '' # ''Inbound channels: '' # channel_part d"
    by (simp add: delivered_part_def)
  from tab_block [OF this] have 2:
    "delivered_lines 0 (ls_deliveredMessage (locsnap c)) = delivered_lines 0 (ls_deliveredMessage (locsnap d))"
    "channel_part c = channel_part d"
    by (simp_all add: rule_off_def)
  from 2 show "delivered_lines 0 (ls_deliveredMessage (locsnap c)) = delivered_lines 0 (ls_deliveredMessage (locsnap d))"
    by simp
  from tab_block [OF 2(2) [unfolded channel_part_def]] one have 3:
    "channel_lines ''From'' (inboundChannelState c) = channel_lines ''From'' (inboundChannelState d)"
    "channel_lines ''To'' (outboundChannelState c) @ [end_line d] = channel_lines ''To'' (outboundChannelState d) @ [end_line d]"
    using id by (simp_all add: end_line_def)
  then show "channel_lines ''From'' (inboundChannelState c) = channel_lines ''From'' (inboundChannelState d)"
    "channel_lines ''To'' (outboundChannelState c) = channel_lines ''To'' (outboundChannelState d)" by simp_all
qed

text \<open>Everything that is filed is one line.\<close>

lemma one_line_add:
  "one_line_texts m \<Longrightarrow> NL \<notin> set t \<Longrightarrow> one_line_texts (add_to_channel received k t m)"
proof -
  assume m: "one_line_texts m" and t: "NL \<notin> set t"
  have insert: "one_line_texts (map_insert k [] m')" if "one_line_texts m'" for m'
    using that by (induction k "[] :: string list" m' rule: map_insert.induct) (auto simp: one_line_texts_def)
  have store: "one_line_texts (map_store k msgs m')" if "one_line_texts m'" "list_all (\<lambda>t. NL \<notin> set t) msgs" for m' msgs
    using that by (induction k msgs m' rule: map_store.induct) (auto simp: one_line_texts_def)
  have found: "list_all (\<lambda>t. NL \<notin> set t) msgs" if "one_line_texts m'" "map_of m' k = Some msgs" for m' msgs
    using that by (auto simp: one_line_texts_def list_all_iff dest: map_of_SomeD)
  define m1 where "m1 = (if map_count m k = 0 then map_insert k [] m else m)"
  have m1: "one_line_texts m1" using m insert by (simp add: m1_def)
  obtain m2 msgs where sub: "subscript [] m1 k = (m2, msgs)" by fastforce
  then have "one_line_texts m2 \<and> list_all (\<lambda>t. NL \<notin> set t) msgs"
    using m1 insert [OF m1] found [OF m1] by (cases "map_of m1 k") (auto simp: subscript_def)
  then have "one_line_texts (map_store k (msgs @ [t]) m2)" using t store by simp
  with m1 sub show ?thesis by (simp add: add_to_channel_def m1_def [symmetric] Let_def)
qed

lemma classify_message_one_line: "classify_message b = Inr (k, t) \<Longrightarrow> NL \<notin> set t"
  by (auto simp: classify_message_def describe_data_def describe_ack_def describe_seq_def Let_def split: if_splits)

lemma handle_message_one_line:
  "handle_message b d c = Inr c1 \<Longrightarrow> one_line_snapshot c \<Longrightarrow> one_line_snapshot c1"
  by (auto simp: handle_message_def one_line_snapshot_def add_msg_to_inbound_def add_msg_to_outbound_def
      one_line_add dest: classify_message_one_line split: sum.splits direction.splits)

text \<open>
  C38. The report of a snapshot can be read back: when two snapshots print the same text, they are of
  processes with the same id, their queues and their delivered messages agree in number, proposer,
  message number and sender, and their channel states are the same. It goes to both streams and closes
  standard error.
\<close>

theorem report_determines_snapshot:
  assumes "print_local_snapshot c con = Some oc" "print_local_snapshot d con = Some od"
    and "con_out oc = con_out od" "one_line_snapshot c" "one_line_snapshot d"
  shows "curr_container_id c = curr_container_id d \<and>
    map printed (ls_deliveryQueue (locsnap c)) = map printed (ls_deliveryQueue (locsnap d)) \<and>
    map printed (ls_deliveredMessage (locsnap c)) = map printed (ls_deliveredMessage (locsnap d)) \<and>
    inboundChannelState c = inboundChannelState d \<and> outboundChannelState c = outboundChannelState d \<and>
    (\<exists>text. con_out oc = con_out con @ text \<and> con_err oc = con_err con @ text) \<and> \<not> con_err_open oc"
proof -
  have "con_err_open con" using assms(1) print_local_snapshot_closed by fastforce
  note out = print_local_snapshot_open [OF this]
  have "concat (local_snapshot_report c) = concat (local_snapshot_report d)" using assms(1-3) out by auto
  then have "report_lines c = report_lines d"
    using report_lines_NL assms(4,5) unfolding report_text by (intro lines_inject)
  note eq = report_lines_inject [OF this assms(4,5)]
  have "inboundChannelState c = inboundChannelState d" using eq(4) by (rule channel_lines_inject) simp_all
  moreover have "outboundChannelState c = outboundChannelState d" using eq(5) by (rule channel_lines_inject) simp_all
  ultimately show ?thesis
    using eq(1) queue_lines_inject [OF eq(2) [unfolded queue_lines_def]] delivered_lines_inject [OF eq(3)] assms(1) out [of c]
    by auto
qed

text \<open>The status of a message is not printed.\<close>

definition demo_snapshot :: "u8 \<Rightarrow> CL_Global_Snapshot" where
  "demo_snapshot st = new_snapshot\<lparr>
     locsnap := \<lparr>ls_deliveryQueue = [msg1\<lparr>qm_status := st\<rparr>], ls_deliveredMessage = [msg2]\<rparr>,
     inboundChannelState := [(2, [''AckMessage'', ''SeqMessage''])]\<rparr>"

definition demo_console :: console where
  "demo_console = \<lparr>con_out = [], con_err = [], con_err_open = True\<rparr>"

theorem report_determines_snapshot_witness:
  "inboundChannelState (demo_snapshot 0) = inboundChannelState (demo_snapshot 1) \<and>
   \<not> con_err_open (the (print_local_snapshot (demo_snapshot 0) demo_console))"
proof -
  have o: "con_err_open demo_console" by (simp add: demo_console_def)
  have "local_snapshot_report (demo_snapshot 0) = local_snapshot_report (demo_snapshot 1)"
    by (simp add: local_snapshot_report_def demo_snapshot_def show_queued_def)
  moreover have "one_line_snapshot (demo_snapshot st)" for st
    by (simp add: one_line_snapshot_def one_line_texts_def demo_snapshot_def new_snapshot_def)
  ultimately show ?thesis
    using report_determines_snapshot [OF print_local_snapshot_open [OF o] print_local_snapshot_open [OF o],
      of "demo_snapshot 0" "demo_snapshot 1"]
    by (simp add: print_local_snapshot_open [OF o])
qed

end
