(* ===== verification/Tending.thy ===== *)
theory Tending
  imports SnapshotFacts
begin

text \<open>
  What every step of a process keeps, whatever is lost on the network: a message whose final number
  the process knows is deliverable, the queue never holds deliverable messages only, acknowledgements
  and final numbers are not forgotten, and every message and acknowledgement still unanswered has
  a watchdog of its own. Together with the invariant of the group this is what the repair of
  losses rests on.
\<close>

section \<open>The queue is settled\<close>

definition known_deliverable :: "rm \<Rightarrow> bool" where
  "known_deliverable s \<longleftrightarrow> (\<forall>sm \<in> set (seqMessageHistory s).
     \<exists>m \<in> set (held s). uid m = seq_uid sm \<and> qm_status m = DELIVERABLE)"

definition waits_for_one :: "rm \<Rightarrow> bool" where
  "waits_for_one s \<longleftrightarrow> deliveryQueue s = [] \<or> (\<exists>m \<in> set (deliveryQueue s). qm_status m \<noteq> DELIVERABLE)"

definition queue_settled :: "rm \<Rightarrow> bool" where
  "queue_settled s \<longleftrightarrow> known_deliverable s \<and> waits_for_one s"

lemma queue_settled_same_core: "same_core s s' \<Longrightarrow> queue_settled s' = queue_settled s"
  by (simp add: queue_settled_def known_deliverable_def waits_for_one_def same_core_def held_def)

text \<open>Queueing a message that is not deliverable yet.\<close>

lemma queue_settled_push:
  assumes "queue_settled s" "is_heap cmp (deliveryQueue s)" "qm_status m = UNDELIVERABLE"
    and "deliveryQueue t = push_msg_to_deliveryqueue m (deliveryQueue s)"
      "deliveredMessage t = deliveredMessage s" "seqMessageHistory t = seqMessageHistory s"
  shows "queue_settled t"
proof -
  have q: "set (deliveryQueue t) = insert m (set (deliveryQueue s))"
    using assms(4) set_push_msg [OF assms(2)] by simp
  then have "m \<in> set (deliveryQueue t)" "qm_status m \<noteq> DELIVERABLE"
    using assms(3) by (simp_all add: DELIVERABLE_def UNDELIVERABLE_def)
  then have "waits_for_one t" unfolding waits_for_one_def by blast
  moreover have "set (held s) \<subseteq> set (held t)" using q assms(5) by (auto simp: held_def)
  then have "known_deliverable t"
    using assms(1) unfolding queue_settled_def known_deliverable_def assms(6) by blast
  ultimately show ?thesis by (simp add: queue_settled_def)
qed

section \<open>Final numbers\<close>

lemma deliver_held:
  assumes "is_heap cmp q"
  shows "set (held (deliver_msg_from_deliveryqueue (s\<lparr>deliveryQueue := q\<rparr>))) = set (deliveredMessage s) \<union> set q"
    and "waits_for_one (deliver_msg_from_deliveryqueue (s\<lparr>deliveryQueue := q\<rparr>))"
proof -
  obtain rest out where r: "deliver_loop q (deliveredMessage s) = (rest, deliveredMessage s @ out)"
    and dr: "dq.drained q rest out" using dq.loop_drains [OF assms] by blast
  then have "set q = set out \<union> set rest" by (metis dq.drained_def set_mset_mset set_mset_union)
  with r show "set (held (deliver_msg_from_deliveryqueue (s\<lparr>deliveryQueue := q\<rparr>))) = set (deliveredMessage s) \<union> set q"
    by (auto simp: deliver_msg_from_deliveryqueue_def held_def)
  have "rest = [] \<or> qm_status (hd rest) \<noteq> DELIVERABLE" using dr by (simp add: dq.drained_def)
  with r show "waits_for_one (deliver_msg_from_deliveryqueue (s\<lparr>deliveryQueue := q\<rparr>))"
    by (auto simp: deliver_msg_from_deliveryqueue_def waits_for_one_def dest: hd_in_set)
qed

lemma deliver_fields [simp]:
  "drop_rate (deliver_msg_from_deliveryqueue s) = drop_rate s"
  "outbox (deliver_msg_from_deliveryqueue s) = outbox s"
  "curr_msg_id (deliver_msg_from_deliveryqueue s) = curr_msg_id s"
  "curr_seq_number (deliver_msg_from_deliveryqueue s) = curr_seq_number s"
  "recv_cap (deliver_msg_from_deliveryqueue s) = recv_cap s"
  "alreadyAckedMessages (deliver_msg_from_deliveryqueue s) = alreadyAckedMessages s"
  "seqMessageHistory (deliver_msg_from_deliveryqueue s) = seqMessageHistory s"
  "ackHistory (deliver_msg_from_deliveryqueue s) = ackHistory s"
  "watchdogs (deliver_msg_from_deliveryqueue s) = watchdogs s"
  by (simp_all add: deliver_msg_from_deliveryqueue_def split: prod.split)

text \<open>Giving a message its final number makes it deliverable, and leaves what was deliverable so.\<close>

lemma change_known:
  assumes q: "queue_inv H i s" and u: "u = (w, k)" "u \<in> uid ` set (held s)"
    and ch: "change_queued_msg_seq_and_status w k sn p DELIVERABLE (deliveryQueue s) = (rv, q)"
  shows "is_heap cmp q"
    and "\<exists>m \<in> set (deliveredMessage s) \<union> set q. uid m = u \<and> qm_status m = DELIVERABLE"
    and "m \<in> set (held s) \<Longrightarrow> qm_status m = DELIVERABLE \<Longrightarrow>
      \<exists>m' \<in> set (deliveredMessage s) \<union> set q. uid m' = uid m \<and> qm_status m' = DELIVERABLE"
proof -
  let ?f = "finalize w k sn p DELIVERABLE"
  have heap: "is_heap cmp (deliveryQueue s)" and dist: "distinct (map uid (deliveryQueue s))"
    and del: "\<forall>m \<in> set (deliveredMessage s). qm_status m = DELIVERABLE"
    using q by (simp_all add: queue_inv_def held_def)
  have "is_heap cmp q \<and> (\<exists>m \<in> set (deliveredMessage s) \<union> set q. uid m = u \<and> qm_status m = DELIVERABLE) \<and>
    (\<forall>m \<in> set (held s). qm_status m = DELIVERABLE \<longrightarrow>
      (\<exists>m' \<in> set (deliveredMessage s) \<union> set q. uid m' = uid m \<and> qm_status m' = DELIVERABLE))"
  proof (cases "(w, k) \<in> uid ` set (deliveryQueue s)")
    case True
    then obtain q' where "change_queued_msg_seq_and_status w k sn p DELIVERABLE (deliveryQueue s) = (0, q')"
      "is_heap cmp q'" "mset q' = image_mset ?f (mset (deliveryQueue s))"
      using change_found [OF _ dist] by blast
    with ch have q: "is_heap cmp q" "mset q = image_mset ?f (mset (deliveryQueue s))" by simp_all
    from arg_cong [OF q(2), of set_mset] have set: "set q = ?f ` set (deliveryQueue s)" by simp
    from True obtain m where m: "m \<in> set (deliveryQueue s)" "uid m = (w, k)" by auto
    then have "?f m \<in> set q" "uid (?f m) = u" "qm_status (?f m) = DELIVERABLE"
      by (auto simp: set u(1)) (simp add: finalize_def)
    moreover have "?f m' \<in> set q \<and> uid (?f m') = uid m' \<and> qm_status (?f m') = DELIVERABLE"
      if "m' \<in> set (deliveryQueue s)" "qm_status m' = DELIVERABLE" for m'
      using that by (simp add: set) (simp add: finalize_def)
    ultimately show ?thesis using q(1) unfolding held_def by fastforce
  next
    case False
    then have "q = deliveryQueue s" using change_not_found [OF False] ch by simp
    moreover have "u \<in> uid ` set (deliveredMessage s)" using False u by (auto simp: held_def)
    ultimately show ?thesis using heap del unfolding held_def by fastforce
  qed
  then show "is_heap cmp q"
    and "\<exists>m \<in> set (deliveredMessage s) \<union> set q. uid m = u \<and> qm_status m = DELIVERABLE"
    and "m \<in> set (held s) \<Longrightarrow> qm_status m = DELIVERABLE \<Longrightarrow>
      \<exists>m' \<in> set (deliveredMessage s) \<union> set q. uid m' = uid m \<and> qm_status m' = DELIVERABLE" by blast+
qed

text \<open>
  The common end of both handlers that learn a final number: \<open>t\<close> is the state after the history has
  grown and the sequence message, if it is the own one, has been sent.
\<close>

lemma queue_settled_final:
  assumes f: "queue_settled s" and q: "queue_inv H i s" and u: "seq_uid sm \<in> uid ` set (held s)"
    and t: "deliveredMessage t = deliveredMessage s" "seqMessageHistory t = seqMessageHistory s @ [sm]"
    and ch: "change_queued_msg_seq_and_status (sm_sender sm) (sm_msg_id sm) sn p DELIVERABLE (deliveryQueue s) = (rv, q)"
  shows "queue_settled (deliver_msg_from_deliveryqueue (t\<lparr>deliveryQueue := q\<rparr>))"
proof -
  let ?t = "deliver_msg_from_deliveryqueue (t\<lparr>deliveryQueue := q\<rparr>)"
  note k = change_known [OF q _ u ch, unfolded seq_uid_def, OF refl]
  have held: "set (held ?t) = set (deliveredMessage s) \<union> set q"
    using deliver_held(1) [OF k(1), of t] t(1) by simp
  have "\<exists>m \<in> set (held ?t). uid m = seq_uid x \<and> qm_status m = DELIVERABLE"
    if x: "x \<in> set (seqMessageHistory ?t)" for x
  proof -
    consider "x = sm" | "x \<in> set (seqMessageHistory s)" using x t(2) by auto
    then show ?thesis
    proof cases
      case 1
      with k(2) show ?thesis unfolding held by (simp add: seq_uid_def)
    next
      case 2
      then obtain m where m: "m \<in> set (held s)" "uid m = seq_uid x" "qm_status m = DELIVERABLE"
        using f unfolding queue_settled_def known_deliverable_def by blast
      from k(3) [OF m(1,3)] m(2) show ?thesis unfolding held by simp
    qed
  qed
  then have "known_deliverable ?t" unfolding known_deliverable_def by blast
  with deliver_held(2) [OF k(1)] show ?thesis by (simp add: queue_settled_def)
qed

section \<open>Nothing is forgotten\<close>

text \<open>Three things a process can have done for message \<open>k\<close> of host \<open>j\<close>.\<close>

definition acked_by :: "string list \<Rightarrow> rm \<Rightarrow> nat \<Rightarrow> int \<Rightarrow> bool" where
  "acked_by H s j k \<longleftrightarrow> (hidw H j, to_u32 k) \<in> ack_uid ` set (alreadyAckedMessages s)"

definition answered :: "string list \<Rightarrow> rm \<Rightarrow> nat \<Rightarrow> int \<Rightarrow> bool" where
  "answered H s i k \<longleftrightarrow> (\<exists>pm. map_of (ackHistory s) k = Some pm \<and> hid H i \<in> dom (map_of pm))"

definition knows_final :: "string list \<Rightarrow> rm \<Rightarrow> nat \<Rightarrow> int \<Rightarrow> bool" where
  "knows_final H s j k \<longleftrightarrow> (hidw H j, to_u32 k) \<in> seq_uid ` set (seqMessageHistory s)"

definition gains :: "rm \<Rightarrow> rm \<Rightarrow> bool" where
  "gains s s' \<longleftrightarrow> drop_rate s' = drop_rate s \<and> curr_msg_id s \<le> curr_msg_id s' \<and>
     set (alreadyAckedMessages s) \<subseteq> set (alreadyAckedMessages s') \<and>
     set (seqMessageHistory s) \<subseteq> set (seqMessageHistory s') \<and>
     (\<forall>k pm. map_of (ackHistory s) k = Some pm \<longrightarrow>
        (\<exists>pm'. map_of (ackHistory s') k = Some pm' \<and> dom (map_of pm) \<subseteq> dom (map_of pm')))"

lemma gains_keeps:
  assumes "gains s s'"
  shows "acked_by H s j k \<Longrightarrow> acked_by H s' j k" "answered H s i k \<Longrightarrow> answered H s' i k"
    "knows_final H s j k \<Longrightarrow> knows_final H s' j k"
  using assms unfolding gains_def acked_by_def answered_def knows_final_def by blast+

lemma gains_trans: "gains s t \<Longrightarrow> gains t u \<Longrightarrow> gains s u"
proof -
  assume st: "gains s t" and tu: "gains t u"
  have "\<exists>pm''. map_of (ackHistory u) k = Some pm'' \<and> dom (map_of pm) \<subseteq> dom (map_of pm'')"
    if k: "map_of (ackHistory s) k = Some pm" for k pm
  proof -
    obtain pm' where "map_of (ackHistory t) k = Some pm'" "dom (map_of pm) \<subseteq> dom (map_of pm')"
      using st k unfolding gains_def by blast
    moreover from this(1) obtain pm'' where "map_of (ackHistory u) k = Some pm''" "dom (map_of pm') \<subseteq> dom (map_of pm'')"
      using tu unfolding gains_def by blast
    ultimately show ?thesis by blast
  qed
  with st tu show "gains s u" unfolding gains_def by auto
qed

lemma same_core_gains: "same_core s s' \<Longrightarrow> drop_rate s' = drop_rate s \<Longrightarrow> gains s s'"
  by (simp add: same_core_def gains_def)

text \<open>
  A step in which the watchdogs in \<open>W\<close> stay, and every new message and every new acknowledgement
  gets its watchdogs.
\<close>

definition tended :: "string list \<Rightarrow> nat \<Rightarrow> watchdog set \<Rightarrow> rm \<Rightarrow> rm \<Rightarrow> bool" where
  "tended H i W s s' \<longleftrightarrow> queue_settled s' \<and> gains s s' \<and> W \<subseteq> set (watchdogs s') \<and>
     (\<forall>k j. curr_msg_id s \<le> k \<and> k < curr_msg_id s' \<and> j < length H \<and> j \<noteq> i \<longrightarrow>
        (\<exists>dm. DataWatchdog dm (H ! j) 0 \<in> set (watchdogs s') \<and> dm_sender dm = hidw H i \<and> dm_msg_id dm = to_u32 k)) \<and>
     (\<forall>a \<in> set (alreadyAckedMessages s') - set (alreadyAckedMessages s).
        \<exists>h. AckWatchdog a h 0 \<in> set (watchdogs s'))"

lemma tendedI:
  assumes "queue_settled s'" "gains s s'" "W \<subseteq> set (watchdogs s')"
    and "\<And>k j. curr_msg_id s \<le> k \<Longrightarrow> k < curr_msg_id s' \<Longrightarrow> j < length H \<Longrightarrow> j \<noteq> i \<Longrightarrow>
      \<exists>dm. DataWatchdog dm (H ! j) 0 \<in> set (watchdogs s') \<and> dm_sender dm = hidw H i \<and> dm_msg_id dm = to_u32 k"
    and "\<And>a. a \<in> set (alreadyAckedMessages s') \<Longrightarrow> a \<notin> set (alreadyAckedMessages s) \<Longrightarrow>
      \<exists>h. AckWatchdog a h 0 \<in> set (watchdogs s')"
  shows "tended H i W s s'"
  using assms by (auto simp: tended_def)

lemma tendedD:
  assumes "tended H i W s s'"
  shows "queue_settled s'" "gains s s'" "W \<subseteq> set (watchdogs s')"
    and "curr_msg_id s \<le> k \<Longrightarrow> k < curr_msg_id s' \<Longrightarrow> j < length H \<Longrightarrow> j \<noteq> i \<Longrightarrow>
      \<exists>dm. DataWatchdog dm (H ! j) 0 \<in> set (watchdogs s') \<and> dm_sender dm = hidw H i \<and> dm_msg_id dm = to_u32 k"
    and "a \<in> set (alreadyAckedMessages s') \<Longrightarrow> a \<notin> set (alreadyAckedMessages s) \<Longrightarrow>
      \<exists>h. AckWatchdog a h 0 \<in> set (watchdogs s')"
  using assms by (auto simp: tended_def)

lemma tended_core:
  assumes "queue_settled s" "same_core s s'" "W \<subseteq> set (watchdogs s')" "drop_rate s' = drop_rate s"
  shows "tended H i W s s'"
  using assms(1,3,4) queue_settled_same_core [OF assms(2)] same_core_gains [OF assms(2)] assms(2)
  by (intro tendedI) (auto simp: same_core_def)

text \<open>Steps around one that are not about messages.\<close>

lemma tended_after:
  assumes "tended H i W s t" "same_core t u" "watchdogs u = watchdogs t" "drop_rate u = drop_rate t"
  shows "tended H i W s u"
proof (rule tendedI)
  show "gains s u" using tendedD(2) [OF assms(1)] same_core_gains [OF assms(2,4)] by (rule gains_trans)
qed (use tendedD [OF assms(1)] queue_settled_same_core [OF assms(2)] assms(2,3) in \<open>auto simp: same_core_def\<close>)

lemma tended_before:
  assumes "same_core s t" "tended H i W t u" "drop_rate t = drop_rate s"
  shows "tended H i W s u"
proof (rule tendedI)
  show "gains s u" using same_core_gains [OF assms(1,3)] tendedD(2) [OF assms(2)] by (rule gains_trans)
qed (use tendedD [OF assms(2)] assms(1) in \<open>auto simp: same_core_def\<close>)

section \<open>The handlers\<close>

lemma transmit_rate:
  assumes "transmit e dst pkt s = (rv, s')"
  shows "drop_rate s' = drop_rate s"
  using transmit_sends [OF assms] by (auto simp: sends_def)

lemma queue_rates [simp]:
  "drop_rate (queue_own d n s) = drop_rate s" "drop_rate (queue_received dm s) = drop_rate s"
  "drop_rate (ack_recorded a pm n sms s) = drop_rate s"
  by (simp_all add: queue_own_def queue_received_def ack_recorded_def Let_def)

lemma multicast_loop_watched:
  assumes "multicast_loop e dm pkt hs s = Inr s'"
  shows "same_core s s' \<and> drop_rate s' = drop_rate s \<and> set (watchdogs s) \<subseteq> set (watchdogs s') \<and>
    (\<forall>h \<in> set hs. h \<noteq> current_container_name s \<longrightarrow> DataWatchdog dm h 0 \<in> set (watchdogs s'))"
  using assms
proof (induction hs arbitrary: s)
  case Nil
  then show ?case by (simp add: same_core_def)
next
  case (Cons h hs)
  show ?case
  proof (cases "h = current_container_name s")
    case True
    with Cons show ?thesis by simp
  next
    case False
    obtain rv s1 where t: "transmit e h pkt s = (rv, s1)" by fastforce
    let ?s2 = "s1\<lparr>watchdogs := watchdogs s1 @ [DataWatchdog dm h 0]\<rparr>"
    have "multicast_loop e dm pkt hs ?s2 = Inr s'"
      using Cons.prems False t by (simp add: send_msg_with_drop_and_delay_def split: if_splits)
    from Cons.IH [OF this] transmit_fields(1,5) [OF t] transmit_rate [OF t] show ?thesis
      by (auto simp: same_core_def)
  qed
qed

lemma queue_own_gains:
  assumes "local_inv H i s"
  shows "gains s (queue_own d n s)"
  using fresh_own_key(1) [OF local_invD(2,5,7) [OF assms]] queue_own_maps(2) [OF assms]
  by (auto simp: gains_def)

lemma tended_multicast:
  assumes g: "good H st i s" and f: "queue_settled s" and run: "multicast_datamsg e data s = Inr s'"
  shows "tended H i (set (watchdogs s)) s s'"
proof -
  obtain k n where kn: "incr_int (curr_msg_id s) = Some k" "incr_int (curr_seq_number s) = Some n"
    using run by (auto simp: multicast_datamsg_eq split: option.splits)
  note l = local_invD [OF goodD(4) [OF g]]
  have heap: "is_heap cmp (deliveryQueue s)" using l(3) by (simp add: queue_inv_def)
  let ?s = "queue_own data n s"
  let ?dm = "\<lparr>dm_type = DATAMSG_TYPE, dm_sender = to_u32 (current_container_id s),
    dm_msg_id = to_u32 (curr_msg_id s), dm_data = data\<rparr>"
  let ?hs = "take (nat (num_hosts ?s)) (hostNames ?s)"
  from run kn have "multicast_loop e ?dm (serialize_data_message ?dm (uninit_packet e ?s)) ?hs ?s = Inr s'"
    by (simp add: multicast_datamsg_eq Let_def)
  note loop = multicast_loop_watched [OF this]
  then have c: "same_core ?s s'" by simp
  have "queue_settled ?s" using queue_settled_push [OF f heap, of "own_entry H i data n s" ?s] queue_own_changes(1) [OF l(1,2)] by simp
  then have queue_settled: "queue_settled s'" using queue_settled_same_core [OF c] by simp
  have gains: "gains s s'"
    using queue_own_gains [OF goodD(4) [OF g]] by (rule gains_trans) (rule same_core_gains [OF c], simp add: loop)
  show ?thesis
  proof (rule tendedI [OF queue_settled gains])
    show "set (watchdogs s) \<subseteq> set (watchdogs s')" using loop by simp
    fix k j assume k: "curr_msg_id s \<le> k" "k < curr_msg_id s'" and j: "j < length H" "j \<noteq> i"
    have "k = curr_msg_id s" using k c by (simp add: same_core_def)
    moreover have "H ! j \<in> set ?hs" using j l(1) by (simp add: static_inv_def)
    moreover have "H ! j \<noteq> current_container_name ?s"
      using j l(1) goodD(1,7) [OF g] by (simp add: static_inv_def host_name_inject)
    ultimately show "\<exists>dm. DataWatchdog dm (H ! j) 0 \<in> set (watchdogs s') \<and> dm_sender dm = hidw H i \<and> dm_msg_id dm = to_u32 k"
      using loop static_id [OF l(1)] by (intro exI [of _ ?dm]) simp
  qed (use c in \<open>simp add: same_core_def\<close>)
qed

lemma tended_datamsg:
  assumes g: "good H st i s" and f: "queue_settled s" and run: "handle_datamsg e dm s = Inr s'"
  shows "tended H i (set (watchdogs s)) s s'"
proof (cases "find (\<lambda>am. am_sender am = dm_sender dm \<and> am_msg_id am = dm_msg_id dm) (alreadyAckedMessages s)")
  case (Some am)
  obtain rv t where t: "transmit e (their_addr s) (serialize_ack_message am (uninit_packet e s)) s = (rv, t)"
    by fastforce
  with Some run have "s' = t" by (simp add: handle_datamsg_def reply_msg_with_drop_and_delay_def)
  with transmit_fields(1,5) [OF t] transmit_rate [OF t] f show ?thesis by (intro tended_core) simp_all
next
  case None
  let ?s2 = "queue_received dm s" and ?a = "received_ack H i dm s"
  note l = local_invD [OF goodD(4) [OF g]] and chg = queue_received_changes [OF goodD(5) [OF g]]
  have heap: "is_heap cmp (deliveryQueue s)" using l(3) by (simp add: queue_inv_def)
  obtain rv s3 where t: "transmit e (their_addr ?s2) (serialize_ack_message ?a (uninit_packet e ?s2)) ?s2 = (rv, s3)"
    by fastforce
  note c = transmit_fields [OF t]
  obtain n m h where s': "s' = s3\<lparr>curr_seq_number := n, hostIDtoHostName := m,
      watchdogs := watchdogs s3 @ [AckWatchdog ?a h 0]\<rparr>"
    using run t by (auto simp: handle_datamsg_new [OF None goodD(5) [OF g]] Let_def
        reply_msg_with_drop_and_delay_def incr_seq_number_def split: option.splits prod.splits)
  then have c': "same_core s3 s'" "drop_rate s' = drop_rate s3" by (simp_all add: same_core_def)
  have "queue_settled ?s2" using queue_settled_push [OF f heap, of "received_entry H i dm s" ?s2] chg(1) by simp
  then have queue_settled: "queue_settled s'" using queue_settled_same_core [OF c(1)] queue_settled_same_core [OF c'(1)] by simp
  have "gains s ?s2" by (auto simp: gains_def chg(2))
  then have gains: "gains s s'" using same_core_gains [OF c(1) transmit_rate [OF t]] same_core_gains [OF c'] gains_trans by blast
  have "alreadyAckedMessages s' = alreadyAckedMessages s @ [?a]" "curr_msg_id s' = curr_msg_id s"
    using c(1) c'(1) chg(2) by (simp_all add: same_core_def)
  with queue_settled gains c(5) s' show ?thesis by (intro tendedI) auto
qed

lemma broadcast_loop_core:
  assumes "broadcast_loop e pkt hs s = Inr s'"
  shows "same_core s s' \<and> watchdogs s' = watchdogs s \<and> drop_rate s' = drop_rate s"
  using assms
proof (induction hs arbitrary: s)
  case Nil
  then show ?case by (simp add: same_core_def)
next
  case (Cons h hs)
  show ?case
  proof (cases "h = current_container_name s")
    case False
    obtain rv s1 where t: "transmit e h pkt s = (rv, s1)" by fastforce
    have "broadcast_loop e pkt hs s1 = Inr s'"
      using Cons.prems False t by (simp add: send_msg_with_drop_and_delay_def split: if_splits)
    from Cons.IH [OF this] transmit_fields(1,5) [OF t] transmit_rate [OF t] show ?thesis by (simp add: same_core_def)
  qed (use Cons in simp)
qed

text \<open>The acknowledgement history only gains proposals.\<close>

lemma gains_ack_recorded:
  assumes "local_inv H i s" "map_of (ackHistory s) (to_int (am_msg_id a)) = Some pm" "map_of pm w = None"
  shows "gains s (ack_recorded a (map_insert w v pm) n [] s)"
proof -
  have ok: "map_ok (ackHistory s)" "map_ok pm"
    using local_invD(5) [OF assms(1)] assms(2) by (auto simp: ack_history_inv_def)
  have "map_of (ackHistory (ack_recorded a (map_insert w v pm) n [] s)) =
      (map_of (ackHistory s))(to_int (am_msg_id a) \<mapsto> map_insert w v pm)"
    "map_of (map_insert w v pm) = (map_of pm)(w \<mapsto> v)"
    using ok assms(3) by (simp_all add: map_of_store map_of_insert)
  then show ?thesis using assms(2) by (auto simp: gains_def)
qed

lemma own_held:
  assumes "queue_inv H i s" "k \<in> {0..<curr_msg_id s}"
  shows "(hidw H i, to_u32 k) \<in> uid ` set (held s)"
  using assms by (simp add: queue_inv_def own_ids_def)

lemma tended_finalize:
  assumes q: "queue_inv H i s" and f: "queue_settled s"
    and a: "am_sender a = hidw H i" "to_int (am_msg_id a) \<in> {0..<curr_msg_id s}"
    and run: "finalize_message e a pm s = Inr s'"
  shows "queue_settled s' \<and> gains s s' \<and> watchdogs s' = watchdogs s \<and> curr_msg_id s' = curr_msg_id s \<and>
    alreadyAckedMessages s' = alreadyAckedMessages s"
proof -
  obtain fs fp where mx: "get_max_sequence_from_proposerseq_map pm = (fs, fp)" by fastforce
  let ?sm = "make_seq_msg (am_sender a) (am_msg_id a) fs fp"
  let ?s1 = "s\<lparr>seqMessageHistory := seqMessageHistory s @ [?sm]\<rparr>"
  obtain t where b: "broadcast_seq_msg e ?sm ?s1 = Inr t"
    using run mx by (auto simp: finalize_message_def Let_def split: sum.splits)
  then have c: "same_core ?s1 t" "watchdogs t = watchdogs s" "drop_rate t = drop_rate s"
    using broadcast_loop_core by (fastforce simp: broadcast_seq_msg_def)+
  obtain rv q' where ch: "change_queued_msg_seq_and_status (am_sender a) (am_msg_id a) fs fp DELIVERABLE
    (deliveryQueue s) = (rv, q')" by fastforce
  then have ch': "change_queued_msg_seq_and_status (sm_sender ?sm) (sm_msg_id ?sm) fs fp DELIVERABLE
    (deliveryQueue s) = (rv, q')" by (simp add: make_seq_msg_def)
  have u: "seq_uid ?sm \<in> uid ` set (held s)"
    using own_held [OF q a(2)] a(1) by (simp add: seq_uid_def make_seq_msg_def)
  have s': "s' = deliver_msg_from_deliveryqueue (t\<lparr>deliveryQueue := q'\<rparr>)"
    using run mx b ch c(1) by (simp add: finalize_message_def Let_def same_core_def)
  have "queue_settled s'" unfolding s'
    using queue_settled_final [OF f q u _ _ ch'] c(1) by (simp add: same_core_def)
  moreover have "gains s s'" using c(1,3) by (auto simp: s' gains_def same_core_def)
  ultimately show ?thesis using c by (simp add: s' same_core_def)
qed

lemma tended_ackmsg:
  assumes g: "good H st i s" and a: "peer_ack H st i j a" and f: "queue_settled s" and run: "handle_ackmsg e a s = Inr s'"
  shows "tended H i (set (watchdogs s)) s s'"
proof -
  note gd = goodD [OF g] and pa = peer_ackD [OF goodD(2,1) [OF g] a]
  obtain pm where pm: "map_of (ackHistory s) (to_int (am_msg_id a)) = Some pm"
    using local_invD(5) [OF gd(4)] pa(5) by (rule ack_history_at)
  note run = run [unfolded handle_ackmsg_known [OF pm] pa(4) Let_def]
  show ?thesis
  proof (cases "map_of pm (hid H j)")
    case (Some v)
    have "same_core s s' \<and> watchdogs s' = watchdogs s \<and> drop_rate s' = drop_rate s"
      using run Some transmit_fields(1,5) transmit_rate
      by (fastforce simp: resend_seq_msg_def reply_msg_with_drop_and_delay_def same_core_def
          split: if_splits option.splits prod.splits)
    with f show ?thesis by (intro tended_core) simp_all
  next
    case None
    let ?pm' = "map_insert (hid H j) (to_int (am_proposed_seq a)) pm"
    obtain n where n: "incr_int (curr_seq_number s) = Some n" using run None by (auto split: option.splits)
    let ?t = "ack_recorded a ?pm' n [] s"
    have t: "queue_settled ?t" "gains s ?t"
      using f gains_ack_recorded [OF gd(4) pm None]
      by (simp_all add: queue_settled_def known_deliverable_def waits_for_one_def)
    show ?thesis
    proof (cases "int (length ?pm') = num_hosts s")
      case True
      with run None n have fin: "finalize_message e a ?pm' ?t = Inr s'" by simp
      have "queue_inv H i ?t" using local_invD(3) [OF gd(4)] by (simp add: queue_inv_def)
      from tended_finalize [OF this t(1) pa(3) _ fin] pa(5) gains_trans [OF t(2)] show ?thesis
        by (intro tendedI) auto
    next
      case False
      with run None n have "s' = ?t" by simp
      with t show ?thesis by (intro tendedI) auto
    qed
  qed
qed

lemma tended_seqmsg:
  assumes g: "good H st i s" and f: "queue_settled s" and run: "handle_seqmsg e sm s = Inr s'"
  shows "tended H i (set (watchdogs s)) s s'"
proof -
  note q = local_invD(3) [OF goodD(4) [OF g]]
  obtain rv q' where ch: "change_queued_msg_seq_and_status (sm_sender sm) (sm_msg_id sm)
      (sm_final_seq sm) (sm_final_seq_proposer sm) DELIVERABLE (deliveryQueue s) = (rv, q')"
    by fastforce
  have mem: "sm \<in> set (seqMessageHistory s @ [sm])" by simp
  note ch' = change_redelivered(2,3) [OF q mem ch]
  show ?thesis
  proof (cases "seq_uid sm \<in> uid ` set (deliveryQueue s)")
    case True
    then have "rv = 0" using ch'(1) by (simp add: seq_uid_def)
    let ?t = "s\<lparr>seqMessageHistory := seqMessageHistory s @ [sm]\<rparr>"
    have "?t\<lparr>deliveryQueue := q'\<rparr> = s\<lparr>deliveryQueue := q', seqMessageHistory := seqMessageHistory s @ [sm]\<rparr>"
      by (rule rm.equality) simp_all
    with run ch \<open>rv = 0\<close> have s': "s' = deliver_msg_from_deliveryqueue (?t\<lparr>deliveryQueue := q'\<rparr>)"
      by (simp only:) (simp add: handle_seqmsg_def)
    have "queue_settled s'" unfolding s' using queue_settled_final [OF f q _ _ _ ch, of ?t] True by (simp add: held_def image_Un)
    moreover have "gains s s'" by (auto simp: s' gains_def)
    ultimately show ?thesis by (intro tendedI) (simp_all add: s')
  next
    case False
    then have rv: "rv = - 1" "q' = deliveryQueue s" using ch' by (auto simp: seq_uid_def)
    then have "s' = s" using run ch by (simp add: handle_seqmsg_def split: if_splits)
    with f show ?thesis by (intro tended_core) (simp_all add: same_core_def)
  qed
qed

section \<open>The receiver\<close>

lemma tended_dispatch:
  assumes g: "good H st i s" and b: "from_peer H st i j (msg_buf s)" and f: "queue_settled s"
    and run: "dispatch e s = Inr s'"
  shows "tended H i (set (watchdogs s)) s s'"
  using b run tended_datamsg [OF g f] tended_ackmsg [OF g _ f] tended_seqmsg [OF g f]
  by (auto simp: from_peer_def dispatch_def Let_def DATAMSG_TYPE_def ACKMSG_TYPE_def SEQMSG_TYPE_def)

text \<open>A turn of the receiver that reads a datagram.\<close>

definition received :: "packet \<Rightarrow> rm \<Rightarrow> rm" where
  "received p s = record_inbound (s\<lparr>msg_buf := p_payload p, their_addr := p_src p\<rparr>)"

lemma received_fields [simp]:
  "msg_buf (received p s) = p_payload p" "their_addr (received p s) = p_src p"
  "recv_cap (received p s) = recv_cap s" "curr_seq_number (received p s) = curr_seq_number s"
  "alreadyAckedMessages (received p s) = alreadyAckedMessages s" "ackHistory (received p s) = ackHistory s"
  "seqMessageHistory (received p s) = seqMessageHistory s" "curr_msg_id (received p s) = curr_msg_id s"
  "same_core s (received p s)" "watchdogs (received p s) = watchdogs s" "outbox (received p s) = outbox s" "drop_rate (received p s) = drop_rate s"
  by (simp_all add: received_def record_inbound_def same_core_def)

lemma good_received_packet:
  assumes g: "good H st i s" and p: "from_peer H st i j (p_payload p)"
  shows "good H st i (received p s)"
proof -
  have "known_type (p_payload p)" "length (p_payload p) = MAX_STRUCT_SIZE"
    using p by (auto simp: from_peer_def known_type_def)
  then show ?thesis
    unfolding received_def using good_received [OF g] by (intro good_record_inbound) simp_all
qed

lemma receiver_turn_dispatch:
  assumes g: "good H st i s" and p: "from_peer H st i j (p_payload p)" and "recv_cap s < RECV_CAP"
  shows "msg_receiver_turn e (Some p) s =
    (case dispatch e (received p s) of Inl err \<Rightarrow> Inl err | Inr s1 \<Rightarrow> Inr (s1\<lparr>recv_cap := recv_cap s1 + 1\<rparr>))"
proof -
  have "recv_into (msg_buf s) (p_payload p) = Some (p_payload p)"
    using goodD(5) [OF g] p by (intro recv_into_whole) (auto simp: static_inv_def from_peer_def)
  with assms(3) show ?thesis by (simp add: msg_receiver_turn_def received_def)
qed

lemma tended_receiver:
  assumes g: "good H st i s" and f: "queue_settled s"
    and p: "\<And>p. x = Some p \<Longrightarrow> \<exists>j. p_src p = H ! j \<and> from_peer H st i j (p_payload p)"
    and run: "msg_receiver_turn e x s = Inr s'"
  shows "tended H i (set (watchdogs s)) s s'"
proof (cases "recv_cap s < RECV_CAP \<and> x \<noteq> None")
  case True
  then obtain p where x: "x = Some p" by blast
  with p obtain j where j: "p_src p = H ! j" "from_peer H st i j (p_payload p)" by blast
  obtain u where u: "dispatch e (received p s) = Inr u" "s' = u\<lparr>recv_cap := recv_cap u + 1\<rparr>"
    using run True x by (auto simp: receiver_turn_dispatch [OF g j(2)] split: sum.splits)
  have "queue_settled (received p s)" using f queue_settled_same_core [of s "received p s"] by simp
  then have "tended H i (set (watchdogs s)) (received p s) u"
    using tended_dispatch [OF good_received_packet [OF g j(2)] _ _ u(1), of j] j(2) by simp
  then have "tended H i (set (watchdogs s)) s u" by (rule tended_before [rotated]) simp_all
  then show ?thesis by (rule tended_after) (simp_all add: u(2) same_core_def)
next
  case False
  then have "s' = s" using run by (auto simp: msg_receiver_turn_def split: if_splits)
  with f show ?thesis by (intro tended_core) (simp_all add: same_core_def)
qed

section \<open>The watchdogs\<close>

text \<open>
  A turn of a watchdog that has not had all its attempts: the others stay, and it stays itself unless
  what it waits for has come.
\<close>

fun relieved :: "watchdog \<Rightarrow> rm \<Rightarrow> bool" where
  "relieved (DataWatchdog dm h n) s \<longleftrightarrow>
     (\<exists>pm. map_of (ackHistory s) (to_int (dm_msg_id dm)) = Some pm \<and> extract_int_from_string h \<in> dom (map_of pm))"
| "relieved (AckWatchdog a h n) s \<longleftrightarrow> ack_uid a \<in> seq_uid ` set (seqMessageHistory s)"

lemma watchdog_pass_core:
  assumes "watchdog_pass e w s = Inr (b, s')"
  shows "same_core s s'" "watchdogs s' = watchdogs s" "b = relieved w s"
    "drop_rate s' = drop_rate s" "set (outbox s) \<subseteq> set (outbox s')"
    "curr_seq_number s' = curr_seq_number s" "recv_cap s' = recv_cap s"
proof -
  have eff: "same_core s t \<and> watchdogs t = watchdogs s \<and> drop_rate t = drop_rate s \<and> set (outbox s) \<subseteq> set (outbox t) \<and>
      curr_seq_number t = curr_seq_number s \<and> recv_cap t = recv_cap s"
    if "transmit e h pkt s = (rv, t)" for h pkt rv t
    using transmit_sends [OF that] by (auto simp: sends_def same_core_def)
  have refl: "same_core s s" by (simp add: same_core_def)
  have "same_core s s' \<and> watchdogs s' = watchdogs s \<and> b = relieved w s \<and> drop_rate s' = drop_rate s \<and>
      set (outbox s) \<subseteq> set (outbox s') \<and> curr_seq_number s' = curr_seq_number s \<and> recv_cap s' = recv_cap s"
  proof (cases w)
    case (DataWatchdog dm h n)
    obtain rv t where t: "transmit e h (serialize_data_message dm (uninit_packet e s)) s = (rv, t)" by fastforce
    with assms eff [OF t] refl show ?thesis
      by (auto simp: DataWatchdog datamsg_watchdog_pass_def send_msg_with_drop_and_delay_def map_count_zero
          split: option.splits if_splits)
  next
    case (AckWatchdog a h n)
    obtain rv t where t: "transmit e h (serialize_ack_message a (uninit_packet e s)) s = (rv, t)" by fastforce
    have "list_ex (\<lambda>sm. sm_sender sm = am_sender a \<and> sm_msg_id sm = am_msg_id a) (seqMessageHistory s) =
        relieved w s"
      by (force simp: AckWatchdog list_ex_iff seq_uid_def ack_uid_def image_iff)
    with assms eff [OF t] t refl show ?thesis
      by (auto simp: AckWatchdog ackmsg_watchdog_pass_def send_msg_with_drop_and_delay_def split: if_splits)
  qed
  then show "same_core s s'" "watchdogs s' = watchdogs s" "b = relieved w s"
    "drop_rate s' = drop_rate s" "set (outbox s) \<subseteq> set (outbox s')"
    "curr_seq_number s' = curr_seq_number s" "recv_cap s' = recv_cap s" by simp_all
qed

lemma set_remove_other: "x \<in> set xs \<Longrightarrow> x \<noteq> xs ! k \<Longrightarrow> x \<in> set (remove_nth k xs)"
proof -
  assume x: "x \<in> set xs" "x \<noteq> xs ! k"
  show ?thesis
  proof (cases "k < length xs")
    case True
    from x have "x \<in> set (take k xs) \<or> x \<in> set (drop (Suc k) xs)"
      using True by (metis id_take_nth_drop Un_iff set_append set_ConsD)
    then show ?thesis by (auto simp: remove_nth_def)
  qed (use x in \<open>simp add: remove_nth_def\<close>)
qed

lemma set_update_other: "x \<in> set xs \<Longrightarrow> x \<noteq> xs ! k \<Longrightarrow> x \<in> set (xs[k := y])"
  by (metis in_set_conv_nth length_list_update nth_list_update_neq)

lemma tended_watchdog:
  assumes f: "queue_settled s" and k: "k < length (watchdogs s)" "w = watchdogs s ! k"
    and n: "attempts w < WATCHDOG_RESEND_CAP" and run: "watchdog_turn e k s = Inr s'"
  shows "tended H i (set (watchdogs s) - {w}) s s'" "\<not> relieved w s \<Longrightarrow> next_attempt w \<in> set (watchdogs s')"
proof -
  obtain b s1 where p: "watchdog_pass e w s = Inr (b, s1)"
    and s': "s' = s1\<lparr>watchdogs := (if b then remove_nth k (watchdogs s1) else (watchdogs s1)[k := next_attempt w])\<rparr>"
    using run k n by (auto simp: watchdog_turn_def Let_def split: sum.splits)
  note c = watchdog_pass_core [OF p]
  show "tended H i (set (watchdogs s) - {w}) s s'"
    using f
  proof (rule tended_core)
    show "same_core s s'" using c(1) by (simp add: s' same_core_def)
    show "drop_rate s' = drop_rate s" using c(4) by (simp add: s')
    show "set (watchdogs s) - {w} \<subseteq> set (watchdogs s')"
      using set_remove_other [of _ "watchdogs s" k] set_update_other [of _ "watchdogs s" k] k(2)
      by (auto simp: s' c(2))
  qed
  show "\<not> relieved w s \<Longrightarrow> next_attempt w \<in> set (watchdogs s')"
    using k(1) c(3) by (simp add: s' c(2) set_update_memI)
qed

section \<open>Every event\<close>

text \<open>The watchdogs that an event leaves alone, and the events in which none gives up.\<close>

fun left_alone :: "event \<Rightarrow> rm \<Rightarrow> watchdog set" where
  "left_alone (WatchdogTurn k) s =
     (if k < length (watchdogs s) then set (watchdogs s) - {watchdogs s ! k} else set (watchdogs s))"
| "left_alone ev s = set (watchdogs s)"

fun patient :: "event \<Rightarrow> rm \<Rightarrow> bool" where
  "patient (WatchdogTurn k) s \<longleftrightarrow>
     (k < length (watchdogs s) \<longrightarrow> attempts (watchdogs s ! k) < WATCHDOG_RESEND_CAP)"
| "patient ev s \<longleftrightarrow> True"

lemma tended_quiet: "queue_settled s \<Longrightarrow> quiet s s' \<Longrightarrow> tended H i (set (watchdogs s)) s s'"
  by (rule tended_core) (simp_all add: quiet_def)

lemma tended_event:
  assumes g: "good H st i s" and f: "queue_settled s" and pt: "patient ev s"
    and p: "\<And>p. ev = Receive (Some p) \<Longrightarrow> \<exists>j. p_src p = H ! j \<and> from_peer H st i j (p_payload p)"
    and run: "process_event e ev s = Inr s'"
  shows "tended H i (left_alone ev s) s s'"
proof (cases ev)
  case (Multicast data)
  with run show ?thesis using tended_multicast [OF g f] by simp
next
  case (Receive x)
  with run p show ?thesis using tended_receiver [OF g f, of x e s'] by simp
next
  case (WatchdogTurn k)
  with run pt f show ?thesis
    using tended_watchdog(1) [OF f _ refl] tended_core [OF f, of s] by (auto simp: watchdog_turn_def same_core_def)
next
  case InitiateSnapshot
  with run tended_quiet [OF f quiet_initiate, of H i e] show ?thesis by simp
next
  case (ListenerTurn x)
  with run tended_quiet [OF f quiet_listener, of H i e x] show ?thesis by simp
qed

text \<open>The queue stays settled also when a watchdog gives up.\<close>

lemma queue_settled_event:
  assumes g: "good H st i s" and f: "queue_settled s"
    and p: "\<And>p. ev = Receive (Some p) \<Longrightarrow> \<exists>j. p_src p = H ! j \<and> from_peer H st i j (p_payload p)"
    and run: "process_event e ev s = Inr s'"
  shows "queue_settled s'"
proof (cases "patient ev s")
  case True
  from tended_event [OF g f this p run] show ?thesis by (simp add: tended_def)
next
  case False
  then obtain k where k: "ev = WatchdogTurn k" "k < length (watchdogs s)"
    "\<not> attempts (watchdogs s ! k) < WATCHDOG_RESEND_CAP" by (cases ev) auto
  with run have "same_core s s'" by (auto simp: watchdog_turn_def Let_def same_core_def)
  with f queue_settled_same_core show ?thesis by simp
qed

end
