(* ===== verification/Flow.thy ===== *)
theory Flow
  imports Tending
begin

text \<open>
  What holds of a process as long as nothing it sends is lost: every datagram it owes to another
  host is on the wire. The handlers are followed here once more, in a period without losses: what
  they send arrives on the wire, and what they do brings the protocol ahead.
\<close>

section \<open>No losses\<close>

text \<open>No message is dropped on purpose and no call of \<open>sendto\<close> fails.\<close>

definition no_loss :: "env \<Rightarrow> rat \<Rightarrow> bool" where
  "no_loss e r \<longleftrightarrow> (\<forall>k. \<not> of_int (rand_draw e k) / of_int RAND_MAX < r \<and> sendto_rv e k \<noteq> - 1)"

lemma transmit_no_loss:
  assumes "no_loss e (drop_rate s)"
  obtains rv s' where "transmit e dst pkt s = (rv, s')" "rv \<noteq> - 1"
    "sends s s' [\<lparr>p_src = current_container_name s, p_dst = dst, p_payload = pkt\<rparr>]"
proof -
  let ?s1 = "s\<lparr>ticks := Suc (ticks s)\<rparr>"
  obtain sn where sn: "record_outbound pkt ?s1 = ?s1\<lparr>snapshot := sn\<rparr>"
    by (cases "recordMessages s") (auto simp: record_outbound_def intro: that [of "snapshot s"])
  show thesis
    by (rule that [of "sendto_rv e (ticks s)" "(?s1\<lparr>snapshot := sn\<rparr>)\<lparr>outbox := outbox s @
        [\<lparr>p_src = current_container_name s, p_dst = dst, p_payload = pkt\<rparr>]\<rparr>"])
      (use assms sn in \<open>auto simp: transmit_def no_loss_def random_uniform_from_0_to_1_def Let_def sends_def\<close>)
qed

section \<open>The invariant\<close>

definition sent :: "rm \<Rightarrow> string \<Rightarrow> (u8 list \<Rightarrow> u8 list) \<Rightarrow> bool" where
  "sent s dst ser \<longleftrightarrow> (\<exists>p \<in> set (outbox s). p_dst p = dst \<and>
     (\<exists>junk. length junk = MAX_STRUCT_SIZE \<and> p_payload p = ser junk))"

definition data_sent :: "string list \<Rightarrow> nat \<Rightarrow> rm \<Rightarrow> bool" where
  "data_sent H i s \<longleftrightarrow> (\<forall>k. 0 \<le> k \<and> k < curr_msg_id s \<longrightarrow>
     (\<exists>dm. dm_type dm = DATAMSG_TYPE \<and> dm_sender dm = hidw H i \<and> dm_msg_id dm = to_u32 k \<and>
        (\<forall>j < length H. j \<noteq> i \<longrightarrow> sent s (H ! j) (serialize_data_message dm))))"

definition acks_sent :: "string list \<Rightarrow> rm \<Rightarrow> bool" where
  "acks_sent H s \<longleftrightarrow> (\<forall>a \<in> set (alreadyAckedMessages s). \<forall>j < length H.
     am_sender a = hidw H j \<longrightarrow> sent s (H ! j) (serialize_ack_message a))"

definition seqs_sent :: "string list \<Rightarrow> nat \<Rightarrow> rm \<Rightarrow> bool" where
  "seqs_sent H i s \<longleftrightarrow> (\<forall>sm \<in> set (seqMessageHistory s). sm_sender sm = hidw H i \<longrightarrow>
     (\<forall>j < length H. j \<noteq> i \<longrightarrow> sent s (H ! j) (serialize_seq_message sm)))"

definition flow :: "string list \<Rightarrow> nat \<Rightarrow> rat \<Rightarrow> rm \<Rightarrow> bool" where
  "flow H i r s \<longleftrightarrow> drop_rate s = r \<and> data_sent H i s \<and> acks_sent H s \<and> seqs_sent H i s"

lemma flowD:
  assumes "flow H i r s"
  shows "drop_rate s = r" "data_sent H i s" "acks_sent H s" "seqs_sent H i s"
  using assms by (simp_all add: flow_def)

text \<open>All that a step may do besides: send more, and change what the invariant does not mention.\<close>

lemma sentI:
  "p \<in> set (outbox s) \<Longrightarrow> p_dst p = dst \<Longrightarrow> p_payload p = ser junk \<Longrightarrow> length junk = MAX_STRUCT_SIZE \<Longrightarrow>
   sent s dst ser"
  unfolding sent_def by blast

lemma sent_mono: "sent s dst ser \<Longrightarrow> set (outbox s) \<subseteq> set (outbox s') \<Longrightarrow> sent s' dst ser"
  unfolding sent_def by blast

lemma flow_more:
  assumes "flow H i r s" "same_core s s'" "drop_rate s' = drop_rate s" "set (outbox s) \<subseteq> set (outbox s')"
  shows "flow H i r s'"
proof -
  note f = flowD [OF assms(1)] and sent = sent_mono [OF _ assms(4)]
  have fld: "curr_msg_id s' = curr_msg_id s" "alreadyAckedMessages s' = alreadyAckedMessages s"
    "seqMessageHistory s' = seqMessageHistory s"
    using assms(2) by (simp_all add: same_core_def)
  have "data_sent H i s'" using f(2) sent unfolding data_sent_def fld by metis
  moreover have "acks_sent H s'" using f(3) sent unfolding acks_sent_def fld by metis
  moreover have "seqs_sent H i s'" using f(4) sent unfolding seqs_sent_def fld by metis
  ultimately show ?thesis
    using f(1) assms(3) by (simp add: flow_def)
qed

lemma flow_sends: "flow H i r s \<Longrightarrow> sends s s' ps \<Longrightarrow> flow H i r s'"
  by (erule flow_more) (auto simp: sends_def same_core_def)

lemma flow_quiet: "flow H i r s \<Longrightarrow> quiet s s' \<Longrightarrow> flow H i r s'"
  by (erule flow_more) (auto simp: quiet_def)

text \<open>Outcomes: the invariant is about processes that run on.\<close>

definition flows :: "string list \<Rightarrow> nat \<Rightarrow> rat \<Rightarrow> outcome \<Rightarrow> bool" where
  "flows H i r out \<longleftrightarrow> (\<forall>s'. out = Inr s' \<longrightarrow> flow H i r s')"

lemma flows_simps [simp]: "flows H i r (Inr s) = flow H i r s" "flows H i r (Inl x)"
  by (simp_all add: flows_def)

lemma flows_quiet: "flow H i r s \<Longrightarrow> quiet s (state_of out) \<Longrightarrow> flows H i r out"
  using flow_quiet by (auto simp: flows_def)

section \<open>The loops that send\<close>

text \<open>A run through the hosts in which every one but the own gets the packet.\<close>

definition sent_to_all :: "rm \<Rightarrow> u8 list \<Rightarrow> string list \<Rightarrow> rm \<Rightarrow> bool" where
  "sent_to_all s pkt hs s' \<longleftrightarrow> same_core s s' \<and> drop_rate s' = drop_rate s \<and>
     curr_seq_number s' = curr_seq_number s \<and> recv_cap s' = recv_cap s \<and>
     set (outbox s) \<subseteq> set (outbox s') \<and>
     (\<forall>h \<in> set hs. h \<noteq> current_container_name s \<longrightarrow> (\<exists>p \<in> set (outbox s'). p_dst p = h \<and> p_payload p = pkt))"

lemma sent_to_all_Nil: "sent_to_all s pkt [] s"
  by (simp add: sent_to_all_def same_core_def)

lemma sent_to_all_skip:
  "h = current_container_name s \<Longrightarrow> sent_to_all s pkt hs s' \<Longrightarrow> sent_to_all s pkt (h # hs) s'"
  by (simp add: sent_to_all_def)

lemma sent_to_all_Cons:
  assumes "sends s s1 [\<lparr>p_src = current_container_name s, p_dst = h, p_payload = pkt\<rparr>]"
    and "sent_to_all (s1\<lparr>watchdogs := ws\<rparr>) pkt hs s'"
  shows "sent_to_all s pkt (h # hs) s'"
proof -
  let ?p = "\<lparr>p_src = current_container_name s, p_dst = h, p_payload = pkt\<rparr>"
  have "?p \<in> set (outbox s')" "p_dst ?p = h" "p_payload ?p = pkt"
    using assms by (auto simp: sent_to_all_def sends_def)
  then have "\<exists>p \<in> set (outbox s'). p_dst p = h \<and> p_payload p = pkt" by blast
  then show ?thesis using assms by (auto simp: sent_to_all_def sends_def same_core_def)
qed

lemma multicast_loop_sends_all:
  assumes "no_loss e (drop_rate s)"
  shows "\<exists>s'. multicast_loop e dm pkt hs s = Inr s' \<and> sent_to_all s pkt hs s'"
  using assms
proof (induction hs arbitrary: s)
  case Nil
  then show ?case by (simp add: sent_to_all_Nil)
next
  case (Cons h hs)
  show ?case
  proof (cases "h = current_container_name s")
    case True
    with Cons sent_to_all_skip show ?thesis by fastforce
  next
    case False
    obtain rv s1 where t: "transmit e h pkt s = (rv, s1)" "rv \<noteq> - 1"
      "sends s s1 [\<lparr>p_src = current_container_name s, p_dst = h, p_payload = pkt\<rparr>]"
      using Cons.prems by (rule transmit_no_loss)
    let ?s2 = "s1\<lparr>watchdogs := watchdogs s1 @ [DataWatchdog dm h 0]\<rparr>"
    have "no_loss e (drop_rate ?s2)" using Cons.prems t(3) by (auto simp: sends_def)
    from Cons.IH [OF this] obtain s' where "multicast_loop e dm pkt hs ?s2 = Inr s'" "sent_to_all ?s2 pkt hs s'"
      by blast
    with False t sent_to_all_Cons [OF t(3)] show ?thesis by (simp add: send_msg_with_drop_and_delay_def)
  qed
qed

lemma broadcast_loop_sends_all:
  assumes "no_loss e (drop_rate s)"
  shows "\<exists>s'. broadcast_loop e pkt hs s = Inr s' \<and> sent_to_all s pkt hs s'"
  using assms
proof (induction hs arbitrary: s)
  case Nil
  then show ?case by (simp add: sent_to_all_Nil)
next
  case (Cons h hs)
  show ?case
  proof (cases "h = current_container_name s")
    case True
    with Cons sent_to_all_skip show ?thesis by fastforce
  next
    case False
    obtain rv s1 where t: "transmit e h pkt s = (rv, s1)" "rv \<noteq> - 1"
      "sends s s1 [\<lparr>p_src = current_container_name s, p_dst = h, p_payload = pkt\<rparr>]"
      using Cons.prems by (rule transmit_no_loss)
    have "no_loss e (drop_rate s1)" using Cons.prems t(3) by (auto simp: sends_def)
    from Cons.IH [OF this] obtain s' where s': "broadcast_loop e pkt hs s1 = Inr s'" "sent_to_all s1 pkt hs s'"
      by blast
    have "s1\<lparr>watchdogs := watchdogs s1\<rparr> = s1" by simp
    with False t s' sent_to_all_Cons [OF t(3), of "watchdogs s1" hs s'] show ?thesis
      by (simp add: send_msg_with_drop_and_delay_def)
  qed
qed

lemma sent_to_all_sent:
  assumes "sent_to_all s (ser junk) hs s'" "length junk = MAX_STRUCT_SIZE" "h \<in> set hs"
    "h \<noteq> current_container_name s"
  shows "sent s' h ser"
  using assms unfolding sent_to_all_def sent_def by blast

section \<open>Steps ahead\<close>

text \<open>A step that multicasts nothing and uses up at most one number.\<close>

definition ahead :: "rm \<Rightarrow> rm \<Rightarrow> bool" where
  "ahead s s' \<longleftrightarrow> gains s s' \<and> curr_msg_id s' = curr_msg_id s \<and>
     curr_seq_number s' \<le> curr_seq_number s + 1 \<and> recv_cap s' = recv_cap s"

lemma sends_ahead: "sends s s' ps \<Longrightarrow> ahead s s'"
proof -
  assume sd: "sends s s' ps"
  then have "drop_rate s' = drop_rate s" by (auto simp: sends_def)
  with sends_fields(1) [OF sd] have "gains s s'" by (rule same_core_gains)
  with sd show "ahead s s'" by (auto simp: ahead_def sends_def)
qed

section \<open>The handlers\<close>

lemma flow_step:
  assumes f: "flow H i r s" and "drop_rate s' = drop_rate s" and o: "set (outbox s) \<subseteq> set (outbox s')"
    and new_data: "\<And>k. curr_msg_id s \<le> k \<Longrightarrow> k < curr_msg_id s' \<Longrightarrow>
      \<exists>dm. dm_type dm = DATAMSG_TYPE \<and> dm_sender dm = hidw H i \<and> dm_msg_id dm = to_u32 k \<and>
        (\<forall>j < length H. j \<noteq> i \<longrightarrow> sent s' (H ! j) (serialize_data_message dm))"
    and new_ack: "\<And>a j. a \<in> set (alreadyAckedMessages s') \<Longrightarrow> a \<notin> set (alreadyAckedMessages s) \<Longrightarrow> j < length H \<Longrightarrow>
      am_sender a = hidw H j \<Longrightarrow> sent s' (H ! j) (serialize_ack_message a)"
    and new_seq: "\<And>sm j. sm \<in> set (seqMessageHistory s') \<Longrightarrow> sm \<notin> set (seqMessageHistory s) \<Longrightarrow>
      sm_sender sm = hidw H i \<Longrightarrow> j < length H \<Longrightarrow> j \<noteq> i \<Longrightarrow> sent s' (H ! j) (serialize_seq_message sm)"
  shows "flow H i r s'"
proof -
  note f = flowD [OF f] and sent = sent_mono [OF _ o]
  have "data_sent H i s'"
    unfolding data_sent_def
  proof (intro allI impI)
    fix k assume k: "0 \<le> k \<and> k < curr_msg_id s'"
    show "\<exists>dm. dm_type dm = DATAMSG_TYPE \<and> dm_sender dm = hidw H i \<and> dm_msg_id dm = to_u32 k \<and>
        (\<forall>j < length H. j \<noteq> i \<longrightarrow> sent s' (H ! j) (serialize_data_message dm))"
    proof (cases "k < curr_msg_id s")
      case True
      with k f(2) sent show ?thesis unfolding data_sent_def by metis
    qed (use k new_data in simp)
  qed
  moreover have "acks_sent H s'" using f(3) sent new_ack unfolding acks_sent_def by metis
  moreover have "seqs_sent H i s'" using f(4) sent new_seq unfolding seqs_sent_def by metis
  ultimately show ?thesis using f(1) assms(2) by (simp add: flow_def)
qed

lemma flow_multicast:
  assumes g: "good H st i s" and f: "flow H i r s" and e: "no_loss e r"
  shows "flows H i r (multicast_datamsg e data s)"
proof (cases "incr_int (curr_msg_id s) = None \<or> incr_int (curr_seq_number s) = None")
  case True
  then show ?thesis by (auto simp: multicast_datamsg_eq split: option.splits)
next
  case False
  then obtain k n where kn: "incr_int (curr_msg_id s) = Some k" "incr_int (curr_seq_number s) = Some n"
    by auto
  note l = local_invD [OF goodD(4) [OF g]]
  let ?s = "queue_own data n s"
  let ?dm = "\<lparr>dm_type = DATAMSG_TYPE, dm_sender = to_u32 (current_container_id s),
    dm_msg_id = to_u32 (curr_msg_id s), dm_data = data\<rparr>"
  let ?hs = "take (nat (num_hosts ?s)) (hostNames ?s)"
  have rate: "drop_rate ?s = r" using flowD(1) [OF f] by (simp add: queue_own_def Let_def)
  then have "no_loss e (drop_rate ?s)" using e by simp
  from multicast_loop_sends_all [OF this, of ?dm "serialize_data_message ?dm (uninit_packet e ?s)" ?hs]
  obtain s' where s': "multicast_loop e ?dm (serialize_data_message ?dm (uninit_packet e ?s)) ?hs ?s = Inr s'"
    and a: "sent_to_all ?s (serialize_data_message ?dm (uninit_packet e ?s)) ?hs s'" by blast
  have c: "same_core ?s s'" using a by (simp add: sent_to_all_def)
  have hs: "set ?hs = set H" using l(1) by (simp add: static_inv_def)
  have "flow H i r s'"
  proof (rule flow_step [OF f])
    show "drop_rate s' = drop_rate s" using a rate flowD(1) [OF f] by (simp add: sent_to_all_def)
    show "set (outbox s) \<subseteq> set (outbox s')" using a by (simp add: sent_to_all_def)
    fix k assume "curr_msg_id s \<le> k" "k < curr_msg_id s'"
    then have "k = curr_msg_id s" using c by (simp add: same_core_def)
    moreover have "sent s' (H ! j) (serialize_data_message ?dm)" if "j < length H" "j \<noteq> i" for j
      using a length_uninit_packet
    proof (rule sent_to_all_sent)
      show "H ! j \<in> set ?hs" using that hs by simp
      show "H ! j \<noteq> current_container_name ?s"
        using that l(1) goodD(1,7) [OF g] by (simp add: static_inv_def host_name_inject)
    qed
    ultimately show "\<exists>dm. dm_type dm = DATAMSG_TYPE \<and> dm_sender dm = hidw H i \<and> dm_msg_id dm = to_u32 k \<and>
        (\<forall>j < length H. j \<noteq> i \<longrightarrow> sent s' (H ! j) (serialize_data_message dm))"
      using static_id [OF l(1)] by (intro exI [of _ ?dm]) simp
  qed (use c in \<open>auto simp: same_core_def\<close>)
  with kn s' show ?thesis by (simp add: multicast_datamsg_eq Let_def)
qed

text \<open>One datagram in reply.\<close>

lemma reply_sent:
  assumes "no_loss e (drop_rate s)" "length junk = MAX_STRUCT_SIZE"
  obtains rv s' where "transmit e dst (ser junk) s = (rv, s')" "rv \<noteq> - 1"
    "sends s s' [\<lparr>p_src = current_container_name s, p_dst = dst, p_payload = ser junk\<rparr>]" "sent s' dst ser"
proof -
  obtain rv s' where t: "transmit e dst (ser junk) s = (rv, s')" "rv \<noteq> - 1"
    "sends s s' [\<lparr>p_src = current_container_name s, p_dst = dst, p_payload = ser junk\<rparr>]"
    using assms(1) by (rule transmit_no_loss)
  moreover have "sent s' dst ser"
    using sends_fields(8) [OF t(3)] assms(2) by (intro sentI [where junk = junk]) auto
  ultimately show thesis by (rule that)
qed

definition flow_kept :: "string list \<Rightarrow> nat \<Rightarrow> rm \<Rightarrow> rm \<Rightarrow> bool" where
  "flow_kept H i s s' \<longleftrightarrow> (\<forall>r. flow H i r s \<longrightarrow> flow H i r s')"

lemma flow_keptI: "(\<And>r. flow H i r s \<Longrightarrow> flow H i r s') \<Longrightarrow> flow_kept H i s s'"
  by (simp add: flow_kept_def)

lemma flow_keptD: "flow_kept H i s s' \<Longrightarrow> flow H i r s \<Longrightarrow> flow H i r s'"
  by (simp add: flow_kept_def)

text \<open>A data message is answered with an acknowledgement, the one it got before if there is one.\<close>

definition reacked :: "string list \<Rightarrow> nat \<Rightarrow> string \<Rightarrow> DataMessage \<Rightarrow> rm \<Rightarrow> rm \<Rightarrow> bool" where
  "reacked H i h dm s s' \<longleftrightarrow> ahead s s' \<and> flow_kept H i s s' \<and>
     (\<exists>a \<in> set (alreadyAckedMessages s'). ack_uid a = (dm_sender dm, dm_msg_id dm) \<and> sent s' h (serialize_ack_message a))"

lemma reackedI:
  "ahead s s' \<Longrightarrow> flow_kept H i s s' \<Longrightarrow> a \<in> set (alreadyAckedMessages s') \<Longrightarrow>
   ack_uid a = (dm_sender dm, dm_msg_id dm) \<Longrightarrow> sent s' h (serialize_ack_message a) \<Longrightarrow> reacked H i h dm s s'"
  unfolding reacked_def by blast

lemma data_again:
  assumes e: "no_loss e (drop_rate s)" and addr: "their_addr s = h"
    and am: "find (\<lambda>am. am_sender am = dm_sender dm \<and> am_msg_id am = dm_msg_id dm) (alreadyAckedMessages s) = Some a"
  shows "\<exists>s'. handle_datamsg e dm s = Inr s' \<and> reacked H i h dm s s'"
proof -
  obtain rv s' where t: "transmit e h (serialize_ack_message a (uninit_packet e s)) s = (rv, s')"
    "sends s s' [\<lparr>p_src = current_container_name s, p_dst = h,
      p_payload = serialize_ack_message a (uninit_packet e s)\<rparr>]" "sent s' h (serialize_ack_message a)"
    using e length_uninit_packet by (rule reply_sent)
  have "a \<in> set (alreadyAckedMessages s)" "ack_uid a = (dm_sender dm, dm_msg_id dm)"
    using am by (auto simp: ack_uid_def dest: find_Some_memD)
  moreover have "alreadyAckedMessages s' = alreadyAckedMessages s"
    using sends_fields(1) [OF t(2)] by (simp add: same_core_def)
  moreover have "flow_kept H i s s'" using flow_sends [OF _ t(2)] by (rule flow_keptI)
  ultimately have "reacked H i h dm s s'" using sends_ahead [OF t(2)] t(3) by (intro reackedI) simp_all
  then show ?thesis
    using am t(1) by (simp add: handle_datamsg_def reply_msg_with_drop_and_delay_def addr)
qed

lemma data_new:
  assumes g: "good H st i s" and dm: "peer_data H st i j dm" and addr: "their_addr s = H ! j"
    and e: "no_loss e (drop_rate s)"
    and None: "find (\<lambda>am. am_sender am = dm_sender dm \<and> am_msg_id am = dm_msg_id dm) (alreadyAckedMessages s) = None"
    and n: "curr_seq_number s \<noteq> INT_MAX"
  shows "\<exists>s'. handle_datamsg e dm s = Inr s' \<and> reacked H i (H ! j) dm s s'"
proof -
  let ?s2 = "queue_received dm s" and ?a = "received_ack H i dm s"
  note st = goodD(5) [OF g] and chg = queue_received_changes [OF goodD(5) [OF g]]
  have sj: "dm_sender dm = hidw H j" "j < length H" using dm by (auto simp: peer_data_def own_data_def)
  have rate: "drop_rate ?s2 = drop_rate s" by (simp add: queue_received_def Let_def)
  have "no_loss e (drop_rate ?s2)" using e rate by simp
  then obtain rv s3 where t: "transmit e (H ! j) (serialize_ack_message ?a (uninit_packet e ?s2)) ?s2 = (rv, s3)"
    and sd: "sends ?s2 s3 [\<lparr>p_src = current_container_name ?s2, p_dst = H ! j,
      p_payload = serialize_ack_message ?a (uninit_packet e ?s2)\<rparr>]"
    and out: "sent s3 (H ! j) (serialize_ack_message ?a)"
    using length_uninit_packet by (rule reply_sent)
  have c: "same_core ?s2 s3" "outbox s3 = outbox s @ [\<lparr>p_src = current_container_name ?s2, p_dst = H ! j,
      p_payload = serialize_ack_message ?a (uninit_packet e ?s2)\<rparr>]" "drop_rate s3 = drop_rate s"
    using sd rate by (auto simp: sends_def same_core_def)
  have kept: "flow H i r s3" if f: "flow H i r s" for r
  proof (rule flow_step [OF f])
    fix a k assume a: "a \<in> set (alreadyAckedMessages s3)" "a \<notin> set (alreadyAckedMessages s)" "k < length H"
      "am_sender a = hidw H k"
    then have "a = ?a" using c(1) chg(2) by (auto simp: same_core_def)
    moreover from this a(3,4) sj have "k = j" using goodD(7) [OF g] by (simp add: hidw_inject)
    ultimately show "sent s3 (H ! k) (serialize_ack_message a)" using out by simp
  qed (use c in \<open>auto simp: same_core_def\<close>)
  have n3: "curr_seq_number s3 \<noteq> INT_MAX" "curr_seq_number s3 = curr_seq_number s" "recv_cap s3 = recv_cap s"
    using sd n by (auto simp: sends_def queue_received_def Let_def)
  obtain m h where sub: "subscript [] (hostIDtoHostName s3) (to_int (dm_sender dm)) = (m, h)" by fastforce
  let ?s' = "(s3\<lparr>curr_seq_number := curr_seq_number s3 + 1\<rparr>)
    \<lparr>hostIDtoHostName := m, watchdogs := watchdogs s3 @ [AckWatchdog ?a h 0]\<rparr>"
  have c': "same_core s3 ?s'" "drop_rate ?s' = drop_rate s3" by (simp_all add: same_core_def)
  have "flow_kept H i s ?s'" using flow_more [OF kept c'(1)] by (intro flow_keptI) simp
  moreover have "gains s ?s2" by (auto simp: gains_def chg(2))
  then have "gains s ?s'" using same_core_gains [OF c(1)] rate c(3) same_core_gains [OF c'] gains_trans by metis
  then have "ahead s ?s'" using c(1) n3 by (simp add: ahead_def same_core_def)
  moreover have "?a \<in> set (alreadyAckedMessages ?s')" using c(1) chg(2) by (simp add: same_core_def)
  moreover have "sent ?s' (H ! j) (serialize_ack_message ?a)" using out by (rule sent_mono) simp
  ultimately have "reacked H i (H ! j) dm s ?s'" by (intro reackedI) simp_all
  moreover have "handle_datamsg e dm s = Inr ?s'"
    using t n3(1) sub by (simp add: handle_datamsg_new [OF None st] reply_msg_with_drop_and_delay_def addr Let_def
        incr_seq_number_def incr_int_def)
  ultimately show ?thesis by blast
qed

lemma data_received:
  assumes "good H st i s" "peer_data H st i j dm" "their_addr s = H ! j" "no_loss e (drop_rate s)"
    and "curr_seq_number s \<noteq> INT_MAX"
  shows "\<exists>s'. handle_datamsg e dm s = Inr s' \<and> reacked H i (H ! j) dm s s'"
  using data_again [OF assms(4,3), of dm] data_new [OF assms(1-4) _ assms(5)]
  by (cases "find (\<lambda>am. am_sender am = dm_sender dm \<and> am_msg_id am = dm_msg_id dm) (alreadyAckedMessages s)") simp_all

lemma flow_handle_datamsg:
  assumes g: "good H st i s" and dm: "peer_data H st i j dm" and addr: "their_addr s = H ! j"
    and f: "flow H i r s" and e: "no_loss e r"
  shows "flows H i r (handle_datamsg e dm s)"
proof (cases "curr_seq_number s = INT_MAX \<and>
    find (\<lambda>am. am_sender am = dm_sender dm \<and> am_msg_id am = dm_msg_id dm) (alreadyAckedMessages s) = None")
  case True
  have "curr_seq_number (snd (reply_msg_with_drop_and_delay e pkt (queue_received dm s))) = INT_MAX" for pkt
  proof -
    obtain rv s' where t: "transmit e (their_addr (queue_received dm s)) pkt (queue_received dm s) = (rv, s')"
      by fastforce
    with transmit_fields(3) [OF t] True show ?thesis by (simp add: reply_msg_with_drop_and_delay_def)
  qed
  with True show ?thesis
    by (simp add: handle_datamsg_new [OF conjunct2 [OF True] goodD(5) [OF g]] Let_def incr_seq_number_def incr_int_def)
next
  case False
  have e': "no_loss e (drop_rate s)" using e flowD(1) [OF f] by simp
  have "\<exists>s'. handle_datamsg e dm s = Inr s' \<and> reacked H i (H ! j) dm s s'"
    using data_again [OF e' addr, of dm] data_received [OF g dm addr e'] False by auto
  with f show ?thesis by (auto simp: reacked_def dest: flow_keptD)
qed

section \<open>Acknowledgements and sequence messages\<close>

lemma finalize_message_flow:
  assumes st: "static_inv H i s" and q: "queue_inv H i s" and H: "hosts_ok H" "i < length H"
    and e: "no_loss e (drop_rate s)"
    and a: "am_sender a = hidw H i"
  shows "\<exists>s'. finalize_message e a pm s = Inr s' \<and> flow_kept H i s s' \<and> curr_msg_id s' = curr_msg_id s \<and>
    recv_cap s' = recv_cap s \<and> curr_seq_number s' = curr_seq_number s \<and> ackHistory s' = ackHistory s \<and>
    alreadyAckedMessages s' = alreadyAckedMessages s \<and> drop_rate s' = drop_rate s \<and>
    set (seqMessageHistory s) \<subseteq> set (seqMessageHistory s')"
proof -
  obtain fs fp where mx: "get_max_sequence_from_proposerseq_map pm = (fs, fp)" by fastforce
  let ?sm = "make_seq_msg (am_sender a) (am_msg_id a) fs fp"
  let ?s1 = "s\<lparr>seqMessageHistory := seqMessageHistory s @ [?sm]\<rparr>"
  let ?hs = "take (nat (num_hosts ?s1)) (hostNames ?s1)"
  have "no_loss e (drop_rate ?s1)" using e by simp
  from broadcast_loop_sends_all [OF this] obtain t where
    b: "broadcast_loop e (serialize_seq_message ?sm (uninit_packet e ?s1)) ?hs ?s1 = Inr t" and
    t: "sent_to_all ?s1 (serialize_seq_message ?sm (uninit_packet e ?s1)) ?hs t" by blast
  have c: "same_core ?s1 t" using t by (simp add: sent_to_all_def)
  obtain rv q' where ch: "change_queued_msg_seq_and_status (am_sender a) (am_msg_id a) fs fp DELIVERABLE
    (deliveryQueue s) = (rv, q')" by fastforce
  let ?s' = "deliver_msg_from_deliveryqueue (t\<lparr>deliveryQueue := q'\<rparr>)"
  have "flow H i r ?s'" if f: "flow H i r s" for r
  proof (rule flow_step [OF f])
    fix x j assume x: "x \<in> set (seqMessageHistory ?s')" "x \<notin> set (seqMessageHistory s)" and j: "j < length H" "j \<noteq> i"
    have "sent t (H ! j) (serialize_seq_message ?sm)"
      using t length_uninit_packet
    proof (rule sent_to_all_sent)
      show "H ! j \<in> set ?hs" using j(1) st by (simp add: static_inv_def)
      show "H ! j \<noteq> current_container_name ?s1"
        using j st H by (simp add: static_inv_def host_name_inject)
    qed
    moreover have "x = ?sm" using x c by (auto simp: same_core_def)
    ultimately show "sent ?s' (H ! j) (serialize_seq_message x)" using sent_mono [of t] by simp
  qed (use c t in \<open>auto simp: same_core_def sent_to_all_def\<close>)
  then have "flow_kept H i s ?s'" by (rule flow_keptI)
  moreover have "finalize_message e a pm s = Inr ?s'"
    using mx b ch c by (simp add: finalize_message_def Let_def broadcast_seq_msg_def same_core_def)
  ultimately show ?thesis using c t by (auto simp: same_core_def sent_to_all_def)
qed

lemma flow_ack_recorded: "flow_kept H i s (ack_recorded a pm n [] s)"
proof (rule flow_keptI)
  fix r assume "flow H i r s"
  then show "flow H i r (ack_recorded a pm n [] s)" by (rule flow_step) (simp_all add: ack_recorded_def)
qed

lemma ack_new:
  assumes g: "good H st i s" and a: "peer_ack H st i j a" and e: "no_loss e (drop_rate s)"
    and pm: "map_of (ackHistory s) (to_int (am_msg_id a)) = Some pm" "map_of pm (hid H j) = None"
    and n: "curr_seq_number s \<noteq> INT_MAX"
  shows "\<exists>s'. handle_ackmsg e a s = Inr s' \<and> flow_kept H i s s' \<and> ahead s s' \<and>
    answered H s' j (to_int (am_msg_id a))"
proof -
  let ?k = "to_int (am_msg_id a)" and ?pm' = "map_insert (hid H j) (to_int (am_proposed_seq a)) pm"
  let ?t = "ack_recorded a ?pm' (curr_seq_number s + 1) [] s"
  note gd = goodD [OF g] and pa = peer_ackD [OF goodD(2,1) [OF g] a] and l = local_invD [OF goodD(4) [OF g]]
  have nh: "num_hosts s = int (length H)" using gd(5) by (simp add: static_inv_def)
  have ok: "map_ok (ackHistory s)" "map_ok pm" using l(5) pm(1) by (auto simp: ack_history_inv_def)
  have hist: "map_of (ackHistory ?t) ?k = Some ?pm'" "hid H j \<in> dom (map_of ?pm')"
    using ok pm(2) by (simp_all add: map_of_store map_of_insert)
  note gt = gains_ack_recorded [OF gd(4) pm]
  have at: "ahead s s'" "answered H s' j ?k"
    if "ackHistory s' = ackHistory ?t" "alreadyAckedMessages s' = alreadyAckedMessages s"
      "curr_msg_id s' = curr_msg_id s" "curr_seq_number s' = curr_seq_number s + 1" "recv_cap s' = recv_cap s"
      "drop_rate s' = drop_rate s" "set (seqMessageHistory s) \<subseteq> set (seqMessageHistory s')" for s'
  proof -
    have "gains ?t s'" using that by (auto simp: gains_def)
    with gt have "gains s s'" by (rule gains_trans)
    with that show "ahead s s'" by (simp add: ahead_def)
    show "answered H s' j ?k" using hist that(1) by (auto simp: answered_def)
  qed
  have handle: "handle_ackmsg e a s = (if length ?pm' = length H then finalize_message e a ?pm' ?t else Inr ?t)"
    using n by (simp add: handle_ackmsg_known [OF pm(1)] pa(4) pm(2) nh Let_def incr_int_def)
  have rec: "recv_cap ?t = recv_cap s" by (simp add: ack_recorded_def)
  show ?thesis
  proof (cases "length ?pm' = length H")
    case False
    with handle have "handle_ackmsg e a s = Inr ?t" by simp
    with flow_ack_recorded at [of ?t] rec show ?thesis by simp
  next
    case True
    have "static_inv H i ?t" "queue_inv H i ?t" using l(1,3) by (simp_all add: static_inv_def queue_inv_def)
    moreover have "no_loss e (drop_rate ?t)" using e by (simp add: ack_recorded_def)
    ultimately obtain s' where s': "finalize_message e a ?pm' ?t = Inr s'" "flow_kept H i ?t s'" "curr_msg_id s' = curr_msg_id s"
      "recv_cap s' = recv_cap ?t" "curr_seq_number s' = curr_seq_number s + 1" "ackHistory s' = ackHistory ?t"
      "alreadyAckedMessages s' = alreadyAckedMessages s" "drop_rate s' = drop_rate s" "set (seqMessageHistory s) \<subseteq> set (seqMessageHistory s')"
      using finalize_message_flow [of H i ?t e a ?pm'] gd(7,1) pa(3) by auto
    have "flow_kept H i s s'" using flow_ack_recorded s'(2) unfolding flow_kept_def by blast
    with s' rec handle True at [of s'] show ?thesis by simp
  qed
qed

text \<open>An acknowledgement of a message that has its final number is answered with that number.\<close>

lemma final_again:
  assumes g: "good H st i s" and a: "peer_ack H st i j a" and addr: "their_addr s = H ! j"
    and e: "no_loss e (drop_rate s)" and ans: "answered H s j (to_int (am_msg_id a))"
    and final: "map_of (ackHistory s) (to_int (am_msg_id a)) = Some pm" "length pm = length H"
  shows "\<exists>s' sm. handle_ackmsg e a s = Inr s' \<and> flow_kept H i s s' \<and> ahead s s' \<and>
    sm \<in> set (seqMessageHistory s') \<and> seq_uid sm = ack_uid a \<and> sent s' (H ! j) (serialize_seq_message sm)"
proof -
  let ?P = "\<lambda>sm. sm_msg_id sm = am_msg_id a \<and> sm_sender sm = am_sender a"
  note gd = goodD [OF g] and pa = peer_ackD [OF goodD(2,1) [OF g] a]
  have "1 < length H" using pa(1,2) gd(1) by linarith
  with final local_invD(6) [OF gd(4)] obtain sm' where "sm' \<in> set (seqMessageHistory s)" "?P sm'"
    using pa(3) unfolding seq_inv_def seq_uid_def by (metis Pair_inject to_u32_to_int)
  then obtain sm where find: "find ?P (seqMessageHistory s) = Some sm"
    by (metis (mono_tags, lifting) find_None_iff not_None_eq)
  then have sm: "sm \<in> set (seqMessageHistory s)" "seq_uid sm = ack_uid a"
    by (auto simp: seq_uid_def ack_uid_def dest: find_Some_memD)
  obtain rv s' where t: "transmit e (H ! j) (serialize_seq_message sm (uninit_packet e s)) s = (rv, s')" "rv \<noteq> - 1"
    "sends s s' [\<lparr>p_src = current_container_name s, p_dst = H ! j,
      p_payload = serialize_seq_message sm (uninit_packet e s)\<rparr>]" "sent s' (H ! j) (serialize_seq_message sm)"
    using e length_uninit_packet by (rule reply_sent)
  have "num_hosts s = int (length H)" using gd(5) by (simp add: static_inv_def)
  moreover obtain v where "map_of pm (hid H j) = Some v" using ans final(1) by (auto simp: answered_def)
  ultimately have "handle_ackmsg e a s = Inr s'"
    using final find t(1,2) addr
    by (simp add: handle_ackmsg_known [OF final(1)] pa(4) Let_def resend_seq_msg_def reply_msg_with_drop_and_delay_def)
  moreover have "sm \<in> set (seqMessageHistory s')" using sm(1) sends_fields(1) [OF t(3)] by (simp add: same_core_def)
  moreover have "flow_kept H i s s'" using flow_sends [OF _ t(3)] by (rule flow_keptI)
  ultimately show ?thesis using sm(2) t(4) sends_ahead [OF t(3)] by blast
qed

lemma flow_handle_ackmsg:
  assumes g: "good H st i s" and a: "peer_ack H st i j a" and addr: "their_addr s = H ! j"
    and f: "flow H i r s" and e: "no_loss e r"
  shows "flows H i r (handle_ackmsg e a s)"
proof -
  note gd = goodD [OF g] and pa = peer_ackD [OF goodD(2,1) [OF g] a]
  have e': "no_loss e (drop_rate s)" using e flowD(1) [OF f] by simp
  have nh: "num_hosts s = int (length H)" using gd(5) by (simp add: static_inv_def)
  obtain pm where pm: "map_of (ackHistory s) (to_int (am_msg_id a)) = Some pm"
    using local_invD(5) [OF gd(4)] pa(5) by (rule ack_history_at)
  show ?thesis
  proof (cases "map_of pm (hid H j)")
    case (Some v)
    then have ans: "answered H s j (to_int (am_msg_id a))" using pm by (auto simp: answered_def)
    show ?thesis
    proof (cases "length pm = length H")
      case True
      with final_again [OF g a addr e' ans pm] f show ?thesis by (auto dest: flow_keptD)
    qed (use Some f nh in \<open>simp add: handle_ackmsg_known [OF pm] pa(4) Let_def\<close>)
  next
    case None
    with ack_new [OF g a e' pm None] f show ?thesis
      by (cases "curr_seq_number s = INT_MAX")
        (auto simp: handle_ackmsg_known [OF pm] pa(4) Let_def incr_int_def dest: flow_keptD)
  qed
qed

lemma peer_seq_not_own:
  assumes "good H st i s" "peer_seq H st i sm"
  shows "sm_sender sm \<noteq> hidw H i"
  using assms(2) goodD(1,7) [OF assms(1)] by (auto simp: peer_seq_def hidw_inject)

lemma seq_settles:
  assumes g: "good H st i s" and sm: "peer_seq H st i sm"
    and mem: "seq_uid sm \<in> uid ` set (deliveryQueue s)"
  shows "\<exists>s'. handle_seqmsg e sm s = Inr s' \<and> flow_kept H i s s' \<and> ahead s s' \<and>
    seqMessageHistory s' = seqMessageHistory s @ [sm]"
proof -
  note q = local_invD(3) [OF goodD(4) [OF g]]
  obtain rv q' where ch: "change_queued_msg_seq_and_status (sm_sender sm) (sm_msg_id sm)
      (sm_final_seq sm) (sm_final_seq_proposer sm) DELIVERABLE (deliveryQueue s) = (rv, q')"
    by fastforce
  let ?s' = "deliver_msg_from_deliveryqueue (s\<lparr>deliveryQueue := q', seqMessageHistory := seqMessageHistory s @ [sm]\<rparr>)"
  have "sm \<in> set (seqMessageHistory s @ [sm])" by simp
  from change_redelivered(2) [OF q this ch] mem have "rv = 0" by (simp add: seq_uid_def)
  then have "handle_seqmsg e sm s = Inr ?s'" by (simp add: handle_seqmsg_def ch)
  moreover have "flow H i r ?s'" if f: "flow H i r s" for r
    using f by (rule flow_step) (use peer_seq_not_own [OF g sm] in auto)
  then have "flow_kept H i s ?s'" by (rule flow_keptI)
  moreover have "ahead s ?s'" by (auto simp: ahead_def gains_def)
  ultimately show ?thesis by simp
qed

lemma seq_new:
  assumes g: "good H st i s" and sm: "peer_seq H st i sm"
    and new: "seq_uid sm \<notin> seq_uid ` set (seqMessageHistory s)"
  shows "\<exists>s'. handle_seqmsg e sm s = Inr s' \<and> flow_kept H i s s' \<and> ahead s s' \<and>
    seqMessageHistory s' = seqMessageHistory s @ [sm]"
proof (rule seq_settles [OF g sm])
  note l = local_invD [OF goodD(4) [OF g]]
  obtain m where m: "m \<in> set (held s)" "uid m = seq_uid sm"
    using peer_seq_held [OF g sm] by (auto simp: seq_uid_def)
  have "\<not> announced s m" using new m(2) unfolding announced_def by (metis image_eqI)
  then have "qm_status m = UNDELIVERABLE" using l(8) m(1) by (auto simp: entry_inv_def)
  then have "m \<notin> set (deliveredMessage s)"
    using l(3) by (auto simp: queue_inv_def DELIVERABLE_def UNDELIVERABLE_def)
  with m show "seq_uid sm \<in> uid ` set (deliveryQueue s)" by (force simp: held_def)
qed

lemma flow_handle_seqmsg:
  assumes g: "good H st i s" and sm: "peer_seq H st i sm" and f: "flow H i r s"
  shows "flows H i r (handle_seqmsg e sm s)"
proof (cases "seq_uid sm \<in> uid ` set (deliveryQueue s)")
  case True
  from seq_settles [OF g sm True] f show ?thesis by (metis flows_simps(1) flow_keptD)
next
  case False
  then have "change_queued_msg_seq_and_status (sm_sender sm) (sm_msg_id sm) (sm_final_seq sm)
    (sm_final_seq_proposer sm) DELIVERABLE (deliveryQueue s) = (- 1, deliveryQueue s)"
    by (intro change_not_found) (simp add: seq_uid_def)
  with f show ?thesis by (simp add: handle_seqmsg_def)
qed

section \<open>Every event\<close>

lemma flow_dispatch:
  assumes g: "good H st i s" and b: "from_peer H st i j (msg_buf s)" and addr: "their_addr s = H ! j"
    and f: "flow H i r s" and e: "no_loss e r"
  shows "flows H i r (dispatch e s)"
  using b flow_handle_datamsg [OF g _ addr f e] flow_handle_ackmsg [OF g _ addr f e] flow_handle_seqmsg [OF g _ f]
  by (auto simp: from_peer_def dispatch_def Let_def DATAMSG_TYPE_def ACKMSG_TYPE_def SEQMSG_TYPE_def)

lemma flow_received: "flow H i r s \<Longrightarrow> flow H i r (received p s)"
  by (erule flow_more) simp_all

lemma flow_counted: "flow H i r s \<Longrightarrow> flow H i r (s\<lparr>recv_cap := n\<rparr>)"
  by (erule flow_more) (simp_all add: same_core_def)

lemma flow_receiver:
  assumes g: "good H st i s" and f: "flow H i r s" and e: "no_loss e r"
    and p: "\<And>p. x = Some p \<Longrightarrow> \<exists>j. p_src p = H ! j \<and> from_peer H st i j (p_payload p)"
  shows "flows H i r (msg_receiver_turn e x s)"
proof (cases "recv_cap s < RECV_CAP \<and> x \<noteq> None")
  case True
  then obtain p where x: "x = Some p" by blast
  with p obtain j where j: "p_src p = H ! j" "from_peer H st i j (p_payload p)" by blast
  have "flows H i r (dispatch e (received p s))"
    using good_received_packet [OF g j(2)] _ _ flow_received [OF f] e
    by (rule flow_dispatch [where j = j]) (simp_all add: j)
  with True x show ?thesis
    by (auto simp: receiver_turn_dispatch [OF g j(2)] flows_def flow_counted split: sum.splits)
qed (use f in \<open>auto simp: msg_receiver_turn_def\<close>)

lemma flow_watchdogs: "flow H i r s \<Longrightarrow> flow H i r (s\<lparr>watchdogs := ws\<rparr>)"
  by (erule flow_more) (simp_all add: same_core_def)

lemma flow_watchdog_pass:
  assumes f: "flow H i r s" and w: "watchdog_pass e w s = Inr (b, s')"
  shows "flow H i r s'"
  using f watchdog_pass_core(1,4,5) [OF w] by (rule flow_more)

lemma flow_watchdog:
  assumes f: "flow H i r s"
  shows "flows H i r (watchdog_turn e k s)"
  using flow_watchdogs [OF f] flow_watchdogs [OF flow_watchdog_pass [OF f]] f
  by (auto simp: watchdog_turn_def flows_def Let_def split: sum.splits prod.splits if_splits)

lemma flow_event:
  assumes g: "good H st i s" and f: "flow H i r s" and e: "no_loss e r"
    and p: "\<And>p. ev = Receive (Some p) \<Longrightarrow> \<exists>j. p_src p = H ! j \<and> from_peer H st i j (p_payload p)"
  shows "flows H i r (process_event e ev s)"
  using p flow_multicast [OF g f e] flow_receiver [OF g f e] flow_watchdog [OF f]
    flows_quiet [OF f quiet_initiate] flows_quiet [OF f quiet_listener]
  by (cases ev) simp_all

end
