(* ===== verification/Progress.thy ===== *)
theory Progress
  imports Flow
begin

text \<open>
  No reachable group is a dead end as long as nothing is lost: from any state in which all processes
  run, finitely many turns of the receivers bring every multicast message to every process. What is
  left to do is a finite set of tasks, and as long as it is not empty some datagram on the wire
  settles one of them; the interface \<open>server\<close> has the general argument.
\<close>

section \<open>Serving tasks one by one\<close>

locale server =
  fixes go :: "'e list \<Rightarrow> 's \<Rightarrow> 's option" and ready :: "'s \<Rightarrow> bool" and tasks :: "'s \<Rightarrow> 't set"
    and label :: "'s \<Rightarrow> 'l" and wanted :: "'e \<Rightarrow> bool"
  assumes go_Nil: "go [] s = Some s"
    and go_Cons: "go [e] s = Some t \<Longrightarrow> go (e # es) s = go es t"
    and finite_tasks: "ready s \<Longrightarrow> finite (tasks s)"
    and serve: "ready s \<Longrightarrow> tasks s \<noteq> {} \<Longrightarrow>
      \<exists>e t. wanted e \<and> go [e] s = Some t \<and> ready t \<and> label t = label s \<and> tasks t \<subset> tasks s"
begin

lemma finishes:
  "ready s \<Longrightarrow> \<exists>es t. go es s = Some t \<and> ready t \<and> tasks t = {} \<and> label t = label s \<and>
     length es \<le> card (tasks s) \<and> list_all wanted es"
proof (induction "card (tasks s)" arbitrary: s rule: less_induct)
  case less
  show ?case
  proof (cases "tasks s = {}")
    case True
    with less.prems go_Nil show ?thesis by (intro exI [of _ "[]"] exI [of _ s]) simp
  next
    case False
    then obtain e t where t: "wanted e" "go [e] s = Some t" "ready t" "label t = label s" "tasks t \<subset> tasks s"
      using serve [OF less.prems] by blast
    have "card (tasks t) < card (tasks s)" using finite_tasks [OF less.prems] t(5) by (rule psubset_card_mono)
    with less.hyps t(3) obtain es u where "go es t = Some u" "ready u" "tasks u = {}" "label u = label t"
      "length es \<le> card (tasks t)" "list_all wanted es" by blast
    with t go_Cons [OF t(2)] \<open>card (tasks t) < card (tasks s)\<close> show ?thesis
      by (intro exI [of _ "e # es"] exI [of _ u]) simp
  qed
qed

end

section \<open>The queues of a group\<close>

definition group_settled :: "config \<Rightarrow> group \<Rightarrow> bool" where
  "group_settled c g \<longleftrightarrow> group_ok c g \<and> (\<forall>i < length g. \<forall>s. g ! i = Inr s \<longrightarrow> queue_settled s)"

lemma initial_queue_settled: "queue_settled (initial_process c i)"
  by (simp add: queue_settled_def known_deliverable_def waits_for_one_def)

lemma initial_group_settled: "config_ok c \<Longrightarrow> group_settled c (initial_group c)"
  using initial_group_ok by (auto simp: group_settled_def initial_group_def initial_queue_settled)

lemma group_step_settled:
  assumes g: "group_settled c g" and step: "group_step envs g g'"
  shows "group_settled c g'"
proof -
  obtain i s ev where 1: "g' = g[i := process_event (envs i) ev s]" "i < length g" "g ! i = Inr s"
    "possible g ev s" using step by (rule group_stepE)
  have ok: "group_ok c g" and q: "queue_settled s" using g 1(2,3) by (auto simp: group_settled_def)
  note t = turn_good [OF ok 1(2-4)]
  have "queue_settled s'" if "process_event (envs i) ev s = Inr s'" for s'
    using t(1) q t(2) that by (rule queue_settled_event)
  with g 1(1,2) group_step_ok [OF ok step] show ?thesis by (auto simp: group_settled_def nth_list_update)
qed

section \<open>The flow of a group\<close>

definition group_flow :: "config \<Rightarrow> (nat \<Rightarrow> env) \<Rightarrow> group \<Rightarrow> bool" where
  "group_flow c envs g \<longleftrightarrow> group_settled c g \<and> (\<forall>i. no_loss (envs i) (c_drop_rate c i)) \<and>
     (\<forall>i < length g. flows (c_hosts c) i (c_drop_rate c i) (g ! i))"

lemma initial_group_flow:
  assumes "config_ok c" "\<forall>i. no_loss (envs i) (c_drop_rate c i)"
  shows "group_flow c envs (initial_group c)"
proof -
  have "flow (c_hosts c) i (c_drop_rate c i) (initial_process c i)" for i
    by (auto simp: flow_def data_sent_def acks_sent_def seqs_sent_def)
  then show ?thesis using assms initial_group_settled [OF assms(1)] by (simp add: group_flow_def initial_group_def)
qed

lemma group_step_flow:
  assumes g: "group_flow c envs g" and step: "group_step envs g g'"
  shows "group_flow c envs g'"
proof -
  obtain i s ev where 1: "g' = g[i := process_event (envs i) ev s]" "i < length g" "g ! i = Inr s"
    "possible g ev s" using step by (rule group_stepE)
  have st: "group_settled c g" and e: "no_loss (envs i) (c_drop_rate c i)" "flow (c_hosts c) i (c_drop_rate c i) s"
    using g 1(2,3) by (auto simp: group_flow_def flows_def)
  then have ok: "group_ok c g" by (simp add: group_settled_def)
  note t = turn_good [OF ok 1(2-4)]
  have "flows (c_hosts c) i (c_drop_rate c i) (process_event (envs i) ev s)" using t(1) e(2,1) t(2) by (rule flow_event)
  with g 1(1,2) group_step_settled [OF st step] show ?thesis by (auto simp: group_flow_def nth_list_update)
qed

interpretation flow_inv:
  invariant "\<lambda>h. config_ok c \<and> (\<forall>i. no_loss (envs i) (c_drop_rate c i)) \<and> h = initial_group c"
    "group_step envs" "group_flow c envs" for c envs
  by unfold_locales (auto intro: initial_group_flow group_step_flow)

lemma reachable_flow:
  assumes "config_ok c" "\<forall>i. no_loss (envs i) (c_drop_rate c i)" "reachable c envs g"
  shows "group_flow c envs g"
  using flow_inv.always [of c envs g] assms by (simp add: reachable_def)

section \<open>Tasks\<close>

datatype stage = Acknowledge | Answer | Finish

fun task_done :: "string list \<Rightarrow> (nat \<Rightarrow> rm) \<Rightarrow> stage \<times> nat \<times> nat \<times> int \<Rightarrow> bool" where
  "task_done H st (Acknowledge, i, j, k) = acked_by H (st i) j k"
| "task_done H st (Answer, i, j, k) = answered H (st j) i k"
| "task_done H st (Finish, i, j, k) = knows_final H (st i) j k"

text \<open>What host \<open>i\<close> and host \<open>j\<close> have to do with each other for message \<open>k\<close> of host \<open>j\<close>.\<close>

definition all_tasks :: "string list \<Rightarrow> (nat \<Rightarrow> rm) \<Rightarrow> (stage \<times> nat \<times> nat \<times> int) set" where
  "all_tasks H st = {(t, i, j, k). i < length H \<and> j < length H \<and> 0 \<le> k \<and> k < curr_msg_id (st j)}"

definition open_tasks :: "string list \<Rightarrow> (nat \<Rightarrow> rm) \<Rightarrow> (stage \<times> nat \<times> nat \<times> int) set" where
  "open_tasks H st = {(t, i, j, k). (t, i, j, k) \<in> all_tasks H st \<and> i \<noteq> j \<and> \<not> task_done H st (t, i, j, k)}"

lemma stages: "(UNIV :: stage set) = {Acknowledge, Answer, Finish}"
  using stage.exhaust by blast

definition messages_sent :: "string list \<Rightarrow> (nat \<Rightarrow> rm) \<Rightarrow> nat" where
  "messages_sent H st = (\<Sum>j < length H. nat (curr_msg_id (st j)))"

lemma card_all_tasks:
  "finite (all_tasks H st)" "card (all_tasks H st) = 3 * length H * messages_sent H st"
proof -
  have eq: "all_tasks H st = UNIV \<times> {..<length H} \<times> (SIGMA j:{..<length H}. {0..<curr_msg_id (st j)})"
    by (auto simp: all_tasks_def)
  have fin: "finite (UNIV :: stage set)" "card (UNIV :: stage set) = 3" by (simp_all add: stages)
  then show "finite (all_tasks H st)" unfolding eq by (intro finite_cartesian_product finite_SigmaI) auto
  show "card (all_tasks H st) = 3 * length H * messages_sent H st"
    unfolding eq messages_sent_def by (simp add: card_cartesian_product fin(2) card_SigmaI)
qed

lemma open_tasks_all: "open_tasks H st \<subseteq> all_tasks H st"
  by (auto simp: open_tasks_def)

lemma finite_open_tasks: "finite (open_tasks H st)"
  using open_tasks_all card_all_tasks(1) by (rule finite_subset)

lemma card_open_tasks: "card (open_tasks H st) \<le> 3 * length H * messages_sent H st"
  using card_mono [OF card_all_tasks(1) open_tasks_all] by (simp add: card_all_tasks(2))

text \<open>A turn of the receiver that gets ahead.\<close>

definition moved :: "rm \<Rightarrow> rm \<Rightarrow> bool" where
  "moved s s' \<longleftrightarrow> (\<exists>u. ahead s u \<and> s' = u\<lparr>recv_cap := recv_cap u + 1\<rparr>)"

lemma movedD:
  assumes "moved s s'"
  shows "gains s s'" "curr_msg_id s' = curr_msg_id s" "curr_seq_number s' \<le> curr_seq_number s + 1"
    "recv_cap s' = recv_cap s + 1"
  using assms by (auto simp: moved_def ahead_def gains_def)

text \<open>Any turn that loses nothing and costs at most one number.\<close>

definition onward :: "rm \<Rightarrow> rm \<Rightarrow> bool" where
  "onward s s' \<longleftrightarrow> gains s s' \<and> curr_msg_id s' = curr_msg_id s \<and>
     curr_seq_number s' \<le> curr_seq_number s + 1 \<and> recv_cap s' \<le> recv_cap s + 1"

lemma moved_onward: "moved s s' \<Longrightarrow> onward s s'"
  using movedD by (simp add: onward_def)

lemma open_tasks_onward:
  assumes "onward (st i) s'"
  shows "open_tasks H (st(i := s')) \<subseteq> open_tasks H st"
proof
  fix x assume x: "x \<in> open_tasks H (st(i := s'))"
  obtain t a b k where xt: "x = (t, a, b, k)" by (cases x) auto
  have "\<not> task_done H st (t, a, b, k)"
    using x gains_keeps [of "st i" s' H] assms by (cases t) (auto simp: xt open_tasks_def onward_def split: if_splits)
  with x assms show "x \<in> open_tasks H st"
    by (auto simp: xt open_tasks_def all_tasks_def onward_def split: if_splits)
qed

section \<open>Processes with room to run\<close>

text \<open>A datagram on its way from host \<open>j\<close> to host \<open>i\<close>.\<close>

lemma packet_from:
  assumes g: "group_ok c g" and ij: "i < length g" "j < length g"
    and p: "p \<in> set (outbox (view g j))" "p_dst p = c_hosts c ! i"
  shows "p \<in> set (wire g)" "p_src p = c_hosts c ! j" "from_peer (c_hosts c) (view g) i j (p_payload p)"
proof -
  let ?H = "c_hosts c"
  have len: "length g = length ?H" and v: "sound_view ?H (view g)" using g by (simp_all add: group_ok_def)
  have H: "hosts_ok ?H" and l: "local_inv ?H j (view g j)" using v ij len by (auto simp: sound_view_def)
  show "p \<in> set (wire g)"
    using p(1) ij(2) by (auto simp: wire_def view_def intro!: bexI [of _ "g ! j"])
  show "p_src p = ?H ! j" using local_invD(9) [OF l] p(1) by (simp add: outbox_inv_def)
  have "payload_ok ?H j (view g j) (?H ! i) (p_payload p)"
    using local_invD(9) [OF l] p by (auto simp: outbox_inv_def)
  with H l ij len show "from_peer ?H (view g) i j (p_payload p)"
    by (intro from_peerI(2)) simp_all
qed

lemma receive_moves:
  assumes g: "good H st i s" and p: "from_peer H st i j (p_payload p)" and cap: "recv_cap s < RECV_CAP"
    and d: "dispatch e (received p s) = Inr u" "ahead (received p s) u"
  shows "\<exists>s'. msg_receiver_turn e (Some p) s = Inr s' \<and> moved s s' \<and>
    alreadyAckedMessages s' = alreadyAckedMessages u \<and> ackHistory s' = ackHistory u \<and>
    seqMessageHistory s' = seqMessageHistory u \<and> outbox s' = outbox u"
proof -
  have "gains s (received p s)" by (rule same_core_gains) simp_all
  then have "ahead s u" using d(2) gains_trans by (auto simp: ahead_def)
  then have "moved s (u\<lparr>recv_cap := recv_cap u + 1\<rparr>)" unfolding moved_def by blast
  then show ?thesis using receiver_turn_dispatch [OF g p cap] d(1) by simp
qed

text \<open>All processes run, with room in their counters for \<open>n\<close> more steps.\<close>

definition room :: "nat \<Rightarrow> rm \<Rightarrow> bool" where
  "room n s \<longleftrightarrow> recv_cap s + int n \<le> RECV_CAP \<and> curr_seq_number s + int n \<le> INT_MAX"

definition running :: "config \<Rightarrow> nat \<Rightarrow> group \<Rightarrow> bool" where
  "running c n g \<longleftrightarrow> group_settled c g \<and> 2 \<le> length (c_hosts c) \<and>
     (\<forall>i < length g. \<exists>s. g ! i = Inr s \<and> room n s)"

lemma runningD:
  assumes "running c n g" "i < length g"
  shows "g ! i = Inr (view g i)" "group_ok c g" "good (c_hosts c) (view g) i (view g i)"
    "queue_settled (view g i)" "room n (view g i)"
    "length g = length (c_hosts c)" "local_inv (c_hosts c) i (view g i)"
proof -
  obtain s where s: "g ! i = Inr s" "room n s" using assms by (auto simp: running_def)
  then have vs: "view g i = s" by (simp add: view_def)
  with s show "g ! i = Inr (view g i)" "room n (view g i)" by simp_all
  show ok: "group_ok c g" "queue_settled (view g i)"
    using assms s(1) vs by (auto simp: running_def group_settled_def)
  show "length g = length (c_hosts c)" using ok(1) by (simp add: group_ok_def)
  show gd: "good (c_hosts c) (view g) i (view g i)"
    using turn_good(1) [OF ok(1) assms(2) s(1), of InitiateSnapshot] vs by simp
  show "local_inv (c_hosts c) i (view g i)" using gd by (rule goodD)
qed

lemma running_length: "running c n g \<Longrightarrow> length g = length (c_hosts c)"
  by (simp add: running_def group_settled_def group_ok_def)

text \<open>When every host has answered, the sender knows the final number.\<close>

lemma all_answered:
  assumes a: "running c n g" and j: "j < length g" and k: "0 \<le> k" "k < curr_msg_id (view g j)"
    and ans: "\<And>i. i < length g \<Longrightarrow> i \<noteq> j \<Longrightarrow> answered (c_hosts c) (view g j) i k"
  shows "\<exists>pm. map_of (ackHistory (view g j)) k = Some pm \<and> length pm = length (c_hosts c)"
    "knows_final (c_hosts c) (view g j) j k"
proof -
  let ?H = "c_hosts c" and ?s = "view g j"
  note aj = runningD [OF a j]
  have H: "hosts_ok ?H" using aj(3) by (rule goodD)
  obtain pm where pm: "map_of (ackHistory ?s) k = Some pm" "map_ok pm" "hid ?H j \<in> dom (map_of pm)"
    "dom (map_of pm) \<subseteq> host_ids ?H"
    by (rule ack_history_at [OF local_invD(5) [OF aj(7)], of k]) (use k that in auto)
  have "hid ?H i \<in> dom (map_of pm)" if "i < length ?H" for i
    using ans [of i] pm that aj(6) by (cases "i = j") (auto simp: answered_def)
  then have "dom (map_of pm) = host_ids ?H" using pm(4) by (auto simp: host_ids_def)
  then have len: "length pm = length ?H" using H by (simp add: length_map_ok [OF pm(2)] card_host_ids)
  with pm(1) show "\<exists>pm. map_of (ackHistory ?s) k = Some pm \<and> length pm = length ?H" by blast
  moreover have "1 < length ?H" using a by (simp add: running_def)
  ultimately show "knows_final ?H ?s j k"
    using local_invD(6) [OF aj(7)] len pm(1) unfolding seq_inv_def knows_final_def by force
qed

text \<open>A schedule that multicasts nothing and opens no tasks, and one turn as such a schedule.\<close>

definition sent_counts :: "group \<Rightarrow> int list" where
  "sent_counts g = map (\<lambda>x. curr_msg_id (state_of x)) g"

definition leads :: "config \<Rightarrow> (nat \<Rightarrow> env) \<Rightarrow> (nat \<times> event) list \<Rightarrow> group \<Rightarrow> group \<Rightarrow> bool" where
  "leads c envs es g h \<longleftrightarrow> run envs es g = Some h \<and> sent_counts h = sent_counts g \<and>
     open_tasks (c_hosts c) (view h) \<subseteq> open_tasks (c_hosts c) (view g)"

lemma leads_trans: "leads c envs es g h \<Longrightarrow> leads c envs fs h u \<Longrightarrow> leads c envs (es @ fs) g u"
  by (auto simp: leads_def run_append)

lemma turn_leads:
  assumes r: "running c (Suc n) g" and i: "i < length g" and pos: "possible g ev (view g i)"
    and run: "process_event (envs i) ev (view g i) = Inr s'" and on: "onward (view g i) s'"
  shows "leads c envs [(i, ev)] g (g[i := Inr s'])" "running c n (g[i := Inr s'])"
    "view (g[i := Inr s']) = (view g)(i := s')" "group_step envs g (g[i := Inr s'])"
proof -
  let ?h = "g[i := Inr s']"
  note ri = runningD [OF r i]
  show vh: "view ?h = (view g)(i := s')" using view_update [OF i, of "Inr s'"] by simp
  show step: "group_step envs g ?h"
    using group_step.turn [where envs = envs, OF i ri(1) pos] run by simp
  have "run envs [(i, ev)] g = Some ?h" using i ri(1) pos run by simp
  moreover have "sent_counts ?h = sent_counts g"
    using on i by (simp add: onward_def sent_counts_def map_update view_def list_update_same_conv)
  moreover have "open_tasks (c_hosts c) (view ?h) \<subseteq> open_tasks (c_hosts c) (view g)"
    unfolding vh using on by (rule open_tasks_onward)
  ultimately show "leads c envs [(i, ev)] g ?h" by (simp add: leads_def)
  have "\<exists>s. ?h ! j = Inr s \<and> room n s" if "j < length ?h" for j
    using that i ri(5) on runningD(1,5) [OF r, of j]
    by (cases "j = i") (auto simp: room_def onward_def)
  moreover have "group_settled c ?h" using r step by (auto simp: running_def intro: group_step_settled)
  ultimately show "running c n ?h" using r by (simp add: running_def)
qed

lemma running_less: "running c n g \<Longrightarrow> m \<le> n \<Longrightarrow> running c m g"
  unfolding running_def room_def by (fastforce intro: order.trans)

text \<open>The states in which nothing gets lost either.\<close>

definition able :: "config \<Rightarrow> (nat \<Rightarrow> env) \<Rightarrow> nat \<Rightarrow> group \<Rightarrow> bool" where
  "able c envs n g \<longleftrightarrow> running c n g \<and> group_flow c envs g"

lemma ableD:
  assumes "able c envs n g" "i < length g"
  shows "g ! i = Inr (view g i)" "group_ok c g" "good (c_hosts c) (view g) i (view g i)"
    "flow (c_hosts c) i (c_drop_rate c i) (view g i)" "no_loss (envs i) (drop_rate (view g i))"
    "recv_cap (view g i) + int n \<le> RECV_CAP" "curr_seq_number (view g i) + int n \<le> INT_MAX"
    "length g = length (c_hosts c)" "local_inv (c_hosts c) i (view g i)"
proof -
  have a: "running c n g" "group_flow c envs g" using assms(1) by (simp_all add: able_def)
  note r = runningD [OF a(1) assms(2)]
  show "g ! i = Inr (view g i)" "group_ok c g" "good (c_hosts c) (view g) i (view g i)"
    "length g = length (c_hosts c)" "local_inv (c_hosts c) i (view g i)" using r by simp_all
  show "recv_cap (view g i) + int n \<le> RECV_CAP" "curr_seq_number (view g i) + int n \<le> INT_MAX"
    using r(5) by (simp_all add: room_def)
  show f: "flow (c_hosts c) i (c_drop_rate c i) (view g i)" using a(2) assms(2) r(1) by (auto simp: group_flow_def flows_def)
  show "no_loss (envs i) (drop_rate (view g i))" using a(2) flowD(1) [OF f] by (simp add: group_flow_def)
qed

lemma able_length: "able c envs n g \<Longrightarrow> length g = length (c_hosts c)"
  using running_length by (auto simp: able_def)

section \<open>What arrives\<close>

text \<open>Some datagram on the wire, read by host \<open>i\<close>, gets it ahead, to a state with \<open>P\<close>.\<close>

definition arrives :: "config \<Rightarrow> (nat \<Rightarrow> env) \<Rightarrow> group \<Rightarrow> nat \<Rightarrow> (rm \<Rightarrow> bool) \<Rightarrow> bool" where
  "arrives c envs g i P \<longleftrightarrow> (\<exists>p s'. p \<in> set (wire g) \<and> p_dst p = c_hosts c ! i \<and>
     msg_receiver_turn (envs i) (Some p) (view g i) = Inr s' \<and> moved (view g i) s' \<and> P s')"

lemma arrivesI:
  assumes r: "running c n g" "0 < n" and ij: "i < length g" "j < length g"
    and p: "p \<in> set (outbox (view g j))" "p_dst p = c_hosts c ! i"
    and d: "dispatch (envs i) (received p (view g i)) = Inr u" "ahead (received p (view g i)) u"
    and P: "\<And>s'. alreadyAckedMessages s' = alreadyAckedMessages u \<Longrightarrow> ackHistory s' = ackHistory u \<Longrightarrow>
      seqMessageHistory s' = seqMessageHistory u \<Longrightarrow> outbox s' = outbox u \<Longrightarrow> P s'"
  shows "arrives c envs g i P"
proof -
  note ri = runningD [OF r(1) ij(1)] and fp = packet_from [OF runningD(2) [OF r(1) ij(1)] ij p]
  have "recv_cap (view g i) < RECV_CAP" using ri(5) r(2) by (simp add: room_def)
  from receive_moves [OF ri(3) fp(3) this d] P fp(1) p(2) show ?thesis
    unfolding arrives_def by blast
qed

lemma data_arrives:
  assumes r: "running c n g" "0 < n" and ij: "i < length g" "j < length g"
    and e: "no_loss (envs i) (drop_rate (view g i))"
    and dm: "sent (view g j) (c_hosts c ! i) (serialize_data_message dm)" "dm_type dm = DATAMSG_TYPE"
  shows "arrives c envs g i (\<lambda>s'. \<exists>a \<in> set (alreadyAckedMessages s'). ack_uid a = (dm_sender dm, dm_msg_id dm) \<and>
    sent s' (c_hosts c ! j) (serialize_ack_message a))"
proof -
  let ?H = "c_hosts c" and ?s = "view g i"
  note ri = runningD [OF r(1) ij(1)]
  obtain p junk where p: "p \<in> set (outbox (view g j))" "p_dst p = ?H ! i" "length junk = MAX_STRUCT_SIZE"
    "p_payload p = serialize_data_message dm junk" using dm(1) unfolding sent_def by blast
  note fp = packet_from [OF ri(2) ij p(1,2)]
  have pd: "peer_data ?H (view g) i j dm" and d: "dispatch (envs i) (received p ?s) = handle_datamsg (envs i) dm (received p ?s)"
    using fp(3) p(3,4) dm(2)
    by (auto simp: from_peer_def dispatch_def Let_def DATAMSG_TYPE_def ACKMSG_TYPE_def SEQMSG_TYPE_def)
  have "their_addr (received p ?s) = ?H ! j" "curr_seq_number (received p ?s) \<noteq> INT_MAX"
    "no_loss (envs i) (drop_rate (received p ?s))" using fp(2) ri(5) r(2) e by (simp_all add: room_def)
  then obtain u where u: "handle_datamsg (envs i) dm (received p ?s) = Inr u" "reacked ?H i (?H ! j) dm (received p ?s) u"
    using data_received [OF good_received_packet [OF ri(3) fp(3)] pd] by blast
  have a: "ahead (received p ?s) u" using u(2) by (simp add: reacked_def)
  show ?thesis
    by (rule arrivesI [where envs = envs, OF r ij p(1,2) d [unfolded u(1)] a]) (use u(2) in \<open>auto simp: reacked_def sent_def\<close>)
qed

text \<open>An acknowledgement, the first one from this host or a repeated one.\<close>

lemma ack_packet:
  assumes r: "running c n g" and ij: "i < length g" "j < length g"
    and a: "sent (view g i) (c_hosts c ! j) (serialize_ack_message a)" "am_type a = ACKMSG_TYPE"
  obtains p where "p \<in> set (outbox (view g i))" "p_dst p = c_hosts c ! j" "p_src p = c_hosts c ! i"
    "peer_ack (c_hosts c) (view g) j i a" "good (c_hosts c) (view g) j (received p (view g j))"
    "dispatch e (received p (view g j)) = handle_ackmsg e a (received p (view g j))"
proof -
  let ?H = "c_hosts c"
  note rj = runningD [OF r ij(2)]
  obtain p junk where p: "p \<in> set (outbox (view g i))" "p_dst p = ?H ! j" "length junk = MAX_STRUCT_SIZE"
    "p_payload p = serialize_ack_message a junk" using a(1) unfolding sent_def by blast
  note fp = packet_from [OF rj(2) ij(2,1) p(1,2)]
  have "peer_ack ?H (view g) j i a" "dispatch e (received p (view g j)) = handle_ackmsg e a (received p (view g j))"
    using fp(3) p(3,4) a(2)
    by (auto simp: from_peer_def dispatch_def Let_def DATAMSG_TYPE_def ACKMSG_TYPE_def SEQMSG_TYPE_def)
  with that [OF p(1,2) fp(2)] good_received_packet [OF rj(3) fp(3)] show thesis by blast
qed

lemma ack_arrives:
  assumes r: "running c n g" "0 < n" and ij: "i < length g" "j < length g"
    and e: "no_loss (envs j) (drop_rate (view g j))"
    and a: "sent (view g i) (c_hosts c ! j) (serialize_ack_message a)" "am_type a = ACKMSG_TYPE"
    and new: "\<not> answered (c_hosts c) (view g j) i (to_int (am_msg_id a))"
  shows "arrives c envs g j (\<lambda>s'. answered (c_hosts c) s' i (to_int (am_msg_id a)))"
proof -
  let ?H = "c_hosts c" and ?s = "view g j" and ?k = "to_int (am_msg_id a)"
  note rj = runningD [OF r(1) ij(2)]
  obtain p where p: "p \<in> set (outbox (view g i))" "p_dst p = ?H ! j" "peer_ack ?H (view g) j i a"
    "good ?H (view g) j (received p ?s)"
    "dispatch (envs j) (received p ?s) = handle_ackmsg (envs j) a (received p ?s)"
    by (rule ack_packet [OF r(1) ij a, of "envs j"])
  have "?k \<in> {0..<curr_msg_id (received p ?s)}"
    using peer_ackD(5) [OF goodD(2,1) [OF p(4)] p(3)] .
  then obtain pm where pm: "map_of (ackHistory ?s) ?k = Some pm"
    using local_invD(5) [OF rj(7)] by (auto elim: ack_history_at)
  have "map_of pm (hid ?H i) = None" using new pm by (auto simp: answered_def)
  with pm obtain u where u: "handle_ackmsg (envs j) a (received p ?s) = Inr u" "ahead (received p ?s) u"
    "answered ?H u i ?k"
    using ack_new [OF p(4,3), of "envs j" pm] e rj(5) r(2) by (auto simp: room_def)
  show ?thesis
    by (rule arrivesI [where envs = envs, OF r ij(2,1) p(1,2) p(5) [unfolded u(1)] u(2)]) (use u(3) in \<open>simp add: answered_def\<close>)
qed

lemma ack_again_arrives:
  assumes r: "running c n g" "0 < n" and ij: "i < length g" "j < length g"
    and e: "no_loss (envs j) (drop_rate (view g j))"
    and a: "sent (view g i) (c_hosts c ! j) (serialize_ack_message a)" "am_type a = ACKMSG_TYPE"
    and all: "map_of (ackHistory (view g j)) (to_int (am_msg_id a)) = Some pm" "length pm = length (c_hosts c)"
      "answered (c_hosts c) (view g j) i (to_int (am_msg_id a))"
  shows "arrives c envs g j (\<lambda>s'. \<exists>sm \<in> set (seqMessageHistory s'). seq_uid sm = ack_uid a \<and>
    sent s' (c_hosts c ! i) (serialize_seq_message sm))"
proof -
  let ?H = "c_hosts c" and ?s = "view g j"
  obtain p where p: "p \<in> set (outbox (view g i))" "p_dst p = ?H ! j" "p_src p = ?H ! i" "peer_ack ?H (view g) j i a"
    "good ?H (view g) j (received p ?s)"
    "dispatch (envs j) (received p ?s) = handle_ackmsg (envs j) a (received p ?s)"
    by (rule ack_packet [OF r(1) ij a, of "envs j"])
  obtain u sm where u: "handle_ackmsg (envs j) a (received p ?s) = Inr u" "ahead (received p ?s) u"
    "sm \<in> set (seqMessageHistory u)" "seq_uid sm = ack_uid a" "sent u (?H ! i) (serialize_seq_message sm)"
    using final_again [OF p(5,4), of "envs j" pm] e all p(3) by (auto simp: answered_def)
  show ?thesis
    by (rule arrivesI [where envs = envs, OF r ij(2,1) p(1,2) p(6) [unfolded u(1)] u(2)]) (use u(3-5) in \<open>auto simp: sent_def\<close>)
qed

lemma seq_arrives:
  assumes r: "running c n g" "0 < n" and ij: "i < length g" "j < length g"
    and sm: "sent (view g j) (c_hosts c ! i) (serialize_seq_message sm)" "sm_type sm = SEQMSG_TYPE"
    and new: "seq_uid sm \<notin> seq_uid ` set (seqMessageHistory (view g i))"
  shows "arrives c envs g i (\<lambda>s'. sm \<in> set (seqMessageHistory s'))"
proof -
  let ?H = "c_hosts c" and ?s = "view g i"
  note ri = runningD [OF r(1) ij(1)]
  obtain p junk where p: "p \<in> set (outbox (view g j))" "p_dst p = ?H ! i" "length junk = MAX_STRUCT_SIZE"
    "p_payload p = serialize_seq_message sm junk" using sm(1) unfolding sent_def by blast
  note fp = packet_from [OF ri(2) ij p(1,2)]
  have ps: "peer_seq ?H (view g) i sm"
    and d: "dispatch (envs i) (received p ?s) = handle_seqmsg (envs i) sm (received p ?s)"
    using fp(3) p(3,4) sm(2)
    by (auto simp: from_peer_def dispatch_def Let_def DATAMSG_TYPE_def ACKMSG_TYPE_def SEQMSG_TYPE_def)
  have "seq_uid sm \<notin> seq_uid ` set (seqMessageHistory (received p ?s))" using new by simp
  from seq_new [OF good_received_packet [OF ri(3) fp(3)] ps this]
  obtain u where u: "handle_seqmsg (envs i) sm (received p ?s) = Inr u" "ahead (received p ?s) u"
    "seqMessageHistory u = seqMessageHistory (received p ?s) @ [sm]" by blast
  show ?thesis
    by (rule arrivesI [where envs = envs, OF r ij p(1,2) d [unfolded u(1)] u(2)]) (use u(3) in simp)
qed

section \<open>Settling a task\<close>

definition served :: "config \<Rightarrow> (nat \<Rightarrow> env) \<Rightarrow> group \<Rightarrow> stage \<times> nat \<times> nat \<times> int \<Rightarrow> bool" where
  "served c envs g x \<longleftrightarrow> (\<exists>i < length g. arrives c envs g i (\<lambda>s'. task_done (c_hosts c) ((view g)(i := s')) x))"

lemma servedI:
  "i < length g \<Longrightarrow> arrives c envs g i P \<Longrightarrow> (\<And>s'. P s' \<Longrightarrow> task_done (c_hosts c) ((view g)(i := s')) x) \<Longrightarrow>
   served c envs g x"
  unfolding served_def arrives_def by blast

lemma serve_acknowledge:
  assumes a: "able c envs n g" "0 < n" and x: "(Acknowledge, i, j, k) \<in> open_tasks (c_hosts c) (view g)"
  shows "served c envs g (Acknowledge, i, j, k)"
proof -
  let ?H = "c_hosts c"
  have r: "running c n g" and len: "length g = length ?H" using a(1) able_length by (auto simp: able_def)
  have ij: "i < length g" "j < length g" "i \<noteq> j" and k: "0 \<le> k" "k < curr_msg_id (view g j)"
    using x len by (auto simp: open_tasks_def all_tasks_def)
  obtain dm where dm: "dm_type dm = DATAMSG_TYPE" "dm_sender dm = hidw ?H j" "dm_msg_id dm = to_u32 k"
    "sent (view g j) (?H ! i) (serialize_data_message dm)"
    using flowD(2) [OF ableD(4) [OF a(1) ij(2)]] k ij len unfolding data_sent_def by metis
  from data_arrives [where envs = envs, OF r a(2) ij(1,2) ableD(5) [OF a(1) ij(1)] dm(4,1)] show ?thesis
    by (rule servedI [OF ij(1)]) (auto simp: acked_by_def dm(2,3) intro: rev_image_eqI)
qed

lemma serve_answer:
  assumes a: "able c envs n g" "0 < n" and x: "(Answer, i, j, k) \<in> open_tasks (c_hosts c) (view g)"
    and acked: "acked_by (c_hosts c) (view g i) j k"
  shows "served c envs g (Answer, i, j, k)"
proof -
  let ?H = "c_hosts c"
  have r: "running c n g" and len: "length g = length ?H" using a(1) able_length by (auto simp: able_def)
  have ij: "i < length g" "j < length g" "i \<noteq> j" and k: "0 \<le> k" "k < curr_msg_id (view g j)"
    and new: "\<not> answered ?H (view g j) i k" using x len by (auto simp: open_tasks_def all_tasks_def)
  note ai = ableD [OF a(1) ij(1)] and aj = ableD [OF a(1) ij(2)]
  obtain am where am: "am \<in> set (alreadyAckedMessages (view g i))" "am_sender am = hidw ?H j" "am_msg_id am = to_u32 k"
    using acked by (auto simp: acked_by_def ack_uid_def)
  then have sent: "sent (view g i) (?H ! j) (serialize_ack_message am)"
    using flowD(3) [OF ai(4)] ij len unfolding acks_sent_def by metis
  have type: "am_type am = ACKMSG_TYPE" using local_invD(4) [OF ai(9)] am(1) by (simp add: acked_inv_def)
  have kr: "to_int (am_msg_id am) = k"
    using msg_id_in_range [OF local_invD(2) [OF aj(9)] k] am(3) by simp
  from ack_arrives [where envs = envs, OF r a(2) ij(1,2) aj(5) sent type, unfolded kr, OF new] show ?thesis
    by (rule servedI [OF ij(2)]) simp
qed

lemma serve_finish:
  assumes a: "able c envs n g" "0 < n" and x: "(Finish, i, j, k) \<in> open_tasks (c_hosts c) (view g)"
    and final: "knows_final (c_hosts c) (view g j) j k"
  shows "served c envs g (Finish, i, j, k)"
proof -
  let ?H = "c_hosts c"
  have r: "running c n g" and len: "length g = length ?H" using a(1) able_length by (auto simp: able_def)
  have ij: "i < length g" "j < length g" "i \<noteq> j" and new: "\<not> knows_final ?H (view g i) j k"
    using x len by (auto simp: open_tasks_def all_tasks_def)
  note aj = ableD [OF a(1) ij(2)]
  obtain sm where sm: "sm \<in> set (seqMessageHistory (view g j))" "sm_sender sm = hidw ?H j" "sm_msg_id sm = to_u32 k"
    using final by (auto simp: knows_final_def seq_uid_def)
  then have sent: "sent (view g j) (?H ! i) (serialize_seq_message sm)"
    using flowD(4) [OF aj(4)] ij len unfolding seqs_sent_def by metis
  have type: "sm_type sm = SEQMSG_TYPE" using local_invD(6) [OF aj(9)] sm(1) by (simp add: seq_inv_def)
  have uid: "seq_uid sm = (hidw ?H j, to_u32 k)" using sm(2,3) by (simp add: seq_uid_def)
  then have "seq_uid sm \<notin> seq_uid ` set (seqMessageHistory (view g i))" using new by (simp add: knows_final_def)
  from seq_arrives [where envs = envs, OF r a(2) ij(1,2) sent type this] show ?thesis
    by (rule servedI [OF ij(1)]) (auto simp: knows_final_def uid [symmetric])
qed

section \<open>Every turn settles one\<close>

definition ready_group :: "config \<Rightarrow> (nat \<Rightarrow> env) \<Rightarrow> group \<Rightarrow> bool" where
  "ready_group c envs g \<longleftrightarrow> able c envs (card (open_tasks (c_hosts c) (view g))) g"

lemma some_served:
  assumes g: "ready_group c envs g" and x: "open_tasks (c_hosts c) (view g) \<noteq> {}"
  shows "\<exists>x \<in> open_tasks (c_hosts c) (view g). served c envs g x"
proof -
  let ?H = "c_hosts c" and ?O = "open_tasks (c_hosts c) (view g)"
  have n: "0 < card ?O" using x finite_open_tasks by (simp add: card_gt_0_iff)
  note a = g [unfolded ready_group_def]
  have len: "length g = length ?H" using a by (rule able_length)
  have ar: "running c (card ?O) g" using a by (simp add: able_def)
  consider (1) i j k where "(Acknowledge, i, j, k) \<in> ?O"
    | (2) i j k where "(Answer, i, j, k) \<in> ?O" "\<forall>i j k. (Acknowledge, i, j, k) \<notin> ?O"
    | (3) i j k where "(Finish, i, j, k) \<in> ?O" "\<forall>i j k. (Answer, i, j, k) \<notin> ?O"
  proof -
    obtain t i j k where "(t, i, j, k) \<in> ?O" using x by auto
    then show thesis using 1 2 3 by (cases t) metis+
  qed
  then show ?thesis
  proof cases
    case 1
    with serve_acknowledge [OF a n] show ?thesis by blast
  next
    case 2
    then have "acked_by ?H (view g i) j k" by (auto simp: open_tasks_def all_tasks_def)
    with serve_answer [OF a n 2(1)] 2(1) show ?thesis by blast
  next
    case 3
    then have "j < length g" "0 \<le> k" "k < curr_msg_id (view g j)"
      by (auto simp: open_tasks_def all_tasks_def len)
    moreover have "answered ?H (view g j) i' k" if "i' < length g" "i' \<noteq> j" for i'
      using 3(2) that calculation by (auto simp: open_tasks_def all_tasks_def len)
    ultimately have "knows_final ?H (view g j) j k" using all_answered(2) [OF ar, of j k] by blast
    with serve_finish [OF a n 3(1)] 3(1) show ?thesis by blast
  qed
qed

definition reads :: "nat \<times> event \<Rightarrow> bool" where
  "reads x \<longleftrightarrow> (\<exists>i p. x = (i, Receive (Some p)))"

lemma serve_group:
  assumes g: "ready_group c envs g" and x: "open_tasks (c_hosts c) (view g) \<noteq> {}"
  shows "\<exists>e h. reads e \<and> run envs [e] g = Some h \<and> ready_group c envs h \<and> sent_counts h = sent_counts g \<and>
    open_tasks (c_hosts c) (view h) \<subset> open_tasks (c_hosts c) (view g)"
proof -
  let ?H = "c_hosts c" and ?O = "\<lambda>g. open_tasks (c_hosts c) (view g)"
  obtain x where x: "x \<in> ?O g" "served c envs g x" using some_served [OF g x] by blast
  obtain i p s' where s': "i < length g" "p \<in> set (wire g)" "p_dst p = ?H ! i"
    "msg_receiver_turn (envs i) (Some p) (view g i) = Inr s'" "moved (view g i) s'"
    "task_done ?H ((view g)(i := s')) x" using x(2) unfolding served_def arrives_def by blast
  note a = ableD [OF g [unfolded ready_group_def] s'(1)]
  let ?h = "g[i := Inr s']"
  have pos: "possible g (Receive (Some p)) (view g i)"
    using s'(2,3) goodD(5) [OF a(3)] by (simp add: static_inv_def)
  obtain n where n: "card (?O g) = Suc n" using x(1) finite_open_tasks by (metis card_gt_0_iff empty_iff gr0_implies_Suc)
  then have "running c (Suc n) g" using g by (simp add: ready_group_def able_def)
  from turn_leads [OF this s'(1) pos, of envs s'] s'(4) moved_onward [OF s'(5)]
  have l: "leads c envs [(i, Receive (Some p))] g ?h" "running c n ?h" "view ?h = (view g)(i := s')" "group_step envs g ?h"
    by simp_all
  have flow: "group_flow c envs ?h" using g l(4) by (auto simp: ready_group_def able_def intro: group_step_flow)
  have "x \<notin> ?O ?h" using s'(6) by (cases x) (simp add: l(3) open_tasks_def)
  with x(1) l(1) have less: "?O ?h \<subset> ?O g" by (auto simp: leads_def)
  then have "card (?O ?h) \<le> n" using psubset_card_mono [OF finite_open_tasks less] n by simp
  with flow running_less [OF l(2)] have "ready_group c envs ?h" by (simp add: ready_group_def able_def)
  with less l(1) show ?thesis unfolding reads_def leads_def by blast
qed

interpretation receivers:
  server "run envs" "ready_group c envs" "\<lambda>g. open_tasks (c_hosts c) (view g)" sent_counts reads for c envs
proof
  fix e t es s
  assume "run envs [e] s = Some t"
  then show "run envs (e # es) s = run envs es t"
    by (cases e) (auto split: if_splits sum.splits)
next
  fix s assume "ready_group c envs s" "open_tasks (c_hosts c) (view s) \<noteq> {}"
  then show "\<exists>e t. reads e \<and> run envs [e] s = Some t \<and> ready_group c envs t \<and> sent_counts t = sent_counts s \<and>
      open_tasks (c_hosts c) (view t) \<subset> open_tasks (c_hosts c) (view s)" by (rule serve_group)
qed (simp_all add: finite_open_tasks)

section \<open>Nothing left to do\<close>

text \<open>The identities of all messages multicast so far.\<close>

definition all_uids :: "config \<Rightarrow> group \<Rightarrow> (u32 \<times> u32) set" where
  "all_uids c g = (\<Union>j < length g. (\<lambda>k. (hidw (c_hosts c) j, to_u32 k)) ` {0..<curr_msg_id (view g j)})"

lemma all_uids_counts:
  assumes "sent_counts h = sent_counts g"
  shows "all_uids c h = all_uids c g"
proof -
  have len: "length h = length g" using assms by (auto simp: sent_counts_def dest: map_eq_imp_length_eq)
  moreover have "curr_msg_id (view h j) = curr_msg_id (view g j)" if "j < length g" for j
    using arg_cong [OF assms, of "\<lambda>xs. xs ! j"] that len by (simp add: sent_counts_def view_def)
  ultimately show ?thesis unfolding all_uids_def by auto
qed

lemma nothing_left:
  assumes a: "running c n g" and none: "open_tasks (c_hosts c) (view g) = {}" and i: "i < length g"
  shows "deliveryQueue (view g i) = []" "uid ` set (deliveredMessage (view g i)) = all_uids c g"
    "distinct (map uid (deliveredMessage (view g i)))"
proof -
  let ?H = "c_hosts c" and ?s = "view g i"
  note ai = runningD [OF a i]
  note l = local_invD [OF ai(7)] and len = ai(6)
  have closed: "task_done ?H (view g) (t, i', j, k)"
    if "i' < length g" "j < length g" "i' \<noteq> j" "0 \<le> k" "k < curr_msg_id (view g j)" for t i' j k
    using none that len by (auto simp: open_tasks_def all_tasks_def)
  have final: "knows_final ?H ?s j k" if "j < length g" "0 \<le> k" "k < curr_msg_id (view g j)" for j k
  proof (cases "i = j")
    case True
    show ?thesis unfolding True
      using closed [of _ j k Answer] that by (intro all_answered(2) [OF a]) auto
  next
    case False
    with closed [of i j k Finish] i that show ?thesis by simp
  qed
  have uids: "uid ` set (held ?s) = all_uids c g"
  proof
    show "uid ` set (held ?s) \<subseteq> all_uids c g"
    proof
      fix u assume "u \<in> uid ` set (held ?s)"
      then consider "u \<in> own_ids ?H i ?s" | b where "b \<in> set (alreadyAckedMessages ?s)" "u = ack_uid b"
        using l(3) by (auto simp: queue_inv_def)
      then show "u \<in> all_uids c g"
      proof cases
        case 1
        with i show ?thesis by (auto simp: own_ids_def all_uids_def)
      next
        case 2
        then obtain j where j: "j < length g" "j \<noteq> i" "am_sender b = hidw ?H j"
          using l(4) len by (auto simp: acked_inv_def)
        have "sound_view ?H (view g)" using ai(2) by (simp add: group_ok_def)
        then have "cross ?H i ?s j (view g j)" using j i len by (simp add: sound_view_def)
        from crossD(1) [OF this 2(1) j(3)] obtain k where "0 \<le> k" "k < curr_msg_id (view g j)" "am_msg_id b = to_u32 k"
          by blast
        with j 2(2) show ?thesis unfolding all_uids_def ack_uid_def by (intro UN_I [of j]) auto
      qed
    qed
    show "all_uids c g \<subseteq> uid ` set (held ?s)"
    proof
      fix u assume "u \<in> all_uids c g"
      then obtain j k where jk: "u = (hidw ?H j, to_u32 k)" "j < length g" "0 \<le> k" "k < curr_msg_id (view g j)"
        by (auto simp: all_uids_def)
      show "u \<in> uid ` set (held ?s)"
      proof (cases "i = j")
        case True
        with jk l(3) show ?thesis by (auto simp: queue_inv_def own_ids_def)
      next
        case False
        with closed [of i j k Acknowledge] i jk l(3) show ?thesis by (simp add: queue_inv_def acked_by_def)
      qed
    qed
  qed
  have deliverable: "qm_status m = DELIVERABLE" if m: "m \<in> set (held ?s)" for m
  proof -
    have "uid m \<in> all_uids c g" using imageI [OF m, of uid] uids by simp
    then obtain j k where jk: "uid m = (hidw ?H j, to_u32 k)" "j < length g" "0 \<le> k" "k < curr_msg_id (view g j)"
      unfolding all_uids_def by auto
    obtain sm where "sm \<in> set (seqMessageHistory ?s)" "seq_uid sm = uid m"
      using final [OF jk(2-4)] jk(1) by (auto simp: knows_final_def)
    then obtain m' where m': "m' \<in> set (held ?s)" "uid m' = uid m" "qm_status m' = DELIVERABLE"
      using ai(4) unfolding queue_settled_def known_deliverable_def by metis
    have "distinct (map uid (held ?s))" using l(3) by (simp add: queue_inv_def)
    then have "m' = m" using m'(1) m m'(2) by (rule distinct_map_filter_unique)
    with m'(3) show ?thesis by simp
  qed
  then show empty: "deliveryQueue ?s = []"
    using ai(4) by (auto simp: queue_settled_def waits_for_one_def held_def)
  then have held: "held ?s = deliveredMessage ?s" by (simp add: held_def)
  show "uid ` set (deliveredMessage ?s) = all_uids c g" using uids held by simp
  show "distinct (map uid (deliveredMessage ?s))" using l(3) held by (simp add: queue_inv_def)
qed

lemma all_delivered:
  assumes "running c n h" "open_tasks (c_hosts c) (view h) = {}" "sent_counts h = sent_counts g"
  shows "\<forall>i < length h. \<exists>s. h ! i = Inr s \<and> deliveryQueue s = [] \<and>
    distinct (map uid (deliveredMessage s)) \<and> uid ` set (deliveredMessage s) = all_uids c g"
  using nothing_left [OF assms(1,2)] runningD(1) [OF assms(1)] all_uids_counts [OF assms(3)] by metis

text \<open>
  C9. From every reachable state of a group of at least two hosts in which all processes run, provided
  that nothing is dropped, no call of \<open>sendto\<close> fails and the counters have room, some sequence of
  receiver turns, at most three for every message and pair of hosts, ends with every queue empty and
  every message that has been multicast delivered exactly once by every process: the protocol has no
  dead ends.
\<close>

theorem every_message_can_be_delivered:
  assumes "config_ok c" "2 \<le> length (c_hosts c)" "\<forall>i. no_loss (envs i) (c_drop_rate c i)"
    and "reachable c envs g"
    and "N = 3 * length (c_hosts c) * messages_sent (c_hosts c) (view g)"
    and "\<forall>i < length g. \<exists>s. g ! i = Inr s \<and> recv_cap s + int N \<le> RECV_CAP \<and> curr_seq_number s + int N \<le> INT_MAX"
  shows "\<exists>sched h. run envs sched g = Some h \<and> length sched \<le> N \<and> list_all reads sched \<and>
    (\<forall>i < length h. \<exists>s. h ! i = Inr s \<and> deliveryQueue s = [] \<and>
       distinct (map uid (deliveredMessage s)) \<and> uid ` set (deliveredMessage s) = all_uids c g)"
proof -
  let ?n = "card (open_tasks (c_hosts c) (view g))"
  have n: "?n \<le> N" using card_open_tasks assms(5) by simp
  then have "\<exists>s. g ! i = Inr s \<and> recv_cap s + int ?n \<le> RECV_CAP \<and> curr_seq_number s + int ?n \<le> INT_MAX"
    if "i < length g" for i using assms(6) that by fastforce
  then have "ready_group c envs g"
    using reachable_flow [OF assms(1,3,4)] assms(2)
    by (simp add: ready_group_def able_def running_def room_def group_flow_def)
  from receivers.finishes [OF this] obtain sched h where h: "run envs sched g = Some h" "ready_group c envs h"
    "open_tasks (c_hosts c) (view h) = {}" "sent_counts h = sent_counts g" "length sched \<le> ?n" "list_all reads sched"
    by blast
  have "running c (card (open_tasks (c_hosts c) (view h))) h" using h(2) by (simp add: ready_group_def able_def)
  from all_delivered [OF this h(3,4)] h n show ?thesis by (intro exI [of _ sched] exI [of _ h]) simp
qed

text \<open>After two multicasts of the demo group, before anything has been received.\<close>

definition two_sends :: "(nat \<times> event) list" where
  "two_sends = [(0, Multicast 7), (1, Multicast 9)]"

lemma two_sends_run:
  "map_option (map (\<lambda>r. (case r of Inl x \<Rightarrow> True | Inr s \<Rightarrow> False, curr_msg_id (state_of r),
     recv_cap (state_of r), curr_seq_number (state_of r)))) (demo_run two_sends) =
   Some [(False, 1, 1, 2), (False, 1, 1, 2)]"
  by code_simp

lemma demo_no_loss: "no_loss demo_env (c_drop_rate demo_config i)"
  by (simp add: no_loss_def demo_env_def demo_config_def RAND_MAX_def)

theorem every_message_can_be_delivered_witness:
  "\<exists>h. reachable demo_config (\<lambda>i. demo_env) h \<and> deliveryQueue (state_of (h ! 0)) = [] \<and>
     uid ` set (deliveredMessage (state_of (h ! 0))) = {(1, 0), (2, 0)}"
proof -
  obtain g where g: "demo_run two_sends = Some g" "map (\<lambda>r. (case r of Inl x \<Rightarrow> True | Inr s \<Rightarrow> False,
      curr_msg_id (state_of r), recv_cap (state_of r), curr_seq_number (state_of r))) g =
    [(False, 1, 1, 2), (False, 1, 1, 2)]" using two_sends_run by auto
  then obtain r0 r1 where rs: "g = [r0, r1]" by auto
  with g(2) obtain s0 s1 where s: "r0 = Inr s0" "r1 = Inr s1" by (auto split: sum.splits)
  have two: "length (c_hosts demo_config) = 2" by (simp add: demo_config_def)
  have N: "3 * length (c_hosts demo_config) * messages_sent (c_hosts demo_config) (view g) = 12"
    using g(2) rs s by (simp add: two messages_sent_def view_def lessThan_Suc numeral_2_eq_2)
  have "\<forall>i < length g. \<exists>s. g ! i = Inr s \<and> recv_cap s + int 12 \<le> RECV_CAP \<and> curr_seq_number s + int 12 \<le> INT_MAX"
    using g(2) rs s by (auto simp: less_Suc_eq RECV_CAP_def INT_MAX_def)
  from every_message_can_be_delivered [OF demo_config_ok _ _ demo_reachable [OF g(1)] N [symmetric] this]
  obtain sched h where h: "run (\<lambda>i. demo_env) sched g = Some h"
    "\<forall>i < length h. \<exists>s. h ! i = Inr s \<and> deliveryQueue s = [] \<and>
       distinct (map uid (deliveredMessage s)) \<and> uid ` set (deliveredMessage s) = all_uids demo_config g"
    using demo_no_loss two by auto
  have r: "reachable demo_config (\<lambda>i. demo_env) h" using demo_reachable [OF g(1)] h(1) by (rule run_reach)
  then have "0 < length h" using reachableD(1) [OF demo_config_ok] two by simp
  then obtain s where st: "h ! 0 = Inr s" "deliveryQueue s = []" "uid ` set (deliveredMessage s) = all_uids demo_config g"
    using h(2) by blast
  have "hidw (c_hosts demo_config) 0 = 1" "hidw (c_hosts demo_config) (Suc 0) = 2" by code_simp+
  moreover have "{0..<(1::int)} = {0}" by auto
  ultimately have "all_uids demo_config g = {(1, 0), (2, 0)}"
    using g(2) rs s by (simp add: all_uids_def view_def lessThan_Suc to_u32_def insert_commute)
  with st r show ?thesis by (intro exI [of _ h]) simp
qed

end
