(* ===== verification/Repair.thy ===== *)
theory Repair
  imports Progress
begin

text \<open>
  The watchdogs repair losses. In the first phase anything may be dropped, any send may go wrong
  quietly and any datagram may be lost, but no watchdog gives up; then, as long as every watchdog
  has an attempt left, turns of watchdogs and receivers without losses bring every message to every
  process. A duty is what a watchdog is for; the invariant of the first phase is that every duty
  not done has its watchdog.
\<close>

section \<open>Duties\<close>

text \<open>To bring the own message \<open>k\<close> to host \<open>j\<close>; to get the final number for an acknowledged message.\<close>

datatype duty = Reach nat int | Settle AckMessage

definition duties :: "string list \<Rightarrow> nat \<Rightarrow> rm \<Rightarrow> duty set" where
  "duties H i s = {Reach j k |j k. j < length H \<and> j \<noteq> i \<and> 0 \<le> k \<and> k < curr_msg_id s} \<union>
     Settle ` set (alreadyAckedMessages s)"

fun duty_done :: "string list \<Rightarrow> rm \<Rightarrow> duty \<Rightarrow> bool" where
  "duty_done H s (Reach j k) = answered H s j k"
| "duty_done H s (Settle a) = (ack_uid a \<in> seq_uid ` set (seqMessageHistory s))"

fun on_duty :: "string list \<Rightarrow> nat \<Rightarrow> watchdog \<Rightarrow> duty \<Rightarrow> bool" where
  "on_duty H i (DataWatchdog dm h n) (Reach j k) \<longleftrightarrow>
     h = H ! j \<and> dm_sender dm = hidw H i \<and> dm_msg_id dm = to_u32 k"
| "on_duty H i (AckWatchdog a h n) (Settle b) \<longleftrightarrow> a = b"
| "on_duty H i w d \<longleftrightarrow> False"

definition guarded :: "nat \<Rightarrow> string list \<Rightarrow> nat \<Rightarrow> rm \<Rightarrow> duty \<Rightarrow> bool" where
  "guarded b H i s d \<longleftrightarrow> duty_done H s d \<or> (\<exists>w \<in> set (watchdogs s). on_duty H i w d \<and> attempts w < b)"

lemma on_duty_next [simp]: "on_duty H i (next_attempt w) d = on_duty H i w d"
  by (cases w; cases d) simp_all

lemma duty_done_gains: "gains s s' \<Longrightarrow> duty_done H s d \<Longrightarrow> duty_done H s' d"
  using gains_keeps(2) by (cases d) (auto simp: gains_def)

lemma guarded_step:
  assumes "guarded b H i s d" "tended H i W s s'"
    and "\<And>w. w \<in> set (watchdogs s) \<Longrightarrow> on_duty H i w d \<Longrightarrow> attempts w < b \<Longrightarrow> w \<in> W"
  shows "guarded b H i s' d"
  using assms(1,3) duty_done_gains [OF tendedD(2) [OF assms(2)]] tendedD(3) [OF assms(2)]
  unfolding guarded_def by blast

lemma guarded_new:
  assumes t: "tended H i W s s'" and d: "d \<in> duties H i s'" "d \<notin> duties H i s" and b: "0 < b"
  shows "guarded b H i s' d"
proof (cases d)
  case (Reach j k)
  then have "j < length H" "j \<noteq> i" "curr_msg_id s \<le> k" "k < curr_msg_id s'"
    using d by (auto simp: duties_def)
  with tendedD(4) [OF t, of k j] obtain dm where "DataWatchdog dm (H ! j) 0 \<in> set (watchdogs s')"
    "dm_sender dm = hidw H i" "dm_msg_id dm = to_u32 k" by blast
  then show ?thesis unfolding guarded_def Reach using b by (intro disjI2 bexI) auto
next
  case (Settle a)
  then have "a \<in> set (alreadyAckedMessages s')" "a \<notin> set (alreadyAckedMessages s)"
    using d by (auto simp: duties_def)
  with tendedD(5) [OF t] obtain h where "AckWatchdog a h 0 \<in> set (watchdogs s')" by blast
  then show ?thesis unfolding guarded_def Settle using b by (intro disjI2 bexI) auto
qed

text \<open>A watchdog is relieved when its duty is done, and has one duty only.\<close>

lemma relieved_duty:
  assumes g: "good H st i s" and d: "d \<in> duties H i s" and w: "on_duty H i w d"
  shows "relieved w s \<longleftrightarrow> duty_done H s d"
proof (cases d)
  case (Reach j k)
  then obtain dm n where w': "w = DataWatchdog dm (H ! j) n" "dm_msg_id dm = to_u32 k" using w by (cases w) auto
  have "k \<in> int_range" using goodD(6) [OF g] d by (auto simp: Reach duties_def intro: msg_id_in_range)
  then show ?thesis by (simp add: w' Reach answered_def hid_def)
next
  case (Settle a)
  then show ?thesis using w by (cases w) auto
qed

lemma one_duty:
  assumes g: "good H st i s" and d: "d \<in> duties H i s" "d' \<in> duties H i s" and w: "on_duty H i w d" "on_duty H i w d'"
  shows "d = d'"
proof (cases w)
  case (DataWatchdog dm h n)
  then obtain j k j' k' where dd: "d = Reach j k" "d' = Reach j' k'" using w by (cases d; cases d') auto
  have "k \<in> int_range" "k' \<in> int_range"
    using goodD(6) [OF g] d by (auto simp: dd duties_def intro: msg_id_in_range)
  moreover have u: "to_u32 k = to_u32 k'" "H ! j = H ! j'" using w by (auto simp: DataWatchdog dd)
  ultimately have "k = k'" by (metis to_int_to_u32)
  moreover have "j < length H" "j' < length H" using d by (auto simp: dd duties_def)
  with u(2) have "j = j'" using goodD(7) [OF g] by (simp add: host_name_inject)
  ultimately show ?thesis by (simp add: dd)
next
  case (AckWatchdog a h n)
  then show ?thesis using w by (cases d; cases d') auto
qed

section \<open>The first phase\<close>

inductive patient_step :: "(nat \<Rightarrow> env) \<Rightarrow> group \<Rightarrow> group \<Rightarrow> bool" for envs :: "nat \<Rightarrow> env" where
  patient_turn: "i < length g \<Longrightarrow> g ! i = Inr s \<Longrightarrow> possible g ev s \<Longrightarrow> patient ev s \<Longrightarrow>
     patient_step envs g (g[i := process_event (envs i) ev s])"

inductive_cases patient_stepE: "patient_step envs g g'"

lemma patient_step_group: "patient_step envs g g' \<Longrightarrow> group_step envs g g'"
  by (auto elim!: patient_stepE intro: group_step.turn)

definition on_guard :: "nat \<Rightarrow> string list \<Rightarrow> nat \<Rightarrow> rm \<Rightarrow> bool" where
  "on_guard b H i s \<longleftrightarrow> (\<forall>d \<in> duties H i s. guarded b H i s d)"

lemma on_guard_event:
  assumes g: "good H st i s" and q: "queue_settled s" and og: "on_guard (Suc WATCHDOG_RESEND_CAP) H i s"
    and pt: "patient ev s"
    and p: "\<And>p. ev = Receive (Some p) \<Longrightarrow> \<exists>j. p_src p = H ! j \<and> from_peer H st i j (p_payload p)"
    and run: "process_event e ev s = Inr s'"
  shows "on_guard (Suc WATCHDOG_RESEND_CAP) H i s'"
  unfolding on_guard_def
proof
  fix d assume d: "d \<in> duties H i s'"
  let ?b = "Suc WATCHDOG_RESEND_CAP"
  note t = tended_event [OF g q pt p run]
  show "guarded ?b H i s' d"
  proof (cases "d \<in> duties H i s")
    case False
    from guarded_new [OF t d this] show ?thesis by simp
  next
    case True
    then have gd: "guarded ?b H i s d" using og by (simp add: on_guard_def)
    show ?thesis
    proof (rule ccontr)
      assume neg: "\<not> guarded ?b H i s' d"
      then have "\<exists>w. w \<in> set (watchdogs s) \<and> on_duty H i w d \<and> w \<notin> left_alone ev s"
        using guarded_step [OF gd t] by blast
      then obtain k where k: "ev = WatchdogTurn k" "k < length (watchdogs s)" "on_duty H i (watchdogs s ! k) d"
        by (cases ev) (auto split: if_splits)
      with pt have n: "attempts (watchdogs s ! k) < WATCHDOG_RESEND_CAP" by simp
      have turn: "watchdog_turn e k s = Inr s'" using run k(1) by simp
      have "\<not> duty_done H s d" using neg duty_done_gains [OF tendedD(2) [OF t]] by (auto simp: guarded_def)
      then have "\<not> relieved (watchdogs s ! k) s" using relieved_duty [OF g True k(3)] by simp
      with tended_watchdog(2) [OF q k(2) refl n turn] have "next_attempt (watchdogs s ! k) \<in> set (watchdogs s')" .
      then have "guarded ?b H i s' d" using k(3) n unfolding guarded_def by (intro disjI2 bexI) auto
      with neg show False ..
    qed
  qed
qed

definition group_tended :: "config \<Rightarrow> group \<Rightarrow> bool" where
  "group_tended c g \<longleftrightarrow> group_settled c g \<and> (\<forall>i < length g. \<forall>s. g ! i = Inr s \<longrightarrow>
     drop_rate s = c_drop_rate c i \<and> on_guard (Suc WATCHDOG_RESEND_CAP) (c_hosts c) i s)"

lemma initial_group_tended: "config_ok c \<Longrightarrow> group_tended c (initial_group c)"
  using initial_group_settled
  by (auto simp: group_tended_def initial_group_def on_guard_def duties_def)

lemma patient_step_tended:
  assumes g: "group_tended c g" and step: "patient_step envs g g'"
  shows "group_tended c g'"
proof -
  obtain i s ev where 1: "g' = g[i := process_event (envs i) ev s]" "i < length g" "g ! i = Inr s"
    "possible g ev s" "patient ev s" using step by (rule patient_stepE)
  have st: "group_settled c g" and q: "queue_settled s" "drop_rate s = c_drop_rate c i"
    "on_guard (Suc WATCHDOG_RESEND_CAP) (c_hosts c) i s"
    using g 1(2,3) by (auto simp: group_tended_def group_settled_def)
  then have ok: "group_ok c g" by (simp add: group_settled_def)
  note t = turn_good [OF ok 1(2-4)]
  have "drop_rate s' = c_drop_rate c i \<and> on_guard (Suc WATCHDOG_RESEND_CAP) (c_hosts c) i s'"
    if run: "process_event (envs i) ev s = Inr s'" for s'
    using tendedD(2) [OF tended_event [OF t(1) q(1) 1(5) t(2) run]] q(2)
      on_guard_event [OF t(1) q(1,3) 1(5) t(2) run] by (simp add: gains_def)
  with g 1(1,2) group_step_settled [OF st patient_step_group [OF step]] show ?thesis
    by (auto simp: group_tended_def nth_list_update)
qed

interpretation tended_inv:
  invariant "\<lambda>h. config_ok c \<and> h = initial_group c" "patient_step envs" "group_tended c" for c envs
  by unfold_locales (auto intro: initial_group_tended patient_step_tended)

section \<open>A watchdog sends\<close>

fun watchdog_host :: "watchdog \<Rightarrow> string" where
  "watchdog_host (DataWatchdog dm h n) = h"
| "watchdog_host (AckWatchdog a h n) = h"

fun watchdog_bytes :: "watchdog \<Rightarrow> u8 list \<Rightarrow> u8 list" where
  "watchdog_bytes (DataWatchdog dm h n) = serialize_data_message dm"
| "watchdog_bytes (AckWatchdog a h n) = serialize_ack_message a"

lemma pass_sends:
  assumes g: "good H st i s" and e: "no_loss e (drop_rate s)" and w: "watchdog_ok H i s w" and r: "\<not> relieved w s"
  shows "\<exists>s1. watchdog_pass e w s = Inr (False, s1) \<and> sent s1 (watchdog_host w) (watchdog_bytes w)"
proof (cases w)
  case (DataWatchdog dm h n)
  obtain rv s1 where t: "transmit e h (serialize_data_message dm (uninit_packet e s)) s = (rv, s1)" "rv \<noteq> - 1"
    "sent s1 h (serialize_data_message dm)"
    using e length_uninit_packet by (rule reply_sent)
  obtain k where k: "0 \<le> k" "k < curr_msg_id s" "dm_msg_id dm = to_u32 k"
    using w by (auto simp: DataWatchdog own_data_def)
  have "k \<in> int_range" using goodD(6) [OF g] k(1,2) by (rule msg_id_in_range)
  moreover have "k \<in> {0..<curr_msg_id s}" using k(1,2) by simp
  with local_invD(5) [OF goodD(4) [OF g]] obtain pm where "map_of (ackHistory s) k = Some pm"
    by (rule ack_history_at)
  ultimately have pm: "map_of (ackHistory s) (to_int (dm_msg_id dm)) = Some pm" by (simp add: k(3))
  with r have "map_of pm (extract_int_from_string h) = None" by (auto simp: DataWatchdog)
  with t pm show ?thesis
    by (simp add: DataWatchdog datamsg_watchdog_pass_def send_msg_with_drop_and_delay_def map_count_zero)
next
  case (AckWatchdog a h n)
  obtain rv s1 where t: "transmit e h (serialize_ack_message a (uninit_packet e s)) s = (rv, s1)" "rv \<noteq> - 1"
    "sent s1 h (serialize_ack_message a)"
    using e length_uninit_packet by (rule reply_sent)
  have "\<not> list_ex (\<lambda>sm. sm_sender sm = am_sender a \<and> sm_msg_id sm = am_msg_id a) (seqMessageHistory s)"
    using r by (force simp: AckWatchdog list_ex_iff seq_uid_def ack_uid_def)
  with t show ?thesis
    by (simp add: AckWatchdog ackmsg_watchdog_pass_def send_msg_with_drop_and_delay_def)
qed

text \<open>A turn that costs nothing.\<close>

definition idle :: "rm \<Rightarrow> rm \<Rightarrow> bool" where
  "idle s s' \<longleftrightarrow> same_core s s' \<and> curr_seq_number s' = curr_seq_number s \<and> recv_cap s' = recv_cap s"

lemma watchdog_sends:
  assumes g: "good H st i s" and e: "no_loss e (drop_rate s)" and w: "w \<in> set (watchdogs s)"
    and r: "\<not> relieved w s" and n: "attempts w < WATCHDOG_RESEND_CAP"
  obtains k s' where "k < length (watchdogs s)" "watchdogs s ! k = w" "watchdog_turn e k s = Inr s'"
    "sent s' (watchdog_host w) (watchdog_bytes w)" "idle s s'"
proof -
  obtain k where k: "k < length (watchdogs s)" "watchdogs s ! k = w" using w by (auto simp: in_set_conv_nth)
  have "watchdog_ok H i s w" using local_invD(10) [OF goodD(4) [OF g]] w by (simp add: watchdog_inv_def)
  from pass_sends [OF g e this r] obtain s1 where p: "watchdog_pass e w s = Inr (False, s1)"
    "sent s1 (watchdog_host w) (watchdog_bytes w)" by blast
  let ?s' = "s1\<lparr>watchdogs := (watchdogs s1)[k := next_attempt w]\<rparr>"
  have "watchdog_turn e k s = Inr ?s'" using k n p(1) by (simp add: watchdog_turn_def)
  moreover have "sent ?s' (watchdog_host w) (watchdog_bytes w)" using p(2) by (rule sent_mono) simp
  moreover have "idle s ?s'" using watchdog_pass_core(1,6,7) [OF p(1)] by (simp add: idle_def same_core_def)
  ultimately show thesis using k by (intro that)
qed

section \<open>The second phase\<close>

text \<open>Every duty outside \<open>E\<close> has a watchdog with an attempt left; \<open>E\<close> are duties just attended to.\<close>

definition mending :: "config \<Rightarrow> (nat \<Rightarrow> env) \<Rightarrow> nat \<Rightarrow> (nat \<times> duty) set \<Rightarrow> group \<Rightarrow> bool" where
  "mending c envs n E g \<longleftrightarrow> running c n g \<and> (\<forall>i. no_loss (envs i) (c_drop_rate c i)) \<and>
     (\<forall>i < length g. drop_rate (view g i) = c_drop_rate c i \<and>
        (\<forall>d \<in> duties (c_hosts c) i (view g i). (i, d) \<notin> E \<longrightarrow>
           guarded WATCHDOG_RESEND_CAP (c_hosts c) i (view g i) d))"

lemma mendingD:
  assumes "mending c envs n E g"
  shows "running c n g" "i < length g \<Longrightarrow> no_loss (envs i) (drop_rate (view g i))"
    and "i < length g \<Longrightarrow> d \<in> duties (c_hosts c) i (view g i) \<Longrightarrow> (i, d) \<notin> E \<Longrightarrow>
      guarded WATCHDOG_RESEND_CAP (c_hosts c) i (view g i) d"
  using assms by (auto simp: mending_def)

lemma mending_turn:
  assumes m: "mending c envs (Suc n) E g" and i: "i < length g" and pos: "possible g ev (view g i)"
    and run: "process_event (envs i) ev (view g i) = Inr s'" and on: "onward (view g i) s'" and pt: "patient ev (view g i)"
    and alone: "\<And>w d. w \<in> set (watchdogs (view g i)) \<Longrightarrow> w \<notin> left_alone ev (view g i) \<Longrightarrow>
      d \<in> duties (c_hosts c) i (view g i) \<Longrightarrow> on_duty (c_hosts c) i w d \<Longrightarrow> (i, d) \<in> E"
  shows "mending c envs n E (g[i := Inr s'])"
proof -
  let ?H = "c_hosts c" and ?h = "g[i := Inr s']"
  note r = mendingD(1) [OF m]
  note ri = runningD [OF r i] and l = turn_leads [where envs = envs, OF r i pos run on]
  have t: "tended ?H i (left_alone ev (view g i)) (view g i) s'"
    using ri(3,4) pt turn_good(2) [OF ri(2) i ri(1) pos] run by (rule tended_event)
  have "guarded WATCHDOG_RESEND_CAP ?H i s' d" if d: "d \<in> duties ?H i s'" "(i, d) \<notin> E" for d
  proof (cases "d \<in> duties ?H i (view g i)")
    case True
    show ?thesis
      by (rule guarded_step [OF mendingD(3) [OF m i True d(2)] t]) (use alone True d(2) in blast)
  qed (use guarded_new [OF t d(1)] in \<open>simp add: WATCHDOG_RESEND_CAP_def\<close>)
  moreover have "drop_rate s' = c_drop_rate c i" using on m i by (simp add: onward_def gains_def mending_def)
  ultimately show ?thesis
    using m l(2) i unfolding mending_def l(3) by (simp add: all_conj_distrib)
qed

text \<open>A datagram that is read disturbs no watchdog.\<close>

lemma mending_arrives:
  assumes m: "mending c envs (Suc n) E g" and i: "i < length g" and a: "arrives c envs g i P"
  shows "\<exists>p s'. leads c envs [(i, Receive (Some p))] g (g[i := Inr s']) \<and>
    mending c envs n E (g[i := Inr s']) \<and> view (g[i := Inr s']) = (view g)(i := s') \<and> P s'"
proof -
  note r = mendingD(1) [OF m]
  obtain p s' where p: "p \<in> set (wire g)" "p_dst p = c_hosts c ! i"
    "msg_receiver_turn (envs i) (Some p) (view g i) = Inr s'" "moved (view g i) s'" "P s'"
    using a unfolding arrives_def by blast
  have pos: "possible g (Receive (Some p)) (view g i)"
    using p(1,2) goodD(5) [OF runningD(3) [OF r i]] by (simp add: static_inv_def)
  have run: "process_event (envs i) (Receive (Some p)) (view g i) = Inr s'" using p(3) by simp
  note on = moved_onward [OF p(4)]
  note l = turn_leads [where envs = envs, OF r i pos run on]
  have "mending c envs n E (g[i := Inr s'])" by (rule mending_turn [OF m i pos run on]) simp_all
  with l(1,3) p(5) show ?thesis by blast
qed

text \<open>The watchdog of an open duty sends.\<close>

lemma mending_watchdog:
  assumes m: "mending c envs (Suc n) {} g" and i: "i < length g"
    and d: "d \<in> duties (c_hosts c) i (view g i)" "\<not> duty_done (c_hosts c) (view g i) d"
  obtains k s' w where "leads c envs [(i, WatchdogTurn k)] g (g[i := Inr s'])"
    "mending c envs n {(i, d)} (g[i := Inr s'])" "view (g[i := Inr s']) = (view g)(i := s')"
    "idle (view g i) s'" "on_duty (c_hosts c) i w d" "watchdog_ok (c_hosts c) i (view g i) w"
    "sent s' (watchdog_host w) (watchdog_bytes w)"
proof -
  let ?H = "c_hosts c" and ?s = "view g i"
  note r = mendingD(1) [OF m]
  note ri = runningD [OF r i]
  obtain w where w: "w \<in> set (watchdogs ?s)" "on_duty ?H i w d" "attempts w < WATCHDOG_RESEND_CAP"
    using mendingD(3) [OF m i d(1)] d(2) by (auto simp: guarded_def)
  have rel: "\<not> relieved w ?s" using relieved_duty [OF ri(3) d(1) w(2)] d(2) by simp
  obtain k s' where k: "k < length (watchdogs ?s)" "watchdogs ?s ! k = w" "watchdog_turn (envs i) k ?s = Inr s'"
    "sent s' (watchdog_host w) (watchdog_bytes w)" "idle ?s s'"
    by (rule watchdog_sends [OF ri(3) mendingD(2) [OF m i] w(1) rel w(3)])
  let ?ev = "WatchdogTurn k"
  have run: "process_event (envs i) ?ev ?s = Inr s'" and pos: "possible g ?ev ?s" and pt: "patient ?ev ?s"
    using k(2,3) w(3) by simp_all
  have "gains ?s s'"
    using tended_event [OF ri(3,4) pt turn_good(2) [OF ri(2) i ri(1) pos] run] by (rule tendedD)
  then have on: "onward ?s s'" using k(5) by (simp add: onward_def idle_def same_core_def)
  have m0: "mending c envs (Suc n) {(i, d)} g" using m by (auto simp: mending_def)
  have "mending c envs n {(i, d)} (g[i := Inr s'])"
  proof (rule mending_turn [OF m0 i pos run on pt])
    fix v d' assume "v \<in> set (watchdogs ?s)" "v \<notin> left_alone ?ev ?s" "d' \<in> duties ?H i ?s" "on_duty ?H i v d'"
    moreover from this(2) have "v = w \<or> v \<notin> set (watchdogs ?s)" using k(1,2) by auto
    ultimately show "(i, d') \<in> {(i, d)}" using one_duty [OF ri(3) d(1) _ w(2)] by blast
  qed
  moreover have "watchdog_ok ?H i ?s w" using local_invD(10) [OF ri(7)] w(1) by (simp add: watchdog_inv_def)
  ultimately show thesis using turn_leads(1,3) [where envs = envs, OF r i pos run on] k(4,5) w(2) by (intro that)
qed

lemma mending_closed:
  assumes m: "mending c envs n {(i, d)} g" and d: "duty_done (c_hosts c) (view g i) d"
  shows "mending c envs n {} g"
proof -
  have "guarded WATCHDOG_RESEND_CAP (c_hosts c) i' (view g i') d'"
    if "i' < length g" "d' \<in> duties (c_hosts c) i' (view g i')" for i' d'
    using mendingD(3) [OF m that] d by (cases "(i', d') = (i, d)") (auto simp: guarded_def)
  with m show ?thesis by (simp add: mending_def)
qed

section \<open>Three turns settle a task\<close>

definition repairs :: "nat \<times> event \<Rightarrow> bool" where
  "repairs x \<longleftrightarrow> (\<exists>i p. x = (i, Receive (Some p))) \<or> (\<exists>i k. x = (i, WatchdogTurn k))"

definition mended :: "config \<Rightarrow> (nat \<Rightarrow> env) \<Rightarrow> nat \<Rightarrow> group \<Rightarrow> bool" where
  "mended c envs n g \<longleftrightarrow> (\<exists>es h. list_all repairs es \<and> length es \<le> 3 \<and> leads c envs es g h \<and>
     mending c envs n {} h \<and> open_tasks (c_hosts c) (view h) \<subset> open_tasks (c_hosts c) (view g))"

lemma mendedI:
  assumes l: "leads c envs [x] g g1" "leads c envs [y] g1 g2" "leads c envs [z] g2 h"
    and r: "repairs x" "repairs y" "repairs z" and m: "mending c envs n {} h"
    and t: "t \<in> open_tasks (c_hosts c) (view g)" "task_done (c_hosts c) (view h) t"
  shows "mended c envs n g"
proof -
  have lt: "leads c envs [x, y, z] g h" using leads_trans [OF l(1) leads_trans [OF l(2,3)]] by simp
  moreover have "t \<notin> open_tasks (c_hosts c) (view h)" using t(2) by (cases t) (simp add: open_tasks_def)
  then have "open_tasks (c_hosts c) (view h) \<subset> open_tasks (c_hosts c) (view g)"
    using t(1) lt by (auto simp: leads_def)
  ultimately show ?thesis unfolding mended_def using r m by (intro exI [of _ "[x, y, z]"] exI [of _ h]) simp
qed

lemma repairs_simps [simp]: "repairs (i, Receive (Some p))" "repairs (i, WatchdogTurn k)"
  by (simp_all add: repairs_def)

text \<open>Host \<open>j\<close> sends its message \<open>k\<close> again; host \<open>i\<close> acknowledges it; the acknowledgement is recorded.\<close>

lemma data_resent:
  assumes m: "mending c envs (Suc n) {} g" and ij: "i < length g" "j < length g" "i \<noteq> j"
    and k: "0 \<le> k" "k < curr_msg_id (view g j)" and new: "\<not> answered (c_hosts c) (view g j) i k"
  shows "\<exists>l s' dm. leads c envs [(j, WatchdogTurn l)] g (g[j := Inr s']) \<and>
    mending c envs n {(j, Reach i k)} (g[j := Inr s']) \<and> view (g[j := Inr s']) = (view g)(j := s') \<and>
    idle (view g j) s' \<and> sent s' (c_hosts c ! i) (serialize_data_message dm) \<and> dm_type dm = DATAMSG_TYPE \<and>
    dm_sender dm = hidw (c_hosts c) j \<and> dm_msg_id dm = to_u32 k"
proof -
  let ?H = "c_hosts c" and ?d = "Reach i k"
  have d: "?d \<in> duties ?H j (view g j)"
    using ij k running_length [OF mendingD(1) [OF m]] by (auto simp: duties_def)
  obtain l s' w where 1: "leads c envs [(j, WatchdogTurn l)] g (g[j := Inr s'])"
    "mending c envs n {(j, ?d)} (g[j := Inr s'])" "view (g[j := Inr s']) = (view g)(j := s')"
    "idle (view g j) s'" "on_duty ?H j w ?d" "watchdog_ok ?H j (view g j) w"
    "sent s' (watchdog_host w) (watchdog_bytes w)"
    by (rule mending_watchdog [OF m ij(2) d]) (use new in simp)
  obtain dm b where dm: "w = DataWatchdog dm (?H ! i) b" "dm_sender dm = hidw ?H j" "dm_msg_id dm = to_u32 k"
    using 1(5) by (cases w) auto
  have "dm_type dm = DATAMSG_TYPE" using 1(6) by (simp add: dm(1) own_data_def)
  with 1 dm show ?thesis by (intro exI [of _ l] exI [of _ s'] exI [of _ dm]) simp
qed

lemma mend_answer:
  assumes m: "mending c envs (Suc (Suc (Suc n))) {} g" and x: "(Answer, i, j, k) \<in> open_tasks (c_hosts c) (view g)"
  shows "mended c envs n g"
proof -
  let ?H = "c_hosts c" and ?d = "Reach i k"
  note r = mendingD(1) [OF m]
  have ij: "i < length g" "j < length g" "i \<noteq> j" and k: "0 \<le> k" "k < curr_msg_id (view g j)"
    and new: "\<not> answered ?H (view g j) i k"
    using x running_length [OF r] by (auto simp: open_tasks_def all_tasks_def)
  from data_resent [OF m ij k new] obtain l s1 dm where
    1: "leads c envs [(j, WatchdogTurn l)] g (g[j := Inr s1])"
    "mending c envs (Suc (Suc n)) {(j, ?d)} (g[j := Inr s1])" "view (g[j := Inr s1]) = (view g)(j := s1)"
    "idle (view g j) s1" "sent s1 (?H ! i) (serialize_data_message dm)" "dm_type dm = DATAMSG_TYPE"
    "dm_sender dm = hidw ?H j" "dm_msg_id dm = to_u32 k" by blast
  let ?g1 = "g[j := Inr s1]"
  have l1: "i < length ?g1" "j < length ?g1" using ij by simp_all
  have "arrives c envs ?g1 i (\<lambda>s'. \<exists>a \<in> set (alreadyAckedMessages s'). ack_uid a = (dm_sender dm, dm_msg_id dm) \<and>
      sent s' (?H ! j) (serialize_ack_message a))"
    using mendingD(2) [OF 1(2) l1(1)] 1(3,5,6) l1 by (intro data_arrives [OF mendingD(1) [OF 1(2)]]) simp_all
  from mending_arrives [OF 1(2) l1(1) this] obtain p s2 a where
    2: "leads c envs [(i, Receive (Some p))] ?g1 (?g1[i := Inr s2])"
    "mending c envs (Suc n) {(j, ?d)} (?g1[i := Inr s2])" "view (?g1[i := Inr s2]) = (view ?g1)(i := s2)"
    "a \<in> set (alreadyAckedMessages s2)" "ack_uid a = (dm_sender dm, dm_msg_id dm)" "sent s2 (?H ! j) (serialize_ack_message a)"
    by blast
  let ?g2 = "?g1[i := Inr s2]"
  have l2: "i < length ?g2" "j < length ?g2" using ij by simp_all
  note r2 = mendingD(1) [OF 2(2)]
  have "k \<in> int_range" using goodD(6) [OF runningD(3) [OF r ij(2)]] k by (rule msg_id_in_range)
  then have kr: "to_int (am_msg_id a) = k" using 2(5) 1(8) by (simp add: ack_uid_def)
  have "am_type a = ACKMSG_TYPE"
    using local_invD(4) [OF runningD(7) [OF r2 l2(1)]] 2(3,4) by (simp add: acked_inv_def)
  moreover have "\<not> answered ?H (view ?g2 j) i k"
    using new 1(4) ij by (simp add: 1(3) 2(3) answered_def idle_def same_core_def)
  ultimately have "arrives c envs ?g2 j (\<lambda>s'. answered ?H s' i (to_int (am_msg_id a)))"
    using mendingD(2) [OF 2(2) l2(2)] l2 2(3,6) kr by (intro ack_arrives [OF r2]) simp_all
  from mending_arrives [OF 2(2) l2(2) this, unfolded kr] obtain q s3 where
    3: "leads c envs [(j, Receive (Some q))] ?g2 (?g2[j := Inr s3])"
    "mending c envs n {(j, ?d)} (?g2[j := Inr s3])" "view (?g2[j := Inr s3]) = (view ?g2)(j := s3)" "answered ?H s3 i k"
    by blast
  have m3: "mending c envs n {} (?g2[j := Inr s3])" using 3(2) by (rule mending_closed) (simp add: 3(3,4))
  show ?thesis by (rule mendedI [OF 1(1) 2(1) 3(1) _ _ _ m3 x]) (simp_all add: 3(3,4))
qed

text \<open>Host \<open>i\<close> sends its acknowledgement again; host \<open>j\<close> answers with the final number.\<close>

lemma ack_resent:
  assumes m: "mending c envs (Suc n) {} g" and ij: "i < length g" "j < length g" "i \<noteq> j"
    and ans: "answered (c_hosts c) (view g j) i k" and new: "\<not> knows_final (c_hosts c) (view g i) j k"
  shows "\<exists>l s' a. leads c envs [(i, WatchdogTurn l)] g (g[i := Inr s']) \<and>
    mending c envs n {(i, Settle a)} (g[i := Inr s']) \<and> view (g[i := Inr s']) = (view g)(i := s') \<and>
    idle (view g i) s' \<and> sent s' (c_hosts c ! j) (serialize_ack_message a) \<and> am_type a = ACKMSG_TYPE \<and>
    ack_uid a = (hidw (c_hosts c) j, to_u32 k)"
proof -
  let ?H = "c_hosts c"
  note r = mendingD(1) [OF m]
  note ri = runningD [OF r ij(1)]
  obtain pm v where v: "map_of (ackHistory (view g j)) k = Some pm" "map_of pm (hid ?H i) = Some v"
    using ans by (auto simp: answered_def)
  have "cross ?H j (view g j) i (view g i)" using ri(2,6) ij by (simp add: group_ok_def sound_view_def)
  from crossD(4) [OF this v] obtain a where a: "a \<in> set (alreadyAckedMessages (view g i))"
    "ack_uid a = (hidw ?H j, to_u32 k)" by blast
  let ?d = "Settle a"
  have d: "?d \<in> duties ?H i (view g i)" using a(1) by (simp add: duties_def)
  obtain l s' w where 1: "leads c envs [(i, WatchdogTurn l)] g (g[i := Inr s'])"
    "mending c envs n {(i, ?d)} (g[i := Inr s'])" "view (g[i := Inr s']) = (view g)(i := s')"
    "idle (view g i) s'" "on_duty ?H i w ?d" "watchdog_ok ?H i (view g i) w"
    "sent s' (watchdog_host w) (watchdog_bytes w)"
    by (rule mending_watchdog [OF m ij(1) d]) (use new a(2) in \<open>simp add: knows_final_def\<close>)
  obtain h b where w: "w = AckWatchdog a h b" using 1(5) by (cases w) auto
  then obtain j' where "j' < length ?H" "h = ?H ! j'" "am_sender a = hidw ?H j'" using 1(6) by auto
  moreover have "am_sender a = hidw ?H j" using a(2) by (simp add: ack_uid_def)
  ultimately have "h = ?H ! j" using ij(2) ri(6) goodD(7) [OF ri(3)] by (metis hidw_inject)
  moreover have "am_type a = ACKMSG_TYPE" using local_invD(4) [OF ri(7)] a(1) by (simp add: acked_inv_def)
  ultimately show ?thesis using 1 a(2) w by (intro exI [of _ l] exI [of _ s'] exI [of _ a]) simp
qed

lemma mend_finish:
  assumes m: "mending c envs (Suc (Suc (Suc n))) {} g" and x: "(Finish, i, j, k) \<in> open_tasks (c_hosts c) (view g)"
    and all: "\<And>i. i < length g \<Longrightarrow> i \<noteq> j \<Longrightarrow> answered (c_hosts c) (view g j) i k"
  shows "mended c envs n g"
proof -
  let ?H = "c_hosts c"
  note r = mendingD(1) [OF m]
  have ij: "i < length g" "j < length g" "i \<noteq> j" and k: "0 \<le> k" "k < curr_msg_id (view g j)"
    and new: "\<not> knows_final ?H (view g i) j k"
    using x running_length [OF r] by (auto simp: open_tasks_def all_tasks_def)
  obtain pm where pm: "map_of (ackHistory (view g j)) k = Some pm" "length pm = length ?H"
    using all_answered(1) [OF r ij(2) k all] by blast
  from ack_resent [OF m ij all [OF ij(1,3)] new] obtain l s1 a where
    1: "leads c envs [(i, WatchdogTurn l)] g (g[i := Inr s1])"
    "mending c envs (Suc (Suc n)) {(i, Settle a)} (g[i := Inr s1])" "view (g[i := Inr s1]) = (view g)(i := s1)"
    "idle (view g i) s1" "sent s1 (?H ! j) (serialize_ack_message a)" "am_type a = ACKMSG_TYPE"
    "ack_uid a = (hidw ?H j, to_u32 k)" by blast
  let ?g1 = "g[i := Inr s1]"
  have l1: "i < length ?g1" "j < length ?g1" using ij by simp_all
  have "k \<in> int_range" using goodD(6) [OF runningD(3) [OF r ij(2)]] k by (rule msg_id_in_range)
  then have kr: "to_int (am_msg_id a) = k" using 1(7) by (simp add: ack_uid_def)
  have vj: "view ?g1 j = view g j" using ij(3) by (simp add: 1(3))
  have "arrives c envs ?g1 j (\<lambda>s'. \<exists>sm \<in> set (seqMessageHistory s'). seq_uid sm = ack_uid a \<and>
      sent s' (?H ! i) (serialize_seq_message sm))"
    using l1 mendingD(2) [OF 1(2) l1(2)] all [OF ij(1,3)] pm 1(3,5,6) ij(3)
    by (intro ack_again_arrives [OF mendingD(1) [OF 1(2)]]) (simp_all add: kr vj)
  from mending_arrives [OF 1(2) l1(2) this] obtain p s2 sm where
    2: "leads c envs [(j, Receive (Some p))] ?g1 (?g1[j := Inr s2])"
    "mending c envs (Suc n) {(i, Settle a)} (?g1[j := Inr s2])" "view (?g1[j := Inr s2]) = (view ?g1)(j := s2)"
    "sm \<in> set (seqMessageHistory s2)" "seq_uid sm = ack_uid a" "sent s2 (?H ! i) (serialize_seq_message sm)"
    by blast
  let ?g2 = "?g1[j := Inr s2]"
  have l2: "i < length ?g2" "j < length ?g2" using ij by simp_all
  note r2 = mendingD(1) [OF 2(2)]
  have "sm_type sm = SEQMSG_TYPE"
    using local_invD(6) [OF runningD(7) [OF r2 l2(2)]] 2(3,4) by (simp add: seq_inv_def)
  moreover have "seq_uid sm \<notin> seq_uid ` set (seqMessageHistory (view ?g2 i))"
    using new 1(4,7) ij by (simp add: 1(3) 2(3,5) knows_final_def idle_def same_core_def)
  ultimately have "arrives c envs ?g2 i (\<lambda>s'. sm \<in> set (seqMessageHistory s'))"
    using l2 2(3,6) by (intro seq_arrives [where j = j, OF r2]) simp_all
  from mending_arrives [OF 2(2) l2(1) this] obtain q s3 where
    3: "leads c envs [(i, Receive (Some q))] ?g2 (?g2[i := Inr s3])"
    "mending c envs n {(i, Settle a)} (?g2[i := Inr s3])" "view (?g2[i := Inr s3]) = (view ?g2)(i := s3)"
    "sm \<in> set (seqMessageHistory s3)" by blast
  have known: "(hidw ?H j, to_u32 k) \<in> seq_uid ` set (seqMessageHistory s3)"
    using 3(4) 2(5) 1(7) by (metis image_eqI)
  have m3: "mending c envs n {} (?g2[i := Inr s3])" using 3(2) by (rule mending_closed) (simp add: 3(3) 1(7) known)
  show ?thesis by (rule mendedI [OF 1(1) 2(1) 3(1) _ _ _ m3 x]) (simp_all add: 3(3) knows_final_def known)
qed

section \<open>All losses are repaired\<close>

text \<open>An acknowledgement that has been recorded was given.\<close>

lemma answered_acked:
  assumes r: "running c n g" and ij: "i < length g" "j < length g" "i \<noteq> j" and ans: "answered (c_hosts c) (view g j) i k"
  shows "acked_by (c_hosts c) (view g i) j k"
proof -
  let ?H = "c_hosts c"
  note ri = runningD [OF r ij(1)]
  obtain pm v where v: "map_of (ackHistory (view g j)) k = Some pm" "map_of pm (hid ?H i) = Some v"
    using ans by (auto simp: answered_def)
  have "cross ?H j (view g j) i (view g i)" using ri(2,6) ij by (simp add: group_ok_def sound_view_def)
  from crossD(4) [OF this v] show ?thesis unfolding acked_by_def by force
qed

definition mendable :: "config \<Rightarrow> (nat \<Rightarrow> env) \<Rightarrow> group \<Rightarrow> bool" where
  "mendable c envs g \<longleftrightarrow> mending c envs (3 * card (open_tasks (c_hosts c) (view g))) {} g"

lemma mending_less: "mending c envs n E g \<Longrightarrow> m \<le> n \<Longrightarrow> mending c envs m E g"
  using running_less by (auto simp: mending_def)

lemma some_mended:
  assumes m: "mending c envs (Suc (Suc (Suc n))) {} g" and x: "open_tasks (c_hosts c) (view g) \<noteq> {}"
  shows "mended c envs n g"
proof -
  let ?H = "c_hosts c" and ?O = "open_tasks (c_hosts c) (view g)"
  note r = mendingD(1) [OF m]
  have len: "length g = length ?H" using r by (rule running_length)
  show ?thesis
  proof (cases "\<exists>i j k. (Answer, i, j, k) \<in> ?O")
    case True
    with mend_answer [OF m] show ?thesis by blast
  next
    case False
    obtain t i j k where tx: "(t, i, j, k) \<in> ?O" using x by auto
    then have ij: "i < length g" "j < length g" "i \<noteq> j" "0 \<le> k" "k < curr_msg_id (view g j)"
      by (auto simp: open_tasks_def all_tasks_def len)
    have ans: "answered ?H (view g j) i' k" if "i' < length g" "i' \<noteq> j" for i'
      using False that ij by (auto simp: open_tasks_def all_tasks_def len)
    have "t = Finish"
    proof (cases t)
      case Acknowledge
      with tx answered_acked [OF r ij(1-3) ans [OF ij(1,3)]] show ?thesis by (simp add: open_tasks_def)
    qed (use tx False in auto)
    with tx have fin: "(Finish, i, j, k) \<in> ?O" by simp
    show ?thesis by (rule mend_finish [OF m fin ans])
  qed
qed

lemma mend_group:
  assumes g: "mendable c envs g" and x: "open_tasks (c_hosts c) (view g) \<noteq> {}"
  shows "\<exists>es h. list_all repairs es \<and> length es \<le> 3 \<and> run envs es g = Some h \<and> mendable c envs h \<and>
    sent_counts h = sent_counts g \<and> open_tasks (c_hosts c) (view h) \<subset> open_tasks (c_hosts c) (view g)"
proof -
  let ?O = "\<lambda>g. open_tasks (c_hosts c) (view g)"
  obtain k where k: "card (?O g) = Suc k" using x finite_open_tasks by (metis card_gt_0_iff gr0_implies_Suc)
  have "3 * Suc k = Suc (Suc (Suc (3 * k)))" by simp
  then have "mending c envs (Suc (Suc (Suc (3 * k)))) {} g" using g unfolding mendable_def k by (simp only:)
  from some_mended [OF this x] obtain es h where h: "list_all repairs es" "length es \<le> 3" "leads c envs es g h"
    "mending c envs (3 * k) {} h" "?O h \<subset> ?O g" unfolding mended_def by blast
  have "card (?O h) \<le> k" using psubset_card_mono [OF finite_open_tasks h(5)] k by simp
  then have "mendable c envs h" unfolding mendable_def by (intro mending_less [OF h(4)]) simp
  with h show ?thesis by (intro exI [of _ es] exI [of _ h]) (simp add: leads_def)
qed

interpretation watchdogs_and_receivers:
  server "\<lambda>ess. run envs (concat ess)" "mendable c envs" "\<lambda>g. open_tasks (c_hosts c) (view g)" sent_counts
    "\<lambda>es. list_all repairs es \<and> length es \<le> 3" for c envs
proof
  fix es t ess s
  assume "run envs (concat [es]) s = Some t"
  then show "run envs (concat (es # ess)) s = run envs (concat ess) t" by (simp add: run_append)
next
  fix g assume "mendable c envs g" "open_tasks (c_hosts c) (view g) \<noteq> {}"
  from mend_group [OF this] show "\<exists>es t. (list_all repairs es \<and> length es \<le> 3) \<and> run envs (concat [es]) g = Some t \<and>
      mendable c envs t \<and> sent_counts t = sent_counts g \<and>
      open_tasks (c_hosts c) (view t) \<subset> open_tasks (c_hosts c) (view g)" by simp
qed (simp_all add: finite_open_tasks)

lemma concat_repairs:
  "list_all (\<lambda>es. list_all repairs es \<and> length es \<le> 3) ess \<Longrightarrow>
   list_all repairs (concat ess) \<and> length (concat ess) \<le> 3 * length ess"
  by (induction ess) auto

text \<open>
  C10. Losses are repaired. Let a group of at least two hosts reach, over a network that drops what it
  likes, a state in which all processes run and no watchdog has given up. As soon as nothing is lost
  any more, a sequence of turns of watchdogs and receivers, at most nine for every message and pair of
  hosts, ends with every queue empty and every message that has been multicast delivered exactly once
  by every process, provided that every live watchdog has an attempt left and the counters have room.
  The oracles \<open>lossy\<close> answer in the first phase and are arbitrary, \<open>envs\<close> answer in the second.
\<close>

theorem losses_are_repaired:
  assumes "config_ok c" "2 \<le> length (c_hosts c)"
    and "reach (\<lambda>h. h = initial_group c) (patient_step lossy) g"
    and "\<forall>i. no_loss (envs i) (c_drop_rate c i)"
    and "N = 9 * length (c_hosts c) * messages_sent (c_hosts c) (view g)"
    and "\<forall>i < length g. \<exists>s. g ! i = Inr s \<and> recv_cap s + int N \<le> RECV_CAP \<and> curr_seq_number s + int N \<le> INT_MAX \<and>
      (\<forall>w \<in> set (watchdogs s). attempts w < WATCHDOG_RESEND_CAP)"
  shows "\<exists>sched h. run envs sched g = Some h \<and> length sched \<le> N \<and> list_all repairs sched \<and>
    (\<forall>i < length h. \<exists>s. h ! i = Inr s \<and> deliveryQueue s = [] \<and>
       distinct (map uid (deliveredMessage s)) \<and> uid ` set (deliveredMessage s) = all_uids c g)"
proof -
  let ?n = "card (open_tasks (c_hosts c) (view g))"
  have n: "3 * ?n \<le> N" using card_open_tasks [of "c_hosts c" "view g"] assms(5) by simp
  have t: "group_tended c g"
    using tended_inv.always [where c = c and envs = lossy and s = g] assms(1,3) by simp
  have "running c N g" using t assms(2,6) by (auto simp: running_def room_def group_tended_def)
  then have r: "running c (3 * ?n) g" using n by (rule running_less)
  have "guarded WATCHDOG_RESEND_CAP (c_hosts c) i (view g i) d \<and> drop_rate (view g i) = c_drop_rate c i"
    if i: "i < length g" and d: "d \<in> duties (c_hosts c) i (view g i)" for i d
    using t i d assms(6) runningD(1) [OF r i] by (fastforce simp: group_tended_def on_guard_def guarded_def)
  moreover have "drop_rate (view g i) = c_drop_rate c i" if "i < length g" for i
    using t that runningD(1) [OF r that] by (simp add: group_tended_def)
  ultimately have "mendable c envs g" using r assms(4) by (simp add: mendable_def mending_def)
  from watchdogs_and_receivers.finishes [OF this] obtain ess h where
    h: "run envs (concat ess) g = Some h" "mendable c envs h" "open_tasks (c_hosts c) (view h) = {}"
      "sent_counts h = sent_counts g" "length ess \<le> ?n" "list_all (\<lambda>es. list_all repairs es \<and> length es \<le> 3) ess"
    by blast
  have "running c (3 * card (open_tasks (c_hosts c) (view h))) h" using h(2) by (simp add: mendable_def mendingD(1))
  from all_delivered [OF this h(3,4)] h(1,5) concat_repairs [OF h(6)] n show ?thesis
    by (intro exI [of _ "concat ess"] exI [of _ h]) simp
qed

lemma run_length: "run envs sched g = Some h \<Longrightarrow> length h = length g"
  by (induction envs sched g rule: run.induct) (auto split: if_splits sum.splits)

text \<open>Half of the messages are to be dropped, and the first one is; after that the dice are kinder.\<close>

definition lossy_config :: config where
  "lossy_config = demo_config\<lparr>c_drop_rate := (\<lambda>i. 1 / 2)\<rparr>"

definition lossy_env :: env where
  "lossy_env = demo_env\<lparr>rand_draw := (\<lambda>k. 0)\<rparr>"

definition calm_env :: env where
  "calm_env = demo_env\<lparr>rand_draw := (\<lambda>k. RAND_MAX)\<rparr>"

definition lossy_start :: group where
  "lossy_start = [Inr (initial_process lossy_config 0), Inr (initial_process lossy_config 1)]"

lemma lossy_start: "initial_group lossy_config = lossy_start"
  by (simp add: initial_group_def lossy_start_def lossy_config_def demo_config_def upt_rec)

lemma lossy_run:
  "map_option (\<lambda>g. (map (\<lambda>r. (case r of Inl x \<Rightarrow> True | Inr s \<Rightarrow> False, curr_msg_id (state_of r), recv_cap (state_of r),
       curr_seq_number (state_of r), map attempts (watchdogs (state_of r)))) g, wire g))
     (run (\<lambda>i. lossy_env) [(0, Multicast 7)] lossy_start) =
   Some ([(False, 1, 1, 2, [0]), (False, 0, 1, 1, [])], [])"
  by code_simp

lemma calm_no_loss: "no_loss calm_env (c_drop_rate lossy_config i)"
  by (simp add: no_loss_def calm_env_def lossy_config_def demo_env_def RAND_MAX_def)

theorem losses_are_repaired_witness:
  "\<exists>g sched h. reach (\<lambda>h. h = initial_group lossy_config) (patient_step (\<lambda>i. lossy_env)) g \<and> wire g = [] \<and>
     run (\<lambda>i. calm_env) sched g = Some h \<and> length sched \<le> 18 \<and>
     uid ` set (deliveredMessage (state_of (h ! 1))) = {(1, 0)}"
proof -
  obtain g where g: "run (\<lambda>i. lossy_env) [(0, Multicast 7)] lossy_start = Some g" "wire g = []"
    "map (\<lambda>r. (case r of Inl x \<Rightarrow> True | Inr s \<Rightarrow> False, curr_msg_id (state_of r), recv_cap (state_of r),
       curr_seq_number (state_of r), map attempts (watchdogs (state_of r)))) g =
     [(False, 1, 1, 2, [0]), (False, 0, 1, 1, [])]" using lossy_run by auto
  then obtain r0 r1 where rs: "g = [r0, r1]" by auto
  with g(3) obtain s0 s1 where s: "r0 = Inr s0" "r1 = Inr s1" by (auto split: sum.splits)
  have two: "length (c_hosts lossy_config) = 2" by (simp add: lossy_config_def demo_config_def)
  have N: "9 * length (c_hosts lossy_config) * messages_sent (c_hosts lossy_config) (view g) = 18"
    using g(3) rs s by (simp add: two messages_sent_def view_def lessThan_Suc numeral_2_eq_2)
  have "patient_step (\<lambda>i. lossy_env) lossy_start g"
    using g(1) patient_turn [of 0 lossy_start "initial_process lossy_config 0" "Multicast 7" "\<lambda>i. lossy_env"]
    by (simp add: lossy_start_def)
  then have r: "reach (\<lambda>h. h = initial_group lossy_config) (patient_step (\<lambda>i. lossy_env)) g"
    by (intro reach_step [OF reach_start]) (simp_all add: lossy_start)
  have ok: "config_ok lossy_config" using demo_config_ok by (simp add: lossy_config_def config_ok_def)
  have "\<forall>i < length g. \<exists>s. g ! i = Inr s \<and> recv_cap s + int 18 \<le> RECV_CAP \<and> curr_seq_number s + int 18 \<le> INT_MAX \<and>
      (\<forall>w \<in> set (watchdogs s). attempts w < WATCHDOG_RESEND_CAP)"
    using g(3) rs s by (auto simp: less_Suc_eq RECV_CAP_def INT_MAX_def WATCHDOG_RESEND_CAP_def)
  from losses_are_repaired [OF ok _ r _ N [symmetric] this, of "\<lambda>i. calm_env"]
  obtain sched h where h: "run (\<lambda>i. calm_env) sched g = Some h" "length sched \<le> 18"
    "\<forall>i < length h. \<exists>s. h ! i = Inr s \<and> deliveryQueue s = [] \<and>
       distinct (map uid (deliveredMessage s)) \<and> uid ` set (deliveredMessage s) = all_uids lossy_config g"
    using calm_no_loss two by auto
  have "length h = 2" using run_length [OF h(1)] rs by simp
  then obtain s where st: "h ! 1 = Inr s" "uid ` set (deliveredMessage s) = all_uids lossy_config g"
    using h(3) by (metis one_less_numeral_iff semiring_norm(76))
  have "hidw (c_hosts lossy_config) 0 = 1" by code_simp
  moreover have "{0..<(1::int)} = {0}" by auto
  ultimately have "all_uids lossy_config g = {(1, 0)}"
    using g(3) rs s by (simp add: all_uids_def view_def lessThan_Suc to_u32_def)
  with st r g(2) h(1,2) show ?thesis by (intro exI [of _ g] exI [of _ sched] exI [of _ h]) simp
qed

end
