(* ===== verification/Errors.thy ===== *)
theory Errors
  imports HandlerFacts
begin

text \<open>
  When the process exits. The handlers call \<open>exit\<close> from many places; this theory says, for an
  arbitrary state and environment, exactly which datagrams and which results of the system calls end
  the process and with which reason, and what it has done by then. The collection \<open>exits\<close> holds one
  equation per operation.
\<close>

named_theorems exits \<open>the reason for which an operation ends the process, if it does\<close>

section \<open>The table\<close>

definition exit_of :: "(exit_reason \<times> rm) + 'a \<Rightarrow> exit_reason option" where
  "exit_of r = (case r of Inl (x, s) \<Rightarrow> Some x | Inr y \<Rightarrow> None)"

text \<open>
  The \<open>t\<close>-th question to the environment is a \<open>sendto\<close> that is not dropped on purpose and fails.
\<close>

definition dropped :: "env \<Rightarrow> rat \<Rightarrow> nat \<Rightarrow> bool" where
  "dropped e rate t \<longleftrightarrow> of_int (rand_draw e t) / of_int RAND_MAX < rate"

definition send_fails :: "env \<Rightarrow> rat \<Rightarrow> nat \<Rightarrow> bool" where
  "send_fails e rate t \<longleftrightarrow> \<not> dropped e rate t \<and> sendto_rv e t = - 1"

definition other_hosts :: "rm \<Rightarrow> string list" where
  "other_hosts s = filter (\<lambda>h. h \<noteq> current_container_name s) (take (nat (num_hosts s)) (hostNames s))"

text \<open>One of the \<open>n\<close> sends from question \<open>t\<close> on fails.\<close>

definition some_send_fails :: "env \<Rightarrow> rat \<Rightarrow> nat \<Rightarrow> nat \<Rightarrow> bool" where
  "some_send_fails e rate t n \<longleftrightarrow> list_ex (send_fails e rate) [t..<t + n]"

definition proposals :: "rm \<Rightarrow> u32 \<Rightarrow> ProposerSeq" where
  "proposals s k = (case map_of (ackHistory s) (to_int k) of None \<Rightarrow> [] | Some pm \<Rightarrow> pm)"

text \<open>
  The table for a datagram: its fields, what the process has recorded about the message they
  name, and whether the sends that are due go through.
\<close>

definition data_exit :: "env \<Rightarrow> DataMessage \<Rightarrow> rm \<Rightarrow> exit_reason option" where
  "data_exit e dm s =
     (if (dm_sender dm, dm_msg_id dm) \<in> ack_uid ` set (alreadyAckedMessages s) then None
      else if curr_seq_number s = INT_MAX then Some SignedOverflow else None)"

definition ack_exit :: "env \<Rightarrow> AckMessage \<Rightarrow> rm \<Rightarrow> exit_reason option" where
  "ack_exit e am s =
     (let pm = proposals s (am_msg_id am) in
      if map_of pm (to_int (am_proposer am)) = None
      then if curr_seq_number s = INT_MAX then Some SignedOverflow
           else if int (length pm) + 1 = num_hosts s \<and> some_send_fails e (drop_rate s) (ticks s) (length (other_hosts s))
           then Some SendFailed else None
      else if int (length pm) = num_hosts s
      then if (am_sender am, am_msg_id am) \<notin> seq_uid ` set (seqMessageHistory s)
           then Some SeqMsgNotInHistory
           else if some_send_fails e (drop_rate s) (ticks s) 1 then Some SendFailed else None
      else None)"

definition seq_exit :: "SeqMessage \<Rightarrow> rm \<Rightarrow> exit_reason option" where
  "seq_exit sm s =
     (if (sm_sender sm, sm_msg_id sm) \<in> uid ` (set (deliveryQueue s) \<union> set (deliveredMessage s)) then None
      else Some UnknownSeqMessage)"

definition datagram_exit :: "env \<Rightarrow> u8 list \<Rightarrow> rm \<Rightarrow> exit_reason option" where
  "datagram_exit e buf s =
     (let type = unpacku32 buf 0 in
      if type = 1 then data_exit e (deserialize_data_message buf) s
      else if type = 2 then ack_exit e (deserialize_ack_message buf) s
      else if type = 3 then seq_exit (deserialize_seq_message buf) s
      else Some (WrongType type))"

definition receiver_exit :: "env \<Rightarrow> packet option \<Rightarrow> rm \<Rightarrow> exit_reason option" where
  "receiver_exit e received s =
     (if RECV_CAP \<le> recv_cap s then None
      else case received of
        None \<Rightarrow> Some RecvFailed
      | Some p \<Rightarrow>
          let n = min (length (p_payload p)) (MAX_MSG_SIZE - 1) in
          if length (msg_buf s) < n then Some BufferOverflow
          else datagram_exit e (take n (p_payload p) @ drop n (msg_buf s)) s)"

section \<open>Sending\<close>

lemma exit_of_simps [simp]: "exit_of (Inl (x, s)) = Some x" "exit_of (Inr y) = None"
  by (simp_all add: exit_of_def)

lemma exit_of_Some: "exit_of r = Some x \<longleftrightarrow> (\<exists>s. r = Inl (x, s))"
  by (auto simp: exit_of_def split: sum.splits)

lemma transmit_fails:
  assumes "transmit e dst pkt s = (rv, s')"
  shows "rv = - 1 \<longleftrightarrow> send_fails e (drop_rate s) (ticks s)"
    and "ticks s' = Suc (ticks s)" "drop_rate s' = drop_rate s"
    and "deliveredMessage s' = deliveredMessage s" "current_container_name s' = current_container_name s"
  using assms
  by (auto simp: transmit_def send_fails_def dropped_def random_uniform_from_0_to_1_def record_outbound_def
      Let_def split: if_splits)

lemma some_send_fails_0 [simp]: "\<not> some_send_fails e rate t 0"
  by (simp add: some_send_fails_def)

lemma some_send_fails_Suc [simp]:
  "some_send_fails e rate t (Suc n) \<longleftrightarrow> send_fails e rate t \<or> some_send_fails e rate (Suc t) n"
  by (simp add: some_send_fails_def upt_conv_Cons del: upt_Suc)

lemma broadcast_loop_exit [exits]:
  "exit_of (broadcast_loop e pkt hs s) =
    (if some_send_fails e (drop_rate s) (ticks s) (length (filter (\<lambda>h. h \<noteq> current_container_name s) hs))
     then Some SendFailed else None)"
proof (induction hs arbitrary: s)
  case Nil
  show ?case by simp
next
  case (Cons h hs)
  show ?case
  proof (cases "h = current_container_name s")
    case True
    with Cons show ?thesis by simp
  next
    case False
    obtain rv s' where t: "transmit e h pkt s = (rv, s')" by fastforce
    note tf = transmit_fails [OF t]
    from Cons.IH [of s'] have "exit_of (broadcast_loop e pkt hs s') =
        (if some_send_fails e (drop_rate s) (Suc (ticks s))
              (length (filter (\<lambda>h. h \<noteq> current_container_name s) hs)) then Some SendFailed else None)"
      by (simp only: tf(2,3,5))
    with False t tf(1) show ?thesis
      by (cases "rv = - 1") (simp_all add: send_msg_with_drop_and_delay_def)
  qed
qed

lemma broadcast_loop_delivers_nothing:
  "broadcast_loop e pkt hs s = Inl (x, s') \<Longrightarrow> deliveredMessage s' = deliveredMessage s"
proof (induction hs arbitrary: s)
  case (Cons h hs)
  obtain rv s1 where t: "transmit e h pkt s = (rv, s1)" by fastforce
  show ?case
    using Cons.prems Cons.IH [of s1] transmit_fails(4) [OF t] Cons.IH [of s]
    by (auto simp: send_msg_with_drop_and_delay_def t split: if_splits)
qed simp

section \<open>The handlers\<close>

lemma data_exit [exits]: "exit_of (handle_datamsg e dm s) = data_exit e dm s"
proof (cases "find (\<lambda>am. am_sender am = dm_sender dm \<and> am_msg_id am = dm_msg_id dm) (alreadyAckedMessages s)")
  case None
  then have "(dm_sender dm, dm_msg_id dm) \<notin> ack_uid ` set (alreadyAckedMessages s)"
    by (rule new_ack_fresh)
  with None show ?thesis
    by (auto simp: handle_datamsg_def data_exit_def Let_def incr_seq_number_def incr_int_def
        reply_msg_with_drop_and_delay_def push_queue_def transmit_def record_outbound_def
        split: option.splits prod.splits if_splits)
next
  case (Some am)
  then have "(dm_sender dm, dm_msg_id dm) \<in> ack_uid ` set (alreadyAckedMessages s)"
    by (force dest: find_Some_memD simp: ack_uid_def)
  with Some show ?thesis by (simp add: handle_datamsg_def data_exit_def)
qed

lemma length_insert_fresh: "map_of m k = None \<Longrightarrow> length (map_insert k v m) = Suc (length m)"
  by (induction k v m rule: map_insert.induct) (auto split: if_splits)

lemma finalize_exit [exits]:
  "exit_of (finalize_message e am pm s) =
    (if some_send_fails e (drop_rate s) (ticks s) (length (other_hosts s)) then Some SendFailed else None)"
proof -
  obtain q p where m: "get_max_sequence_from_proposerseq_map pm = (q, p)" by fastforce
  let ?sm = "make_seq_msg (am_sender am) (am_msg_id am) q p"
  let ?s1 = "s\<lparr>seqMessageHistory := seqMessageHistory s @ [?sm]\<rparr>"
  have "exit_of (finalize_message e am pm s) = exit_of (broadcast_seq_msg e ?sm ?s1)"
    by (simp add: finalize_message_def m Let_def exit_of_def split: sum.split prod.split)
  also have "\<dots> = (if some_send_fails e (drop_rate s) (ticks s) (length (other_hosts s))
      then Some SendFailed else None)"
    by (simp add: broadcast_seq_msg_def broadcast_loop_exit other_hosts_def)
  finally show ?thesis .
qed

lemma resend_exit [exits]:
  "exit_of (resend_seq_msg e am s) =
    (if (am_sender am, am_msg_id am) \<notin> seq_uid ` set (seqMessageHistory s) then Some SeqMsgNotInHistory
     else if some_send_fails e (drop_rate s) (ticks s) 1 then Some SendFailed else None)"
proof (cases "find (\<lambda>sm. sm_msg_id sm = am_msg_id am \<and> sm_sender sm = am_sender am) (seqMessageHistory s)")
  case None
  then have "(am_sender am, am_msg_id am) \<notin> seq_uid ` set (seqMessageHistory s)"
    by (auto simp: find_None_iff seq_uid_def)
  with None show ?thesis by (simp add: resend_seq_msg_def)
next
  case (Some sm)
  then have "(am_sender am, am_msg_id am) \<in> seq_uid ` set (seqMessageHistory s)"
    by (force dest: find_Some_memD simp: seq_uid_def)
  moreover obtain rv s' where t: "transmit e (their_addr s) (serialize_seq_message sm (uninit_packet e s)) s = (rv, s')"
    by fastforce
  ultimately show ?thesis using Some transmit_fails(1) [OF t]
    by (simp add: resend_seq_msg_def reply_msg_with_drop_and_delay_def)
qed

lemma ack_exit [exits]: "exit_of (handle_ackmsg e am s) = ack_exit e am s"
proof -
  let ?k = "to_int (am_msg_id am)" and ?p = "to_int (am_proposer am)"
  obtain hist where sub: "subscript [] (ackHistory s) ?k = (hist, proposals s (am_msg_id am))"
    by (cases "map_of (ackHistory s) ?k") (simp_all add: subscript_def proposals_def)
  let ?pm = "proposals s (am_msg_id am)"
  have same: "other_hosts (s\<lparr>curr_seq_number := n, ackHistory := a\<rparr>) = other_hosts s" for a n
    by (simp add: other_hosts_def)
  show ?thesis
  proof (cases "map_of ?pm ?p = None")
    case True
    then have "length (map_insert ?p v ?pm) = Suc (length ?pm)" for v by (rule length_insert_fresh)
    with True sub same show ?thesis
      by (simp add: handle_ackmsg_def ack_exit_def Let_def map_count_zero incr_seq_number_def incr_int_def
          finalize_exit add.commute)
  next
    case False
    then obtain y where "map_of ?pm ?p = Some y" by blast
    moreover have "other_hosts (s\<lparr>ackHistory := hist\<rparr>) = other_hosts s" by (simp add: other_hosts_def)
    ultimately show ?thesis using sub
      by (simp add: handle_ackmsg_def ack_exit_def Let_def map_count_def resend_exit)
  qed
qed

lemma seq_exit [exits]: "exit_of (handle_seqmsg e sm s) = seq_exit sm s"
proof (cases "(sm_sender sm, sm_msg_id sm) \<in> uid ` set (deliveryQueue s)")
  case True
  then have "set_first_match (is_msg (sm_sender sm) (sm_msg_id sm)) f (deliveryQueue s) \<noteq> None" for f
    by (auto simp: set_first_match_None is_msg_uid)
  then have "fst (change_queued_msg_seq_and_status (sm_sender sm) (sm_msg_id sm) n p st (deliveryQueue s)) = 0" for n p st
    by (auto simp: change_queued_msg_seq_and_status_def split: option.split)
  then have "exit_of (handle_seqmsg e sm s) = None"
    by (auto simp: handle_seqmsg_def Let_def split: prod.split) (metis fst_conv zero_neq_neg_one)
  moreover have "seq_exit sm s = None" using True unfolding seq_exit_def by (simp add: image_Un)
  ultimately show ?thesis by simp
next
  case False
  then show ?thesis
    by (auto simp: handle_seqmsg_def seq_exit_def change_not_found Let_def list_ex_iff is_msg_uid image_Un)
      (metis image_eqI)
qed

lemma dispatch_exit [exits]: "exit_of (dispatch e s) = datagram_exit e (msg_buf s) s"
  by (simp add: dispatch_def datagram_exit_def Let_def exits DATAMSG_TYPE_def ACKMSG_TYPE_def SEQMSG_TYPE_def)

text \<open>What the table looks at is untouched by the recording of the datagram.\<close>

lemma record_inbound_snapshot: "\<exists>sn. record_inbound s = s\<lparr>snapshot := sn\<rparr>"
  by (auto simp: record_inbound_def intro: exI [of _ "snapshot s"])

lemma datagram_exit_recorded:
  "datagram_exit e buf (record_inbound (s\<lparr>msg_buf := b, their_addr := a\<rparr>)) = datagram_exit e buf s"
proof -
  obtain sn where r: "record_inbound (s\<lparr>msg_buf := b, their_addr := a\<rparr>) =
      s\<lparr>msg_buf := b, their_addr := a, snapshot := sn\<rparr>" using record_inbound_snapshot by blast
  have "data_exit e dm (s\<lparr>msg_buf := b, their_addr := a, snapshot := sn\<rparr>) = data_exit e dm s"
    "ack_exit e am (s\<lparr>msg_buf := b, their_addr := a, snapshot := sn\<rparr>) = ack_exit e am s"
    "seq_exit sm (s\<lparr>msg_buf := b, their_addr := a, snapshot := sn\<rparr>) = seq_exit sm s" for dm am sm
    unfolding data_exit_def ack_exit_def seq_exit_def proposals_def other_hosts_def Let_def by simp_all
  then show ?thesis by (simp add: r datagram_exit_def Let_def)
qed

section \<open>No delivery before an exit\<close>

lemma ack_exit_delivers_nothing:
  "handle_ackmsg e am s = Inl (x, s') \<Longrightarrow> deliveredMessage s' = deliveredMessage s"
  by (auto simp: handle_ackmsg_def subscript_def Let_def incr_seq_number_def incr_int_def
      finalize_message_def broadcast_seq_msg_def resend_seq_msg_def reply_msg_with_drop_and_delay_def
      dest!: broadcast_loop_delivers_nothing dest: transmit_fails(4)
      split: option.splits if_splits prod.splits sum.splits)

lemma data_exit_delivers_nothing:
  "handle_datamsg e dm s = Inl (x, s') \<Longrightarrow> deliveredMessage s' = deliveredMessage s"
  by (auto simp: handle_datamsg_def subscript_def Let_def incr_seq_number_def incr_int_def push_queue_def
      reply_msg_with_drop_and_delay_def transmit_def record_outbound_def split: option.splits if_splits prod.splits)

lemma seq_exit_delivers_nothing:
  "handle_seqmsg e sm s = Inl (x, s') \<Longrightarrow> deliveredMessage s' = deliveredMessage s"
  by (auto simp: handle_seqmsg_def Let_def split: if_splits prod.splits)

lemma dispatch_delivers_nothing:
  "dispatch e s = Inl (x, s') \<Longrightarrow> deliveredMessage s' = deliveredMessage s"
  by (auto simp: dispatch_def Let_def split: if_splits dest: ack_exit_delivers_nothing
      data_exit_delivers_nothing seq_exit_delivers_nothing)

text \<open>
  C23. A turn of the receiver ends the process exactly in the cases of the table, whatever the state,
  the datagram and the environment: a failed \<open>recvfrom\<close>; a datagram longer than the buffer; a type
  other than 1, 2 and 3; a new data message or a new proposal while the counter is at \<open>INT_MAX\<close>; the
  last missing proposal while one of the sends to the other hosts fails; a repeated proposal for a
  complete history whose final number is not recorded, or cannot be sent; a final number for a message
  that is neither queued nor delivered. A turn that ends the process has delivered nothing.
\<close>

theorem receiver_exits:
  "exit_of (msg_receiver_turn e received s) = receiver_exit e received s \<and>
   (case msg_receiver_turn e received s of
      Inl (x, s') \<Rightarrow> deliveredMessage s' = deliveredMessage s | Inr s' \<Rightarrow> True)"
proof (cases received)
  case None
  then show ?thesis by (simp add: msg_receiver_turn_def receiver_exit_def)
next
  case (Some p)
  show ?thesis
  proof (cases "recv_into (msg_buf s) (p_payload p)")
    case None
    with Some show ?thesis by (auto simp: msg_receiver_turn_def receiver_exit_def recv_into_def Let_def split: if_splits)
  next
    case buf: (Some buf)
    let ?s = "record_inbound (s\<lparr>msg_buf := buf, their_addr := p_src p\<rparr>)"
    have b: "msg_buf ?s = buf" "deliveredMessage ?s = deliveredMessage s" by (simp_all add: record_inbound_def)
    have turn: "msg_receiver_turn e received s =
        (if recv_cap s < RECV_CAP then case dispatch e ?s of Inl err \<Rightarrow> Inl err
           | Inr s1 \<Rightarrow> Inr (s1\<lparr>recv_cap := recv_cap s1 + 1\<rparr>) else Inr s)"
      by (simp add: msg_receiver_turn_def Some buf)
    have "exit_of (dispatch e ?s) = datagram_exit e buf s"
      by (simp add: dispatch_exit b(1) datagram_exit_recorded)
    moreover have "receiver_exit e received s =
        (if recv_cap s < RECV_CAP then datagram_exit e buf s else None)"
      using buf by (auto simp: receiver_exit_def Some recv_into_def Let_def split: if_splits)
    moreover have "deliveredMessage s' = deliveredMessage s" if "dispatch e ?s = Inl (x, s')" for x s'
      using dispatch_delivers_nothing [OF that] b(2) by simp
    ultimately show ?thesis by (cases "dispatch e ?s") (auto simp: turn)
  qed
qed

section \<open>Sending a message\<close>

text \<open>
  The hosts among \<open>hs\<close> that a packet leaves for when the questions from \<open>t\<close> on are asked, and how many
  of the sends go through before the first that fails.
\<close>

fun reached :: "env \<Rightarrow> rat \<Rightarrow> nat \<Rightarrow> string list \<Rightarrow> string list" where
  "reached e rate t [] = []"
| "reached e rate t (h # hs) =
     (if dropped e rate t then [] else [h]) @ reached e rate (Suc t) hs"

fun sends_before_failure :: "env \<Rightarrow> rat \<Rightarrow> nat \<Rightarrow> nat \<Rightarrow> nat" where
  "sends_before_failure e rate t 0 = 0"
| "sends_before_failure e rate t (Suc n) =
     (if send_fails e rate t then 0 else Suc (sends_before_failure e rate (Suc t) n))"

lemma sends_before_failure_all: "sends_before_failure e rate t n = n \<longleftrightarrow> \<not> some_send_fails e rate t n"
  by (induction n arbitrary: t) auto

definition same_but_sent :: "rm \<Rightarrow> rm \<Rightarrow> string list \<Rightarrow> string list \<Rightarrow> DataMessage \<Rightarrow> u8 list \<Rightarrow> bool" where
  "same_but_sent s s' to watched dm pkt \<longleftrightarrow>
     outbox s' = outbox s @ map (\<lambda>h. \<lparr>p_src = current_container_name s, p_dst = h, p_payload = pkt\<rparr>) to \<and>
     watchdogs s' = watchdogs s @ map (\<lambda>h. DataWatchdog dm h 0) watched \<and>
     deliveryQueue s' = deliveryQueue s \<and> curr_msg_id s' = curr_msg_id s \<and>
     curr_seq_number s' = curr_seq_number s \<and> ackHistory s' = ackHistory s"

lemma transmit_reaches:
  assumes "transmit e h pkt s = (rv, s')" "\<not> send_fails e (drop_rate s) (ticks s)"
  shows "same_but_sent s s' (reached e (drop_rate s) (ticks s) [h]) [] dm pkt"
  using assms
  by (auto simp: transmit_def send_fails_def dropped_def same_but_sent_def random_uniform_from_0_to_1_def
      record_outbound_def Let_def split: if_splits)

lemma transmit_failed:
  assumes "transmit e h pkt s = (rv, s')" "send_fails e (drop_rate s) (ticks s)"
  shows "same_but_sent s s' [] [] dm pkt"
  using assms
  by (auto simp: transmit_def send_fails_def dropped_def same_but_sent_def random_uniform_from_0_to_1_def
      record_outbound_def Let_def split: if_splits)

lemma same_but_sent_trans:
  "same_but_sent s s1 a x dm pkt \<Longrightarrow> same_but_sent (s1\<lparr>watchdogs := watchdogs s1 @ [DataWatchdog dm h 0]\<rparr>) s2 b y dm pkt \<Longrightarrow>
   current_container_name s1 = current_container_name s \<Longrightarrow> same_but_sent s s2 (a @ b) (x @ h # y) dm pkt"
  by (simp add: same_but_sent_def)

definition sends_as_planned :: "env \<Rightarrow> DataMessage \<Rightarrow> u8 list \<Rightarrow> string list \<Rightarrow> rm \<Rightarrow> outcome \<Rightarrow> bool" where
  "sends_as_planned e dm pkt others s out \<longleftrightarrow>
     (let k = sends_before_failure e (drop_rate s) (ticks s) (length others) in
      case out of
        Inl (x, s') \<Rightarrow> x = SendFailed \<and> k < length others \<and>
          same_but_sent s s' (reached e (drop_rate s) (ticks s) (take k others)) (take k others) dm pkt
      | Inr s' \<Rightarrow> k = length others \<and>
          same_but_sent s s' (reached e (drop_rate s) (ticks s) others) others dm pkt)"

lemma multicast_loop_exit:
  "sends_as_planned e dm pkt (filter (\<lambda>h. h \<noteq> current_container_name s) hs) s (multicast_loop e dm pkt hs s)"
proof (induction hs arbitrary: s)
  case Nil
  show ?case by (simp add: sends_as_planned_def same_but_sent_def)
next
  case (Cons h hs)
  show ?case
  proof (cases "h = current_container_name s")
    case True
    with Cons show ?thesis by simp
  next
    case False
    obtain rv s1 where t: "transmit e h pkt s = (rv, s1)" by fastforce
    note tf = transmit_fails [OF t]
    show ?thesis
    proof (cases "rv = - 1")
      case True
      with tf(1) transmit_failed [OF t] False t show ?thesis
        by (simp add: send_msg_with_drop_and_delay_def sends_as_planned_def)
    next
      case ok: False
      let ?s1 = "s1\<lparr>watchdogs := watchdogs s1 @ [DataWatchdog dm h 0]\<rparr>"
      have sent: "same_but_sent s s1 (reached e (drop_rate s) (ticks s) [h]) [] dm pkt"
        using transmit_reaches [OF t] tf(1) ok by simp
      have eq: "multicast_loop e dm pkt (h # hs) s = multicast_loop e dm pkt hs ?s1"
        using False t ok by (simp add: send_msg_with_drop_and_delay_def)
      have nf: "\<not> send_fails e (drop_rate s) (ticks s)" using tf(1) ok by simp
      note trans = same_but_sent_trans [OF sent _ tf(5)]
      show ?thesis unfolding eq
        using Cons.IH [of ?s1] False nf tf(2,3,5) trans
        by (cases "multicast_loop e dm pkt hs ?s1") (auto simp: sends_as_planned_def Let_def split: prod.splits)
    qed
  qed
qed

text \<open>
  C27. A multicast with counters below \<open>INT_MAX\<close> ends the process exactly when one of the sends to the
  other hosts fails. By then the own message is queued, both counters have moved, and the packet has
  gone to those hosts before the failing one for which it was not dropped: they hold a message that
  nobody will ever give a final number.
\<close>

theorem multicast_exits:
  assumes "curr_msg_id s \<noteq> INT_MAX" "curr_seq_number s \<noteq> INT_MAX"
  shows "let others = other_hosts s; me = to_u32 (current_container_id s);
      k = sends_before_failure e (drop_rate s) (ticks s) (length others);
      dm = \<lparr>dm_type = DATAMSG_TYPE, dm_sender = me, dm_msg_id = to_u32 (curr_msg_id s), dm_data = data\<rparr>;
      n = curr_seq_number s + 1; s' = state_of (multicast_datamsg e data s)
    in exit_of (multicast_datamsg e data s) = (if k < length others then Some SendFailed else None) \<and>
       outbox s' = outbox s @ map (\<lambda>h. \<lparr>p_src = current_container_name s, p_dst = h,
         p_payload = serialize_data_message dm (uninit_packet e s)\<rparr>)
           (reached e (drop_rate s) (ticks s) (take k others)) \<and>
       watchdogs s' = watchdogs s @ map (\<lambda>h. DataWatchdog dm h 0) (take k others) \<and>
       deliveryQueue s' = push_msg_to_deliveryqueue
         (make_queued_msg (to_u32 n) UNDELIVERABLE me (to_u32 (curr_msg_id s)) data me) (deliveryQueue s) \<and>
       curr_msg_id s' = curr_msg_id s + 1 \<and> curr_seq_number s' = n"
proof -
  let ?me = "to_u32 (current_container_id s)" and ?n = "curr_seq_number s + 1"
  let ?dm = "\<lparr>dm_type = DATAMSG_TYPE, dm_sender = ?me, dm_msg_id = to_u32 (curr_msg_id s), dm_data = data\<rparr>"
  let ?s4 = "queue_own data ?n s" and ?pkt = "serialize_data_message ?dm (uninit_packet e s)"
  have u: "ticks ?s4 = ticks s" "drop_rate ?s4 = drop_rate s" "uninit_packet e ?s4 = uninit_packet e s"
    by (simp_all add: queue_own_def uninit_packet_def Let_def)
  have m: "multicast_datamsg e data s = multicast_loop e ?dm ?pkt (take (nat (num_hosts s)) (hostNames s)) ?s4"
    using assms by (simp add: multicast_datamsg_eq incr_int_def u Let_def)
  have "sends_as_planned e ?dm ?pkt (other_hosts s) ?s4 (multicast_datamsg e data s)"
    using multicast_loop_exit [where e = e and dm = ?dm and pkt = ?pkt and s = ?s4
        and hs = "take (nat (num_hosts s)) (hostNames s)"]
    by (simp add: m other_hosts_def)
  moreover have "deliveryQueue ?s4 = push_msg_to_deliveryqueue
      (make_queued_msg (to_u32 ?n) UNDELIVERABLE ?me (to_u32 (curr_msg_id s)) data ?me) (deliveryQueue s)"
    by (simp add: queue_own_def Let_def)
  ultimately show ?thesis
    by (cases "multicast_datamsg e data s") (auto simp: sends_as_planned_def same_but_sent_def u Let_def)
qed

text \<open>Three hosts, the second send of the first host fails.\<close>

definition failing_process :: rm where
  "failing_process = ReliableMulticast [''container1'', ''container2'', ''container3''] ''container1'' 0 [] []"

definition failing_env :: env where
  "failing_env = demo_env\<lparr>sendto_rv := (\<lambda>k. if k = 1 then - 1 else 20)\<rparr>"

theorem multicast_exits_witness:
  "exit_of (multicast_datamsg failing_env 7 failing_process) = Some SendFailed \<and>
   map p_dst (outbox (state_of (multicast_datamsg failing_env 7 failing_process))) = [''container2''] \<and>
   curr_msg_id (state_of (multicast_datamsg failing_env 7 failing_process)) = 1"
proof -
  have c: "curr_msg_id failing_process \<noteq> INT_MAX" "curr_seq_number failing_process \<noteq> INT_MAX"
    "curr_msg_id failing_process = 0" by code_simp+
  have o: "other_hosts failing_process = [''container2'', ''container3'']" by code_simp
  have k: "sends_before_failure failing_env (drop_rate failing_process) (ticks failing_process) (Suc (Suc 0)) = 1"
    by code_simp
  have r: "reached failing_env (drop_rate failing_process) (ticks failing_process) [''container2''] = [''container2'']"
    "outbox failing_process = []" by code_simp+
  from multicast_exits [OF c(1,2), of failing_env 7] show ?thesis
    by (simp add: o k r c(3) Let_def del: sends_before_failure.simps reached.simps)
qed

end
