(* ===== verification/SnapshotRace.thy ===== *)
theory SnapshotRace
  imports ProtocolFacts Errors
begin

text \<open>
  \<open>CL_Global_Snapshot::initiate_snapshot\<close> statement by statement. \<open>get_local_state_snapshot\<close> copies the
  queue and the delivered messages in two critical sections, the recording of datagrams starts in a
  third, and the receiver thread may take turns in between.
\<close>

section \<open>The statements\<close>

datatype snap_pc =
    CopyQueue
  | CopyDelivered "QueuedMessage list"
  | SetInitiator
  | StartRecording
  | SendMarkers
  | SnapshotSent

fun initiate_step :: "env \<Rightarrow> snap_pc \<Rightarrow> rm \<Rightarrow> (exit_reason \<times> rm) + (snap_pc \<times> rm)" where
  "initiate_step e CopyQueue s = Inr (CopyDelivered (deliveryQueue s), s)"
| "initiate_step e (CopyDelivered q) s =
     Inr (SetInitiator, s\<lparr>snapshot := (snapshot s)\<lparr>locsnap :=
       \<lparr>ls_deliveryQueue = q, ls_deliveredMessage = deliveredMessage s\<rparr>\<rparr>\<rparr>)"
| "initiate_step e SetInitiator s =
     Inr (StartRecording, s\<lparr>snapshot := (snapshot s)\<lparr>amInitiator := True\<rparr>\<rparr>)"
| "initiate_step e StartRecording s = Inr (SendMarkers, tell_rm_to_start_recording_channel s)"
| "initiate_step e SendMarkers s =
     (case broadcast_markers e s of Inl err \<Rightarrow> Inl err | Inr s1 \<Rightarrow> Inr (SnapshotSent, s1))"
| "initiate_step e SnapshotSent s = Inr (SnapshotSent, s)"

text \<open>
  A schedule: \<open>None\<close> is the next statement of the snapshot, \<open>Some ev\<close> a turn of another thread.
\<close>

fun snapshot_run :: "env \<Rightarrow> event option list \<Rightarrow> snap_pc \<Rightarrow> rm \<Rightarrow> (exit_reason \<times> rm) + (snap_pc \<times> rm)" where
  "snapshot_run e [] pc s = Inr (pc, s)"
| "snapshot_run e (None # evs) pc s =
     (case initiate_step e pc s of Inl err \<Rightarrow> Inl err | Inr (pc', s') \<Rightarrow> snapshot_run e evs pc' s')"
| "snapshot_run e (Some ev # evs) pc s =
     (case process_event e ev s of Inl err \<Rightarrow> Inl err | Inr s' \<Rightarrow> snapshot_run e evs pc s')"

text \<open>Without other turns the statements add up to the function.\<close>

lemma undisturbed_snapshot:
  "(case snapshot_run e (replicate 5 None) CopyQueue s of Inl err \<Rightarrow> Inl err | Inr (pc, s') \<Rightarrow> Inr s') =
     initiate_snapshot e s"
  by (simp add: initiate_snapshot_def take_local_snapshot_def get_local_state_snapshot_def Let_def
      numeral_eq_Suc split: sum.split)

section \<open>The state of two moments\<close>

lemma deliveries_stay:
  assumes "reach (\<lambda>h. h = g) (group_step envs) g'" "i < length g"
  shows "length g' = length g \<and> prefix (deliveredMessage (state_of (g ! i))) (deliveredMessage (state_of (g' ! i)))"
  using assms(1)
proof (induction rule: reach.induct)
  case (reach_step h h')
  from reach_step.hyps(2) obtain j s ev where st: "j < length h" "h ! j = Inr s"
    "h' = h[j := process_event (envs j) ev s]" by (rule group_stepE)
  have "prefix (deliveredMessage (state_of (h ! i))) (deliveredMessage (state_of (h' ! i)))"
    using st event_extends [of s "envs j" ev] by (cases "i = j") (simp_all add: extends_def)
  with reach_step.IH st show ?case by (auto intro: prefix_order.trans)
qed simp

lemma reach_further:
  assumes "reachable c envs g" "reach (\<lambda>h. h = g) (group_step envs) g'"
  shows "reachable c envs g'"
  using assms(2)
  by (induction rule: reach.induct) (use assms(1) in \<open>auto simp: reachable_def intro: reach.reach_step\<close>)

text \<open>
  C28. What a snapshot records when other threads and hosts go on between its two copies: the queue of
  the first moment and the delivered messages of the second. Nothing held at the first moment is
  missing; exactly the messages delivered from that queue in between are recorded twice, as waiting
  and as delivered; exactly the messages that came in between and are still queued are not recorded.
\<close>

theorem snapshot_of_two_moments:
  assumes "config_ok c" "reachable c envs g" "reach (\<lambda>h. h = g) (group_step envs) g'" "i < length g"
    and "g ! i = Inr s" "g' ! i = Inr s'"
    and "initiate_step e CopyQueue s = Inr (pc, s)" "initiate_step e pc s' = Inr (pc', t)"
  shows "\<exists>out. deliveredMessage s' = deliveredMessage s @ out \<and>
    (let q = ls_deliveryQueue (locsnap (snapshot t)); d = ls_deliveredMessage (locsnap (snapshot t)) in
     uid ` set (deliveryQueue s) \<union> uid ` set (deliveredMessage s) \<subseteq> uid ` set q \<union> uid ` set d \<and>
     uid ` set q \<inter> uid ` set d = uid ` set (deliveryQueue s) \<inter> uid ` set out \<and>
     (uid ` set (deliveryQueue s') \<union> uid ` set (deliveredMessage s')) - (uid ` set q \<union> uid ` set d) =
       uid ` set (deliveryQueue s') - uid ` set (deliveryQueue s))"
proof -
  have len: "length g' = length g" and "prefix (deliveredMessage s) (deliveredMessage s')"
    using deliveries_stay [OF assms(3,4)] assms(5,6) by simp_all
  then obtain out where out: "deliveredMessage s' = deliveredMessage s @ out" by (auto elim: prefixE)
  have t: "ls_deliveryQueue (locsnap (snapshot t)) = deliveryQueue s"
    "ls_deliveredMessage (locsnap (snapshot t)) = deliveredMessage s'"
    using assms(7,8) by auto
  have "distinct (map uid (held (view h i)))" if "reachable c envs h" "i < length h" for h
    using local_invD(3) [OF reachableD(3) [OF assms(1) that]] by (simp add: queue_inv_def)
  from this [OF assms(2,4)] this [OF reach_further [OF assms(2,3)]] assms(4-6) len
  have "uid ` set (deliveryQueue s) \<inter> uid ` set (deliveredMessage s) = {}"
    "uid ` set (deliveryQueue s') \<inter> uid ` set (deliveredMessage s') = {}"
    by (auto simp: held_def view_def)
  then show ?thesis by (intro exI [of _ out]) (auto simp: out t Let_def image_Un)
qed

text \<open>
  Host 2 copies its queue, then receives the final number of the only message and delivers it, then
  copies the delivered messages: the message is in both lists.
\<close>

lemma decided_up: "map_option (map (\<lambda>r. exit_of r)) (demo_run until_decided) = Some [None, None]"
  by code_simp

lemma delivered_up: "map_option (map (\<lambda>r. exit_of r)) (demo_run until_delivered) = Some [None, None]"
  by code_simp

theorem snapshot_of_two_moments_witness:
  "\<exists>g g' s s' t. demo_run until_decided = Some g \<and> demo_run until_delivered = Some g' \<and>
     g ! Suc 0 = Inr s \<and> g' ! Suc 0 = Inr s' \<and>
     initiate_step demo_env (CopyDelivered (deliveryQueue s)) s' = Inr (SetInitiator, t) \<and>
     uid ` set (ls_deliveryQueue (locsnap (snapshot t))) \<inter>
       uid ` set (ls_deliveredMessage (locsnap (snapshot t))) = {uid msg1}"
proof -
  obtain g where g: "demo_run until_decided = Some g" "map exit_of g = [None, None]"
    "messages_of g = [([msg1], []), ([], [msg1_queued])]"
    using decided_up decided_run by auto
  obtain g' where g': "demo_run until_delivered = Some g'" "map exit_of g' = [None, None]"
    "messages_of g' = [([msg1], []), ([msg1], [])]"
    using delivered_up delivered_run by auto
  from g(2) obtain s0 s where s: "g = [Inr s0, Inr s]" by (auto simp: exit_of_def split: sum.splits)
  from g'(2) obtain s0' s' where s': "g' = [Inr s0', Inr s']" by (auto simp: exit_of_def split: sum.splits)
  have m: "deliveredMessage s = []" "deliveryQueue s = [msg1_queued]" "deliveredMessage s' = [msg1]"
    using g(3) g'(3) by (simp_all add: s s' messages_of_def)
  have "reach (\<lambda>h. h = g) (group_step (\<lambda>i. demo_env)) g"  by (rule reach_start) simp
  moreover have "run (\<lambda>i. demo_env) (drop (length until_decided) until_delivered) g = Some g'"
    using g(1) g'(1) by (simp add: until_delivered_def run_append)
  ultimately have r: "reach (\<lambda>h. h = g) (group_step (\<lambda>i. demo_env)) g'" by (rule run_reaches)
  obtain t where st: "initiate_step demo_env CopyQueue s = Inr (CopyDelivered (deliveryQueue s), s)"
    "initiate_step demo_env (CopyDelivered (deliveryQueue s)) s' = Inr (SetInitiator, t)" by simp
  have i: "Suc 0 < length g" "g ! Suc 0 = Inr s" "g' ! Suc 0 = Inr s'" by (simp_all add: s s')
  from snapshot_of_two_moments [OF demo_config_ok demo_reachable [OF g(1)] r i(1,2,3) st]
  have "uid ` set (ls_deliveryQueue (locsnap (snapshot t))) \<inter> uid ` set (ls_deliveredMessage (locsnap (snapshot t))) =
      uid ` set [msg1_queued] \<inter> uid ` set [msg1]"
    by (auto simp: m Let_def)
  moreover have "uid msg1_queued = uid msg1" by code_simp
  ultimately have "uid ` set (ls_deliveryQueue (locsnap (snapshot t))) \<inter>
      uid ` set (ls_deliveredMessage (locsnap (snapshot t))) = {uid msg1}" by simp
  with g(1) g'(1) i(2,3) st(2) show ?thesis by blast
qed

text \<open>
  Host 2 receives the message after its queue has been copied and before it records what comes in: the
  message is neither in the local state nor in the channel, although it was sent before the snapshot.
\<close>

definition missed :: "(snap_pc \<times> rm) \<Rightarrow> int list \<times> int list \<times> int list" where
  "missed r = (let s = snd r; k = (\<lambda>m. uint (qm_msg_id m)) in
     (map k (deliveryQueue s), map k (ls_deliveryQueue (locsnap (snapshot s)) @ ls_deliveredMessage (locsnap (snapshot s))),
      map (\<lambda>b. int (length b)) (inboundMessageBuffer (snapshot s))))"

lemma snapshot_misses_message:
  "map_option missed (case snapshot_run demo_env
      [None, Some (got ''container1'' ''container2'' data1), None, None, None, None] CopyQueue
      (initial_process demo_config 1) of Inl err \<Rightarrow> None | Inr r \<Rightarrow> Some r) = Some ([0], [], [])"
  by code_simp

end
