(* ===== verification/Watchdogs.thy ===== *)
theory Watchdogs
  imports Errors
begin

text \<open>
  The watchdog threads from start to end: \<open>datamsg_watchdog\<close> and \<open>ackmsg_watchdog\<close> with their counter
  \<open>watchdog_resend_cap\<close>. While a watchdog sleeps for the \<open>n\<close>-th time, the other threads of the process
  turn the state \<open>s\<close> into \<open>others n s\<close>.
\<close>

section \<open>The loops\<close>





section \<open>What the two loops share\<close>




section \<open>The passes\<close>



section \<open>How often a message is sent again\<close>





end
