(* ===== verification/Threads.thy ===== *)
theory Threads
  imports Group
begin

text \<open>
  Programs of threads that share a state and a set of mutexes, their interleaved execution, and what a
  discipline on the use of mutexes gives. The functions of the sources are written in this language in
  \<open>ThreadPrograms\<close>; nothing here depends on them.
\<close>

section \<open>Programs\<close>

text \<open>
  A \<open>Step\<close> is a stretch of code between two points at which other threads may be noticed: it names the
  shared variables it reads and writes, changes the state, and goes on with a program that may depend on
  what it has read. \<open>Lock\<close> and \<open>Unlock\<close> are those of \<open>std::mutex\<close>, \<open>Spawn\<close> starts a detached thread,
  \<open>Recv\<close> and \<open>Accept\<close> wait for the network, \<open>Die\<close> is \<open>exit\<close>, which ends all threads; \<open>Halt\<close> is the return
  from the thread's function, \<open>Forever\<close> a loop without end that touches nothing.
\<close>

datatype 'v access = Rd 'v | Wr 'v

datatype ('m, 'v, 'r, 's, 'e, 'x, 'y) prog =
    Halt
  | Forever
  | Die 'e
  | Step "'v access list" "'s \<Rightarrow> 's" "'s \<Rightarrow> ('m, 'v, 'r, 's, 'e, 'x, 'y) prog"
  | Lock 'm "('m, 'v, 'r, 's, 'e, 'x, 'y) prog"
  | Unlock 'm "('m, 'v, 'r, 's, 'e, 'x, 'y) prog"
  | Spawn 'r "('m, 'v, 'r, 's, 'e, 'x, 'y) prog" "('m, 'v, 'r, 's, 'e, 'x, 'y) prog"
  | Recv "'x \<Rightarrow> ('m, 'v, 'r, 's, 'e, 'x, 'y) prog"
  | Accept "'y \<Rightarrow> ('m, 'v, 'r, 's, 'e, 'x, 'y) prog"

text \<open>A program run without interference, up to its end or to the next time it waits for the network.\<close>

primrec alone :: "('m, 'v, 'r, 's, 'e, 'x, 'y) prog \<Rightarrow> 's \<Rightarrow> ('e \<times> 's) + 's" where
  "alone Halt s = Inr s"
| "alone Forever s = Inr s"
| "alone (Die err) s = Inl (err, s)"
| "alone (Step acc u k) s = alone (k s) (u s)"
| "alone (Lock m p) s = alone p s"
| "alone (Unlock m p) s = alone p s"
| "alone (Spawn r q p) s = alone p s"
| "alone (Recv f) s = Inr s"
| "alone (Accept f) s = Inr s"

section \<open>Interleaved execution\<close>

text \<open>A thread has a role, the mutexes it holds and the rest of its program.\<close>

type_synonym ('m, 'v, 'r, 's, 'e, 'x, 'y) thread = "'r \<times> 'm list \<times> ('m, 'v, 'r, 's, 'e, 'x, 'y) prog"

datatype ('m, 'v, 'r, 's, 'e, 'x, 'y) conf =
    Running 's "('m, 'v, 'r, 's, 'e, 'x, 'y) thread list"
  | Exited 'e 's

datatype ('x, 'y) input = NoInput | Datagram 'x | Connection 'y

definition held_by :: "('m, 'v, 'r, 's, 'e, 'x, 'y) thread \<Rightarrow> 'm list" where
  "held_by t = fst (snd t)"

definition rest_of :: "('m, 'v, 'r, 's, 'e, 'x, 'y) thread \<Rightarrow> ('m, 'v, 'r, 's, 'e, 'x, 'y) prog" where
  "rest_of t = snd (snd t)"

definition is_free :: "'m \<Rightarrow> ('m, 'v, 'r, 's, 'e, 'x, 'y) thread list \<Rightarrow> bool" where
  "is_free m ts \<longleftrightarrow> list_all (\<lambda>t. m \<notin> set (held_by t)) ts"

text \<open>
  What one thread does next: the reason to exit, or the state, its mutexes, its rest and the threads it
  has started. \<open>None\<close>: it cannot go on now. Unlocking a mutex one does not hold is undefined in C++.
\<close>

fun advance :: "('x, 'y) input \<Rightarrow> ('m \<Rightarrow> bool) \<Rightarrow> 's \<Rightarrow> 'm list \<Rightarrow> ('m, 'v, 'r, 's, 'e, 'x, 'y) prog \<Rightarrow>
    ('e + 's \<times> 'm list \<times> ('m, 'v, 'r, 's, 'e, 'x, 'y) prog \<times> ('m, 'v, 'r, 's, 'e, 'x, 'y) thread list) option" where
  "advance x fr s L Halt = None"
| "advance x fr s L Forever = None"
| "advance x fr s L (Die err) = Some (Inl err)"
| "advance x fr s L (Step acc u k) = Some (Inr (u s, L, k s, []))"
| "advance x fr s L (Lock m p) = (if fr m then Some (Inr (s, m # L, p, [])) else None)"
| "advance x fr s L (Unlock m p) = (if m \<in> set L then Some (Inr (s, remove1 m L, p, [])) else None)"
| "advance x fr s L (Spawn r q p) = Some (Inr (s, L, p, [(r, [], q)]))"
| "advance x fr s L (Recv f) = (case x of Datagram d \<Rightarrow> Some (Inr (s, L, f d, [])) | _ \<Rightarrow> None)"
| "advance x fr s L (Accept f) = (case x of Connection d \<Rightarrow> Some (Inr (s, L, f d, [])) | _ \<Rightarrow> None)"

text \<open>A move of thread \<open>i\<close>, with what the network has for it.\<close>

fun act :: "('x, 'y) input \<Rightarrow> nat \<Rightarrow> ('m, 'v, 'r, 's, 'e, 'x, 'y) conf \<Rightarrow>
    ('m, 'v, 'r, 's, 'e, 'x, 'y) conf option" where
  "act x i (Exited err s) = None"
| "act x i (Running s ts) =
     (if i < length ts
      then (case ts ! i of
              (r, L, p) \<Rightarrow>
                (case advance x (\<lambda>m. is_free m ts) s L p of
                   None \<Rightarrow> None
                 | Some (Inl err) \<Rightarrow> Some (Exited err s)
                 | Some (Inr (s1, L1, p1, new)) \<Rightarrow> Some (Running s1 (ts[i := (r, L1, p1)] @ new))))
      else None)"

definition moves :: "('m, 'v, 'r, 's, 'e, 'x, 'y) conf \<Rightarrow> ('m, 'v, 'r, 's, 'e, 'x, 'y) conf \<Rightarrow> bool" where
  "moves c c' \<longleftrightarrow> (\<exists>x i. act x i c = Some c')"

text \<open>A schedule, executable.\<close>

fun schedule :: "(nat \<times> ('x, 'y) input) list \<Rightarrow> ('m, 'v, 'r, 's, 'e, 'x, 'y) conf \<Rightarrow>
    ('m, 'v, 'r, 's, 'e, 'x, 'y) conf option" where
  "schedule [] c = Some c"
| "schedule ((i, x) # sched) c = (case act x i c of None \<Rightarrow> None | Some c1 \<Rightarrow> schedule sched c1)"

lemma schedule_reaches:
  "reach S moves c \<Longrightarrow> schedule sched c = Some d \<Longrightarrow> reach S moves d"
proof (induction sched c rule: schedule.induct)
  case (2 i x sched c)
  then obtain c1 where c1: "act x i c = Some c1" "schedule sched c1 = Some d" by (auto split: option.splits)
  then have "moves c c1" by (auto simp: moves_def)
  from "2.IH" [OF c1(1) reach_step [OF "2.prems"(1) this] c1(2)] show ?case .
qed simp

lemma act_None:
  assumes "i < length ts" "ts ! i = (r, L, p)"
  shows "act x i (Running s ts) = None \<longleftrightarrow> advance x (\<lambda>m. is_free m ts) s L p = None"
proof (cases "advance x (\<lambda>m. is_free m ts) s L p")
  case (Some y)
  then show ?thesis using assms by (cases y) (simp_all split: prod.split)
qed (simp add: assms)

lemma moves_cases:
  assumes "moves c c'"
  obtains (die) x i s ts r L err where "c = Running s ts" "i < length ts" "ts ! i = (r, L, Die err)"
      "c' = Exited err s"
  | (go) x i s ts r L p s1 L1 p1 new where "c = Running s ts" "i < length ts" "ts ! i = (r, L, p)"
      "advance x (\<lambda>m. is_free m ts) s L p = Some (Inr (s1, L1, p1, new))"
      "c' = Running s1 (ts[i := (r, L1, p1)] @ new)"
proof -
  from assms obtain x i where a: "act x i c = Some c'" by (auto simp: moves_def)
  then obtain s ts where c: "c = Running s ts" by (cases c) auto
  obtain r L p where t: "ts ! i = (r, L, p)" by (cases "ts ! i")
  have i: "i < length ts" using a by (auto simp: c split: if_splits)
  show thesis
  proof (cases "advance x (\<lambda>m. is_free m ts) s L p")
    case None
    with a show thesis by (simp add: c t i)
  next
    case (Some y)
    show thesis
    proof (cases y)
      case (Inl err)
      with Some have "p = Die err" by (cases p) (auto split: if_splits input.splits)
      with a Some Inl show thesis by (intro die [OF c i, of r L err]) (auto simp: c t i)
    next
      case (Inr z)
      with a Some show thesis by (cases z) (intro go [OF c i t], auto simp: c t i)
    qed
  qed
qed

section \<open>Every run is finite\<close>

text \<open>A program is a well-founded tree: a move goes to a part of it.\<close>

inductive part :: "('m, 'v, 'r, 's, 'e, 'x, 'y) prog \<Rightarrow> ('m, 'v, 'r, 's, 'e, 'x, 'y) prog \<Rightarrow> bool" where
  "part (k s) (Step acc u k)"
| "part p (Lock m p)"
| "part p (Unlock m p)"
| "part q (Spawn r q p)"
| "part p (Spawn r q p)"
| "part (f x) (Recv f)"
| "part (g y) (Accept g)"

inductive_cases part_elims: "part p' Halt" "part p' Forever" "part p' (Die err)" "part p' (Step acc u k)"
  "part p' (Lock m p)" "part p' (Unlock m p)" "part p' (Spawn r q p)" "part p' (Recv f)" "part p' (Accept g)"

lemma accp_part: "Wellfounded.accp part p"
  by (induction p) (rule accpI, auto elim: part_elims)+

lemma wf_part: "wf {(p', p). part p' p}"
  using accp_wfpI [of part, OF allI, OF accp_part] by (simp only: wfp_def)

lemma advance_parts:
  assumes "advance x fr s L p = Some (Inr (s1, L1, p1, new))"
  shows "part p1 p" "\<forall>t \<in> set new. part (rest_of t) p"
  using assms by (cases p; auto split: if_splits input.splits intro: part.intros simp: rest_of_def)+

fun work :: "('m, 'v, 'r, 's, 'e, 'x, 'y) conf \<Rightarrow> ('m, 'v, 'r, 's, 'e, 'x, 'y) prog multiset" where
  "work (Running s ts) = image_mset rest_of (mset ts)"
| "work (Exited err s) = {#}"

lemma moves_work: "moves c c' \<Longrightarrow> (work c', work c) \<in> mult {(p', p). part p' p}"
proof (erule moves_cases)
  fix s ts r L err and i :: nat
  assume "c = Running s ts" "i < length ts" "c' = Exited err s"
  then show ?thesis by (auto intro!: subset_implies_mult simp: subset_mset.zero_less_iff_neq_zero)
next
  fix x s ts r L p s1 L1 p1 new and i :: nat
  assume a: "c = Running s ts" "i < length ts" "ts ! i = (r, L, p)"
    "advance x (\<lambda>m. is_free m ts) s L p = Some (Inr (s1, L1, p1, new))"
    "c' = Running s1 (ts[i := (r, L1, p1)] @ new)"
  let ?others = "image_mset rest_of (mset ts - {#(r, L, p)#})"
  let ?new = "add_mset p1 (image_mset rest_of (mset new))"
  have "(r, L, p) \<in># mset ts" using a(2,3) by (metis in_multiset_in_set nth_mem)
  then have "mset ts = add_mset (r, L, p) (mset ts - {#(r, L, p)#})" by simp
  then have "image_mset rest_of (mset ts) = image_mset rest_of (add_mset (r, L, p) (mset ts - {#(r, L, p)#}))"
    by simp
  then have old: "work c = ?others + {#p#}" using a(1) by (simp add: rest_of_def)
  have "work c' = ?others + ?new" using a(2,3,5) by (simp add: mset_update rest_of_def)
  moreover have "(?others + ?new, ?others + {#p#}) \<in> mult {(p', p). part p' p}"
    using advance_parts [OF a(4)] by (intro one_step_implies_mult) auto
  ultimately show ?thesis using old by simp
qed

lemma every_run_ends: "\<nexists>f. \<forall>n :: nat. moves (f n) (f (Suc n))"
proof
  assume "\<exists>f :: nat \<Rightarrow> ('a, 'b, 'c, 'd, 'e, 'f, 'g) conf. \<forall>n. moves (f n) (f (Suc n))"
  then obtain f :: "nat \<Rightarrow> ('a, 'b, 'c, 'd, 'e, 'f, 'g) conf" where "\<forall>n. moves (f n) (f (Suc n))" ..
  then have "\<forall>n. (work (f (Suc n)), work (f n)) \<in> mult {(p', p). part p' p}" by (simp add: moves_work)
  moreover have "wf (mult {(p', p). part (p' :: ('a, 'b, 'c, 'd, 'e, 'f, 'g) prog) p})"
    by (rule wf_mult [OF wf_part])
  ultimately show False by (auto simp: wf_iff_no_infinite_down_chain)
qed

end
