(* ===== verification/LockDiscipline.thy ===== *)
theory LockDiscipline
  imports Threads
begin

text \<open>
  A discipline on the programs of threads: mutexes are taken in the order of a rank and given back before
  the thread returns or waits for the network, and a variable is accessed only under its policy. Whatever
  the interleaving, disciplined threads never wait for each other in a circle, and two of them meet on a
  variable only where the policy leaves it open.
\<close>

section \<open>The discipline\<close>

fun var_of :: "'v access \<Rightarrow> 'v" where
  "var_of (Rd v) = v"
| "var_of (Wr v) = v"

fun conflict :: "'v access \<Rightarrow> 'v access \<Rightarrow> bool" where
  "conflict (Rd v) (Rd w) = False"
| "conflict a b = (var_of a = var_of b)"

text \<open>
  \<open>may r L a\<close>: a thread of role \<open>r\<close> that holds the mutexes \<open>L\<close> may do the access \<open>a\<close>; \<open>many r\<close>: there may
  be several threads of that role.
\<close>

primrec disciplined :: "('m \<Rightarrow> nat) \<Rightarrow> ('r \<Rightarrow> 'm list \<Rightarrow> 'v access \<Rightarrow> bool) \<Rightarrow> ('r \<Rightarrow> bool) \<Rightarrow>
    ('m, 'v, 'r, 's, 'e, 'x, 'y) prog \<Rightarrow> 'r \<Rightarrow> 'm list \<Rightarrow> bool" where
  "disciplined rank may many Halt r L = (L = [])"
| "disciplined rank may many Forever r L = (L = [])"
| "disciplined rank may many (Die err) r L = True"
| "disciplined rank may many (Step acc u k) r L =
     (list_all (may r L) acc \<and> (\<forall>s. disciplined rank may many (k s) r L))"
| "disciplined rank may many (Lock m p) r L =
     (list_all (\<lambda>m'. rank m' < rank m) L \<and> disciplined rank may many p r (m # L))"
| "disciplined rank may many (Unlock m p) r L = (m \<in> set L \<and> disciplined rank may many p r (remove1 m L))"
| "disciplined rank may many (Spawn r' q p) r L =
     (many r' \<and> disciplined rank may many q r' [] \<and> disciplined rank may many p r L)"
| "disciplined rank may many (Recv f) r L = (L = [] \<and> (\<forall>x. disciplined rank may many (f x) r []))"
| "disciplined rank may many (Accept f) r L = (L = [] \<and> (\<forall>y. disciplined rank may many (f y) r []))"

text \<open>A property of every step a program may come to.\<close>

primrec every_step ::
    "('v access list \<Rightarrow> ('s \<Rightarrow> 's) \<Rightarrow> ('s \<Rightarrow> ('m, 'v, 'r, 's, 'e, 'x, 'y) prog) \<Rightarrow> bool) \<Rightarrow>
     ('m, 'v, 'r, 's, 'e, 'x, 'y) prog \<Rightarrow> bool" where
  "every_step Q Halt = True"
| "every_step Q Forever = True"
| "every_step Q (Die err) = True"
| "every_step Q (Step acc u k) = (Q acc u k \<and> (\<forall>s. every_step Q (k s)))"
| "every_step Q (Lock m p) = every_step Q p"
| "every_step Q (Unlock m p) = every_step Q p"
| "every_step Q (Spawn r q p) = (every_step Q q \<and> every_step Q p)"
| "every_step Q (Recv f) = (\<forall>x. every_step Q (f x))"
| "every_step Q (Accept f) = (\<forall>y. every_step Q (f y))"

lemma every_step_and: "every_step (\<lambda>a u k. P a u k \<and> Q a u k) p \<longleftrightarrow> every_step P p \<and> every_step Q p"
  by (induction p) auto

lemma advance_every_step:
  "every_step Q p \<Longrightarrow> advance x fr s L p = Some (Inr (s1, L1, p1, new)) \<Longrightarrow>
   every_step Q p1 \<and> (\<forall>t \<in> set new. every_step Q (rest_of t))"
  by (cases p; auto split: if_splits input.splits simp: rest_of_def)

lemma advance_disciplined:
  assumes "disciplined rank may many p r L" "advance x fr s L p = Some (Inr (s1, L1, p1, new))"
  shows "disciplined rank may many p1 r L1"
    "\<forall>(r', L', q) \<in> set new. L' = [] \<and> many r' \<and> disciplined rank may many q r' []"
  using assms by (cases p; auto split: if_splits input.splits)+

lemma advance_held:
  assumes "advance x fr s L p = Some (Inr (s1, L1, p1, new))" "distinct L" "\<And>m. fr m \<Longrightarrow> m \<notin> set L"
  shows "distinct L1" "set L1 \<subseteq> set L \<union> {m. fr m}"
  using assms by (cases p; auto split: if_splits input.splits dest: notin_set_remove1)+

text \<open>A thread whose next move needs neither a mutex nor the network.\<close>

lemma advance_ready:
  "disciplined rank may many p r L \<Longrightarrow> L \<noteq> [] \<Longrightarrow> (\<And>m q. p = Lock m q \<Longrightarrow> fr m) \<Longrightarrow>
   advance NoInput fr s L p \<noteq> None"
  by (cases p) auto

section \<open>Pools of threads\<close>

definition exclusive_holders :: "('m, 'v, 'r, 's, 'e, 'x, 'y) thread list \<Rightarrow> bool" where
  "exclusive_holders ts \<longleftrightarrow>
     (\<forall>i < length ts. distinct (held_by (ts ! i))) \<and>
     (\<forall>i < length ts. \<forall>j < length ts. i \<noteq> j \<longrightarrow> set (held_by (ts ! i)) \<inter> set (held_by (ts ! j)) = {})"

definition one_each :: "('r \<Rightarrow> bool) \<Rightarrow> ('m, 'v, 'r, 's, 'e, 'x, 'y) thread list \<Rightarrow> bool" where
  "one_each many ts \<longleftrightarrow>
     (\<forall>i < length ts. \<forall>j < length ts. i \<noteq> j \<longrightarrow> fst (ts ! i) = fst (ts ! j) \<longrightarrow> many (fst (ts ! i)))"

text \<open>Both survive a move of thread \<open>i\<close> that starts the threads \<open>new\<close>.\<close>

lemma nth_moved:
  "k < length (ts[i := t] @ new) \<Longrightarrow>
   (ts[i := t] @ new) ! k = (if k < length ts then if k = i then t else ts ! k else new ! (k - length ts))"
  by (auto simp: nth_append)

lemma exclusive_holders_move:
  assumes "exclusive_holders ts" "i < length ts" "held_by (ts ! i) = L"
    and "advance x (\<lambda>m. is_free m ts) s L p = Some (Inr (s1, L1, p1, new))" "\<forall>t \<in> set new. held_by t = []"
  shows "exclusive_holders (ts[i := (r, L1, p1)] @ new)"
proof -
  have d: "distinct L" using assms(1-3) by (auto simp: exclusive_holders_def)
  have fr: "m \<notin> set (held_by (ts ! k))" if "is_free m ts" "k < length ts" for m k
    using that by (simp add: is_free_def list_all_length)
  have L1: "distinct L1" "set L1 \<subseteq> set L \<union> {m. is_free m ts}"
    using advance_held [OF assms(4) d] fr assms(2,3) by blast+
  let ?us = "ts[i := (r, L1, p1)] @ new"
  have h: "held_by (?us ! k) = (if k = i then L1 else if k < length ts then held_by (ts ! k) else [])"
    if "k < length ?us" for k
    using that assms(2,5) by (auto simp: nth_moved held_by_def)
  have old: "set (held_by (ts ! k)) \<inter> set L1 = {}" if "k < length ts" "k \<noteq> i" for k
    using L1(2) fr that assms(1-3) unfolding exclusive_holders_def by blast
  have others: "set (held_by (ts ! k)) \<inter> set (held_by (ts ! j)) = {}"
    if "k < length ts" "j < length ts" "k \<noteq> j" for k j
    using that assms(1) by (simp add: exclusive_holders_def)
  show ?thesis
    unfolding exclusive_holders_def
  proof (intro conjI allI impI)
    fix k assume "k < length ?us"
    then show "distinct (held_by (?us ! k))"
      using L1(1) assms(1) by (simp add: h exclusive_holders_def)
  next
    fix k j assume "k < length ?us" "j < length ?us" "k \<noteq> j"
    then show "set (held_by (?us ! k)) \<inter> set (held_by (?us ! j)) = {}"
      using old [of k] old [of j] others [of k j] by (simp add: h Int_commute) (simp add: disjoint_iff)
  qed
qed

lemma one_each_move:
  assumes "one_each many ts" "i < length ts" "fst (ts ! i) = r" "\<forall>t \<in> set new. many (fst t)"
  shows "one_each many (ts[i := (r, L1, p1)] @ new)"
proof -
  let ?us = "ts[i := (r, L1, p1)] @ new"
  have f: "fst (?us ! k) = (if k < length ts then fst (ts ! k) else fst (new ! (k - length ts)))"
    "\<not> k < length ts \<Longrightarrow> many (fst (?us ! k))" if "k < length ?us" for k
    using that assms(2-4) by (auto simp: nth_moved)
  show ?thesis
    unfolding one_each_def
  proof (intro allI impI)
    fix k j assume k: "k < length ?us" "j < length ?us" "k \<noteq> j" "fst (?us ! k) = fst (?us ! j)"
    show "many (fst (?us ! k))"
    proof (cases "k < length ts \<and> j < length ts")
      case True
      then show ?thesis using k f(1) [OF k(1)] f(1) [OF k(2)] assms(1) by (auto simp: one_each_def)
    next
      case False
      then show ?thesis using f(2) [OF k(1)] f(2) [OF k(2)] k(4) by auto
    qed
  qed
qed

section \<open>What the discipline gives\<close>

text \<open>
  The client: any set of start states in which no thread holds a mutex and all programs are disciplined,
  under a policy by which two conflicting accesses of different threads share a mutex unless \<open>racy\<close> says
  that they need not.
\<close>

locale mutex_discipline =
  fixes rank :: "'m \<Rightarrow> nat"
    and may :: "'r \<Rightarrow> 'm list \<Rightarrow> 'v access \<Rightarrow> bool"
    and many :: "'r \<Rightarrow> bool"
    and racy :: "'r \<Rightarrow> 'r \<Rightarrow> 'v \<Rightarrow> bool"
    and start :: "('m, 'v, 'r, 's, 'e, 'x, 'y) conf \<Rightarrow> bool"
  assumes start_ok: "start c \<Longrightarrow> \<exists>s ts. c = Running s ts \<and> one_each many ts \<and>
      list_all (\<lambda>(r, L, p). L = [] \<and> disciplined rank may many p r []) ts"
    and policy: "may r L a \<Longrightarrow> may r' L' b \<Longrightarrow> conflict a b \<Longrightarrow> set L \<inter> set L' = {} \<Longrightarrow>
      (r = r' \<longrightarrow> many r) \<Longrightarrow> racy r r' (var_of a)"
begin

fun well :: "('m, 'v, 'r, 's, 'e, 'x, 'y) conf \<Rightarrow> bool" where
  "well (Exited err s) = True"
| "well (Running s ts) = (exclusive_holders ts \<and> one_each many ts \<and>
     (\<forall>(r, L, p) \<in> set ts. disciplined rank may many p r L))"

lemma start_well: "start c \<Longrightarrow> well c"
  by (drule start_ok) (fastforce simp: exclusive_holders_def held_by_def list_all_iff all_set_conv_all_nth)

lemma moves_well: "well c \<Longrightarrow> moves c c' \<Longrightarrow> well c'"
proof (erule moves_cases)
  fix x s ts r L p s1 L1 p1 new and i :: nat
  assume a: "well c" "c = Running s ts" "i < length ts" "ts ! i = (r, L, p)"
    "advance x (\<lambda>m. is_free m ts) s L p = Some (Inr (s1, L1, p1, new))"
    "c' = Running s1 (ts[i := (r, L1, p1)] @ new)"
  then have w: "exclusive_holders ts" "one_each many ts"
    "\<forall>(r, L, p) \<in> set ts. disciplined rank may many p r L" by simp_all
  have "disciplined rank may many p r L" using w(3) a(3,4) nth_mem by fastforce
  note d = advance_disciplined [OF this a(5)]
  have n: "\<forall>t \<in> set new. held_by t = []" "\<forall>t \<in> set new. many (fst t)"
    "\<forall>(r, L, p) \<in> set new. disciplined rank may many p r L"
    using d(2) by (auto simp: held_by_def)
  have "exclusive_holders (ts[i := (r, L1, p1)] @ new)"
    using exclusive_holders_move [OF w(1) a(3) _ a(5) n(1)] a(4) by (simp add: held_by_def)
  moreover have "one_each many (ts[i := (r, L1, p1)] @ new)"
    using one_each_move [OF w(2) a(3) _ n(2)] a(4) by simp
  moreover have "\<forall>(r, L, p) \<in> set (ts[i := (r, L1, p1)] @ new). disciplined rank may many p r L"
    using set_update_subset_insert [of ts i "(r, L1, p1)"] w(3) d(1) n(3) by fastforce
  ultimately show ?thesis by (simp add: a(6))
qed simp

lemma reach_well: "reach start moves c \<Longrightarrow> well c"
  by (induction rule: reach.induct) (auto intro: start_well moves_well)

text \<open>
  The thread that holds the mutex of the greatest rank among all held ones can go on.
\<close>

lemma holder_goes_on:
  assumes "reach start moves (Running s ts)" "i < length ts" "held_by (ts ! i) \<noteq> []"
  shows "\<exists>j < length ts. held_by (ts ! j) \<noteq> [] \<and> act NoInput j (Running s ts) \<noteq> None"
proof -
  have w: "exclusive_holders ts" "\<forall>(r, L, p) \<in> set ts. disciplined rank may many p r L"
    using reach_well [OF assms(1)] by simp_all
  let ?held = "\<Union>t \<in> set ts. set (held_by t)"
  have "finite ?held" by simp
  moreover have "?held \<noteq> {}" using assms(3) nth_mem [OF assms(2)] by auto
  ultimately have "Max (rank ` ?held) \<in> rank ` ?held" by (intro Max_in) auto
  then obtain m where "m \<in> ?held" "rank m = Max (rank ` ?held)" by force
  with \<open>finite ?held\<close> have m: "m \<in> ?held" "\<forall>m' \<in> ?held. rank m' \<le> rank m" by simp_all
  from m(1) obtain t where "t \<in> set ts" "m \<in> set (held_by t)" by blast
  then obtain j where j: "j < length ts" "m \<in> set (held_by (ts ! j))" by (metis in_set_conv_nth)
  obtain r L p where t: "ts ! j = (r, L, p)" by (cases "ts ! j")
  have d: "disciplined rank may many p r L" using w(2) j(1) t nth_mem by fastforce
  have L: "L \<noteq> []" "m \<in> set L" using j(2) by (auto simp: t held_by_def)
  have free: "is_free m' ts" if "p = Lock m' q" for m' q
  proof -
    have "rank m < rank m'" using d L(2) by (simp add: that list_all_iff)
    then have "m' \<notin> ?held" using m(2) not_le by blast
    then show ?thesis by (simp add: is_free_def list_all_iff)
  qed
  have "advance NoInput (\<lambda>m. is_free m ts) s L p \<noteq> None"
    by (rule advance_ready [OF d L(1)]) (rule free)
  then have "act NoInput j (Running s ts) \<noteq> None" by (simp only: act_None [OF j(1) t] not_False_eq_True)
  moreover have "held_by (ts ! j) \<noteq> []" using t L(1) by (simp add: held_by_def)
  ultimately show ?thesis using j(1) by blast
qed

lemma waiting_implies_progress:
  assumes "reach start moves (Running s ts)" "i < length ts" "rest_of (ts ! i) = Lock m q"
  shows "\<exists>j < length ts. act NoInput j (Running s ts) \<noteq> None"
proof (cases "is_free m ts")
  case True
  moreover obtain r L where "ts ! i = (r, L, Lock m q)" using assms(3) by (cases "ts ! i") (simp add: rest_of_def)
  ultimately have "act NoInput i (Running s ts) \<noteq> None" using assms(2) by (simp add: act_None del: act.simps)
  with assms(2) show ?thesis by blast
next
  case False
  then obtain k where "k < length ts" "m \<in> set (held_by (ts ! k))"
    by (auto simp: is_free_def list_all_length)
  then have "k < length ts" "held_by (ts ! k) \<noteq> []" by auto
  from holder_goes_on [OF assms(1) this] show ?thesis by blast
qed

lemma at_rest:
  assumes "reach start moves (Running s ts)" "\<forall>j < length ts. act NoInput j (Running s ts) = None"
    and "(r, L, p) \<in> set ts"
  shows "L = [] \<and> (p = Halt \<or> p = Forever \<or> (\<exists>f. p = Recv f) \<or> (\<exists>g. p = Accept g))"
proof -
  obtain i where i: "i < length ts" "ts ! i = (r, L, p)" using assms(3) by (auto simp: in_set_conv_nth)
  have L: "L = []"
    using holder_goes_on [OF assms(1) i(1)] assms(2) by (force simp del: act.simps simp: held_by_def i(2))
  have d: "disciplined rank may many p r L" using reach_well [OF assms(1)] assms(3) by auto
  have n: "act NoInput i (Running s ts) = None" using assms(2) i(1) by simp
  have "\<exists>j < length ts. act NoInput j (Running s ts) \<noteq> None" if "p = Lock m q" for m q
    using waiting_implies_progress [OF assms(1) i(1)] i(2) that by (simp add: rest_of_def)
  then have "\<nexists>m q. p = Lock m q" using assms(2) by auto
  moreover have "advance NoInput (\<lambda>m. is_free m ts) s L p = None" using n by (simp only: act_None [OF i])
  ultimately show ?thesis using L d by (cases p) auto
qed

text \<open>Two threads about to make conflicting accesses.\<close>

lemma only_racy:
  assumes "reach start moves (Running s ts)" "i < length ts" "j < length ts" "i \<noteq> j"
    and "ts ! i = (r, L, Step acc u k)" "ts ! j = (r', L', Step acc' u' k')"
    and "a \<in> set acc" "b \<in> set acc'" "conflict a b"
  shows "racy r r' (var_of a)"
proof -
  have w: "exclusive_holders ts" "one_each many ts" "\<forall>(r, L, p) \<in> set ts. disciplined rank may many p r L"
    using reach_well [OF assms(1)] by simp_all
  have d: "may r L a" "may r' L' b"
    using w(3) assms(5-8) nth_mem [OF assms(2)] nth_mem [OF assms(3)] by (auto simp: list_all_iff)
  have "set L \<inter> set L' = {}" using w(1) assms(2-6) by (force simp: exclusive_holders_def held_by_def)
  moreover have "r = r' \<longrightarrow> many r" using w(2) assms(2-6) by (force simp: one_each_def)
  ultimately show ?thesis using policy [OF d assms(9)] by blast
qed

end

section \<open>Invariants of the state\<close>

text \<open>What every step of every program keeps, every interleaving keeps.\<close>

fun shared :: "('m, 'v, 'r, 's, 'e, 'x, 'y) conf \<Rightarrow> 's" where
  "shared (Running s ts) = s"
| "shared (Exited err s) = s"

fun all_steps :: "('v access list \<Rightarrow> ('s \<Rightarrow> 's) \<Rightarrow> ('s \<Rightarrow> ('m, 'v, 'r, 's, 'e, 'x, 'y) prog) \<Rightarrow> bool) \<Rightarrow>
    ('m, 'v, 'r, 's, 'e, 'x, 'y) conf \<Rightarrow> bool" where
  "all_steps Q (Running s ts) = (\<forall>t \<in> set ts. every_step Q (rest_of t))"
| "all_steps Q (Exited err s) = True"

lemma moves_all_steps:
  assumes "all_steps Q c" "moves c c'"
  shows "all_steps Q c' \<and> (shared c' = shared c \<or> (\<exists>acc u k. Q acc u k \<and> shared c' = u (shared c)))"
  using assms(2)
proof (cases rule: moves_cases)
  case (go x i s ts r L p s1 L1 p1 new)
  have p: "every_step Q p" using assms(1) go(1-3) nth_mem by (fastforce simp: rest_of_def)
  have n: "every_step Q p1" "\<forall>t \<in> set new. every_step Q (rest_of t)"
    using advance_every_step [OF p go(4)] by simp_all
  have "all_steps Q c'"
    using set_update_subset_insert [of ts i "(r, L1, p1)"] n assms(1) by (auto simp: go(1,5) rest_of_def)
  moreover have "s1 = s \<or> (\<exists>acc u k. Q acc u k \<and> s1 = u s)"
    using p go(4) by (cases p) (auto split: if_splits input.splits)
  ultimately show ?thesis by (simp add: go(1,5))
qed simp

lemma shared_invariant:
  assumes "reach S moves c" "\<And>d. S d \<Longrightarrow> I (shared d) \<and> all_steps Q d"
    and "\<And>acc u k s. Q acc u k \<Longrightarrow> I s \<Longrightarrow> I (u s)"
  shows "I (shared c) \<and> all_steps Q c"
  using assms(1)
proof (induction rule: reach.induct)
  case (reach_step c c')
  then show ?case using moves_all_steps [of Q c c'] assms(3) by metis
qed (rule assms(2))

end
