(* ===== verification/ThreadPrograms.thy ===== *)
theory ThreadPrograms
  imports LockDiscipline CommandLine
begin

text \<open>
  Every thread of a process as a program: each function of \<open>reliable_multicast.cpp\<close> and
  \<open>CL_global_snapshot.cpp\<close> again, with its \<open>lock\<close> and \<open>unlock\<close> calls, its accesses to shared members one
  after the other, and the threads it starts. Functions are in continuation passing style: the last
  argument is what the caller does next. Local variables are variables of the logic. Sleeping, printing
  and the unused \<open>DEBUG\<close> code leave no trace.
\<close>

section \<open>Mutexes, variables, threads\<close>

datatype mutex =
    AckHistoryMutex
  | DataHistoryMutex
  | DeliveryQueueMutex
  | SeqMessageHistoryMutex
  | DeliveredMessageMutex
  | RecordMessagesMutex
  | InboundMessageBufferMutex
  | OutboundMessageBufferMutex

text \<open>
  The members that change after the constructor. What the operating system and the C library keep for the
  program (sockets, the state of \<open>rand\<close>, started threads) they protect themselves.
\<close>

datatype var =
    V_curr_msg_id
  | V_curr_seq_number
  | V_their_addr
  | V_deliveryQueue
  | V_deliveredMessage
  | V_alreadyAckedMessages
  | V_seqMessageHistory
  | V_ackHistory
  | V_dataHistory
  | V_hostIDtoHostName
  | V_recv_cap
  | V_recordMessages
  | V_msg_buf
  | V_locsnap
  | V_amInitiator
  | V_alreadyReceivedProc
  | V_inboundMessageBuffer
  | V_outboundMessageBuffer
  | V_inboundChannelState
  | V_outboundChannelState
  | V_marker_buf
  | V_listener_pc

datatype role = MainThread | ReceiverThread | ListenerThread | WatchdogThread

type_synonym code = "(mutex, var, role, rm, exit_reason, packet option, accepted) prog"

abbreviation observe :: "var access list \<Rightarrow> (rm \<Rightarrow> code) \<Rightarrow> code" where
  "observe acc k \<equiv> Step acc (\<lambda>s. s) k"

abbreviation update :: "var access list \<Rightarrow> (rm \<Rightarrow> rm) \<Rightarrow> code \<Rightarrow> code" where
  "update acc u p \<equiv> Step acc u (\<lambda>_. p)"

section \<open>Sending\<close>

text \<open>
  What \<open>reply_msg_with_drop_and_delay\<close> and \<open>send_msg_with_drop_and_delay\<close> share; \<open>dst\<close> is where the packet
  goes, \<open>acc\<close> what must be read to know it.
\<close>

definition transmit_prog ::
    "var access list \<Rightarrow> (rm \<Rightarrow> string) \<Rightarrow> env \<Rightarrow> u8 list \<Rightarrow> (int \<Rightarrow> code) \<Rightarrow> code" where
  "transmit_prog acc dst e pkt k =
     Step [] (\<lambda>s. s\<lparr>ticks := Suc (ticks s)\<rparr>) (\<lambda>s.
       if random_uniform_from_0_to_1 e s < drop_rate s then k (- 22)
       else
         let rv = sendto_rv e (ticks s);
             send = Step acc
               (\<lambda>s1. if rv = - 1 then s1
                 else s1\<lparr>outbox := outbox s1 @
                   [\<lparr>p_src = current_container_name s1, p_dst = dst s1, p_payload = pkt\<rparr>]\<rparr>)
               (\<lambda>_. k rv)
         in Lock RecordMessagesMutex (observe [Rd V_recordMessages] (\<lambda>s1.
              if recordMessages s1
              then Lock OutboundMessageBufferMutex
                (update [Wr V_outboundMessageBuffer]
                  (\<lambda>s2. s2\<lparr>snapshot := (snapshot s2)
                     \<lparr>outboundMessageBuffer := outboundMessageBuffer (snapshot s2) @ [pkt]\<rparr>\<rparr>)
                (Unlock OutboundMessageBufferMutex
                (Unlock RecordMessagesMutex send)))
              else Unlock RecordMessagesMutex send)))"

definition reply_prog :: "env \<Rightarrow> u8 list \<Rightarrow> (int \<Rightarrow> code) \<Rightarrow> code" where
  "reply_prog e pkt k = transmit_prog [Rd V_their_addr] their_addr e pkt k"

definition send_prog :: "env \<Rightarrow> string \<Rightarrow> u8 list \<Rightarrow> (int \<Rightarrow> code) \<Rightarrow> code" where
  "send_prog e hostname pkt k = transmit_prog [] (\<lambda>s. hostname) e pkt k"

text \<open>\<open>curr_seq_number++\<close>, which no mutex protects: the load and the store are two steps.\<close>

definition incr_seq_prog :: "code \<Rightarrow> code" where
  "incr_seq_prog k = observe [Rd V_curr_seq_number] (\<lambda>s.
     case incr_int (curr_seq_number s) of
       None \<Rightarrow> Die SignedOverflow
     | Some n \<Rightarrow> update [Wr V_curr_seq_number] (\<lambda>s1. s1\<lparr>curr_seq_number := n\<rparr>) k)"

section \<open>The watchdog threads\<close>

function datamsg_watchdog_prog :: "env \<Rightarrow> DataMessage \<Rightarrow> string \<Rightarrow> nat \<Rightarrow> code" where
  "datamsg_watchdog_prog e dm hostName watchdog_resend_cap =
     (if watchdog_resend_cap < WATCHDOG_RESEND_CAP
      then Lock AckHistoryMutex (observe [Rd V_ackHistory] (\<lambda>s.
        case map_of (ackHistory s) (to_int (dm_msg_id dm)) of
          None \<Rightarrow> Unlock AckHistoryMutex (Die DataMsgNotInAckHistory)
        | Some pm \<Rightarrow>
            if map_count pm (extract_int_from_string hostName) = 0
            then observe [] (\<lambda>s1. send_prog e hostName (serialize_data_message dm (uninit_packet e s1)) (\<lambda>rv.
              if rv = - 1 then Unlock AckHistoryMutex (Die SendFailed)
              else Unlock AckHistoryMutex (datamsg_watchdog_prog e dm hostName (watchdog_resend_cap + 1))))
            else Unlock AckHistoryMutex Halt))
      else Halt)"
  by pat_completeness auto
termination
  by (relation "measure (\<lambda>(e, dm, h, n). WATCHDOG_RESEND_CAP - n)") auto

function ackmsg_watchdog_prog :: "env \<Rightarrow> AckMessage \<Rightarrow> string \<Rightarrow> nat \<Rightarrow> code" where
  "ackmsg_watchdog_prog e am hostName watchdog_resend_cap =
     (if watchdog_resend_cap < WATCHDOG_RESEND_CAP
      then Lock SeqMessageHistoryMutex (observe [Rd V_seqMessageHistory] (\<lambda>s.
        if list_ex (\<lambda>sm. sm_sender sm = am_sender am \<and> sm_msg_id sm = am_msg_id am) (seqMessageHistory s)
        then Unlock SeqMessageHistoryMutex Halt
        else Unlock SeqMessageHistoryMutex
          (observe [] (\<lambda>s1. send_prog e hostName (serialize_ack_message am (uninit_packet e s1)) (\<lambda>rv.
             if rv = - 1 then Die SendFailed
             else ackmsg_watchdog_prog e am hostName (watchdog_resend_cap + 1))))))
      else Halt)"
  by pat_completeness auto
termination
  by (relation "measure (\<lambda>(e, am, h, n). WATCHDOG_RESEND_CAP - n)") auto

declare datamsg_watchdog_prog.simps [simp del] ackmsg_watchdog_prog.simps [simp del]

text \<open>\<open>std::thread watchdog(...); watchdog.detach();\<close> The list \<open>watchdogs\<close> of the state collects what was started.\<close>

fun watchdog_prog :: "env \<Rightarrow> watchdog \<Rightarrow> code" where
  "watchdog_prog e (DataWatchdog dm h n) = datamsg_watchdog_prog e dm h n"
| "watchdog_prog e (AckWatchdog am h n) = ackmsg_watchdog_prog e am h n"

definition start_watchdog :: "env \<Rightarrow> watchdog \<Rightarrow> code \<Rightarrow> code" where
  "start_watchdog e w k = update [] (\<lambda>s. s\<lparr>watchdogs := watchdogs s @ [w]\<rparr>)
     (Spawn WatchdogThread (watchdog_prog e w) k)"

section \<open>Multicasting\<close>

fun multicast_sends :: "env \<Rightarrow> DataMessage \<Rightarrow> u8 list \<Rightarrow> string list \<Rightarrow> code \<Rightarrow> code" where
  "multicast_sends e dm pkt [] k = k"
| "multicast_sends e dm pkt (h # hs) k = observe [] (\<lambda>s.
     if h \<noteq> current_container_name s
     then send_prog e h pkt (\<lambda>rv.
       if rv = - 1 then Die SendFailed
       else start_watchdog e (DataWatchdog dm h 0) (multicast_sends e dm pkt hs k))
     else multicast_sends e dm pkt hs k)"

definition multicast_datamsg_prog :: "env \<Rightarrow> u32 \<Rightarrow> code \<Rightarrow> code" where
  "multicast_datamsg_prog e data k =
     Step [Wr V_curr_msg_id]
       (\<lambda>s. case incr_int (curr_msg_id s) of None \<Rightarrow> s | Some n \<Rightarrow> s\<lparr>curr_msg_id := n\<rparr>) (\<lambda>s.
     case incr_int (curr_msg_id s) of
       None \<Rightarrow> Die SignedOverflow
     | Some next_id \<Rightarrow>
       let dm = \<lparr>dm_type = DATAMSG_TYPE, dm_sender = to_u32 (current_container_id s),
                 dm_msg_id = to_u32 (curr_msg_id s), dm_data = data\<rparr>
       in
       Lock DataHistoryMutex
       (update [Wr V_dataHistory]
         (\<lambda>s. s\<lparr>dataHistory := map_insert (to_int (dm_msg_id dm)) (to_int (dm_data dm)) (dataHistory s)\<rparr>)
       (Unlock DataHistoryMutex
       (incr_seq_prog
       (observe [Rd V_curr_seq_number] (\<lambda>s.
       let ackHistForThisMes = map_insert (current_container_id s) (curr_seq_number s) [] in
       Lock AckHistoryMutex
       (update [Wr V_ackHistory]
         (\<lambda>s. s\<lparr>ackHistory := map_insert (to_int (dm_msg_id dm)) ackHistForThisMes (ackHistory s)\<rparr>)
       (Unlock AckHistoryMutex
       (observe [Rd V_curr_seq_number] (\<lambda>s.
       let queuedMessage = make_queued_msg (to_u32 (curr_seq_number s)) UNDELIVERABLE (dm_sender dm)
             (dm_msg_id dm) (dm_data dm) (to_u32 (current_container_id s)) in
       Lock DeliveryQueueMutex
       (update [Wr V_deliveryQueue] (push_queue queuedMessage)
       (Unlock DeliveryQueueMutex
       (observe [] (\<lambda>s.
          multicast_sends e dm (serialize_data_message dm (uninit_packet e s))
            (take (nat (num_hosts s)) (hostNames s)) k))))))))))))))"

section \<open>Delivery\<close>

text \<open>\<open>delivered_flag\<close> is set when the loop has made a turn.\<close>

definition front_deliverable :: "QueuedMessage list \<Rightarrow> bool" where
  "front_deliverable q \<longleftrightarrow> q \<noteq> [] \<and> qm_status (hd q) = DELIVERABLE"

definition deliver_prog :: "code \<Rightarrow> code" where
  "deliver_prog k =
     Lock DeliveryQueueMutex
     (Lock DeliveredMessageMutex
     (Step [Wr V_deliveryQueue, Wr V_deliveredMessage] deliver_msg_from_deliveryqueue (\<lambda>s.
       let delivered_flag = front_deliverable (deliveryQueue s) in
       Unlock DeliveredMessageMutex
       (Unlock DeliveryQueueMutex
       (if delivered_flag
        then Lock DeliveredMessageMutex (observe [Rd V_deliveredMessage] (\<lambda>_. Unlock DeliveredMessageMutex k))
        else k)))))"

definition change_queue :: "u32 \<Rightarrow> u32 \<Rightarrow> u32 \<Rightarrow> u32 \<Rightarrow> rm \<Rightarrow> rm" where
  "change_queue sender msg_id seq prop s = s\<lparr>deliveryQueue :=
     snd (change_queued_msg_seq_and_status sender msg_id seq prop DELIVERABLE (deliveryQueue s))\<rparr>"

section \<open>The handlers\<close>

definition handle_datamsg_prog :: "env \<Rightarrow> DataMessage \<Rightarrow> code \<Rightarrow> code" where
  "handle_datamsg_prog e dm k =
     observe [Rd V_alreadyAckedMessages] (\<lambda>s.
     case find (\<lambda>am. am_sender am = dm_sender dm \<and> am_msg_id am = dm_msg_id dm) (alreadyAckedMessages s) of
       Some am \<Rightarrow>
         observe [] (\<lambda>s. reply_prog e (serialize_ack_message am (uninit_packet e s)) (\<lambda>rv. k))
     | None \<Rightarrow>
       observe [Rd V_curr_seq_number] (\<lambda>s.
       let toQueue = make_queued_msg (to_u32 (curr_seq_number s)) UNDELIVERABLE (dm_sender dm)
             (dm_msg_id dm) (dm_data dm) (to_u32 (current_container_id s)) in
       Lock DeliveryQueueMutex
       (update [Wr V_deliveryQueue] (push_queue toQueue)
       (Unlock DeliveryQueueMutex
       (observe [Rd V_curr_seq_number] (\<lambda>s.
       let ackMessage = make_ack_msg (dm_sender dm) (dm_msg_id dm) (to_u32 (curr_seq_number s))
             (to_u32 (current_container_id s)) in
       update [Wr V_alreadyAckedMessages]
         (\<lambda>s. s\<lparr>alreadyAckedMessages := alreadyAckedMessages s @ [ackMessage]\<rparr>)
       (observe [] (\<lambda>s.
       reply_prog e (serialize_ack_message ackMessage (uninit_packet e s)) (\<lambda>rv.
       incr_seq_prog
       (Step [Wr V_hostIDtoHostName]
         (\<lambda>s. s\<lparr>hostIDtoHostName := fst (subscript [] (hostIDtoHostName s) (to_int (dm_sender dm)))\<rparr>) (\<lambda>s.
       let rep_host_name = snd (subscript [] (hostIDtoHostName s) (to_int (dm_sender dm))) in
       start_watchdog e (AckWatchdog ackMessage rep_host_name 0) k)))))))))))"

fun broadcast_sends :: "env \<Rightarrow> u8 list \<Rightarrow> string list \<Rightarrow> code \<Rightarrow> code" where
  "broadcast_sends e pkt [] k = k"
| "broadcast_sends e pkt (h # hs) k = observe [] (\<lambda>s.
     if h \<noteq> current_container_name s
     then send_prog e h pkt (\<lambda>rv. if rv = - 1 then Die SendFailed else broadcast_sends e pkt hs k)
     else broadcast_sends e pkt hs k)"

definition broadcast_seq_prog :: "env \<Rightarrow> SeqMessage \<Rightarrow> code \<Rightarrow> code" where
  "broadcast_seq_prog e sm k = observe [] (\<lambda>s.
     broadcast_sends e (serialize_seq_message sm (uninit_packet e s)) (take (nat (num_hosts s)) (hostNames s)) k)"

text \<open>Both branches run with \<open>ackHistoryMutex\<close> held, and come back with it.\<close>

definition finalize_prog :: "env \<Rightarrow> AckMessage \<Rightarrow> ProposerSeq \<Rightarrow> code \<Rightarrow> code" where
  "finalize_prog e am pm k =
     (case get_max_sequence_from_proposerseq_map pm of
        (finalseq, finalseq_proposer) \<Rightarrow>
          let seqMessage = make_seq_msg (am_sender am) (am_msg_id am) finalseq finalseq_proposer in
          Lock SeqMessageHistoryMutex
          (update [Wr V_seqMessageHistory] (\<lambda>s. s\<lparr>seqMessageHistory := seqMessageHistory s @ [seqMessage]\<rparr>)
          (Unlock SeqMessageHistoryMutex
          (broadcast_seq_prog e seqMessage
          (Lock DeliveryQueueMutex
          (update [Wr V_deliveryQueue] (change_queue (am_sender am) (am_msg_id am) finalseq finalseq_proposer)
          (Unlock DeliveryQueueMutex
          (deliver_prog k))))))))"

definition resend_seq_prog :: "env \<Rightarrow> AckMessage \<Rightarrow> code \<Rightarrow> code" where
  "resend_seq_prog e am k =
     Lock SeqMessageHistoryMutex (observe [Rd V_seqMessageHistory] (\<lambda>s.
     case find (\<lambda>sm. sm_msg_id sm = am_msg_id am \<and> sm_sender sm = am_sender am) (seqMessageHistory s) of
       None \<Rightarrow> Unlock SeqMessageHistoryMutex (Unlock AckHistoryMutex (Die SeqMsgNotInHistory))
     | Some sm \<Rightarrow> observe [] (\<lambda>s. reply_prog e (serialize_seq_message sm (uninit_packet e s)) (\<lambda>rv.
         if rv = - 1 then Unlock SeqMessageHistoryMutex (Die SendFailed)
         else Unlock SeqMessageHistoryMutex k))))"

definition handle_ackmsg_prog :: "env \<Rightarrow> AckMessage \<Rightarrow> code \<Rightarrow> code" where
  "handle_ackmsg_prog e am k =
     (let msg_id = to_int (am_msg_id am); prop = to_int (am_proposer am);
          out = Unlock AckHistoryMutex k in
      Lock AckHistoryMutex
      (Step [Wr V_ackHistory] (\<lambda>s. s\<lparr>ackHistory := fst (subscript [] (ackHistory s) msg_id)\<rparr>) (\<lambda>s.
      let pm = snd (subscript [] (ackHistory s) msg_id) in
      if map_count pm prop = 0
      then incr_seq_prog
        (let pm' = map_insert prop (to_int (am_proposed_seq am)) pm in
         Step [Wr V_ackHistory] (\<lambda>s. s\<lparr>ackHistory := map_store msg_id pm' (ackHistory s)\<rparr>) (\<lambda>s.
         if int (length pm') = num_hosts s then finalize_prog e am pm' out else out))
      else if int (length pm) = num_hosts s then resend_seq_prog e am out
      else out)))"

definition handle_seqmsg_prog :: "env \<Rightarrow> SeqMessage \<Rightarrow> code \<Rightarrow> code" where
  "handle_seqmsg_prog e sm k =
     Lock DeliveryQueueMutex
     (Step [Wr V_deliveryQueue]
       (change_queue (sm_sender sm) (sm_msg_id sm) (sm_final_seq sm) (sm_final_seq_proposer sm)) (\<lambda>s.
     let rv = fst (change_queued_msg_seq_and_status (sm_sender sm) (sm_msg_id sm) (sm_final_seq sm)
           (sm_final_seq_proposer sm) DELIVERABLE (deliveryQueue s)) in
     Unlock DeliveryQueueMutex
     (Lock DeliveredMessageMutex
     (if rv = - 1
      then observe [Rd V_deliveredMessage] (\<lambda>s.
        if list_ex (is_msg (sm_sender sm) (sm_msg_id sm)) (deliveredMessage s)
        then Unlock DeliveredMessageMutex k
        else Unlock DeliveredMessageMutex (Die UnknownSeqMessage))
      else Unlock DeliveredMessageMutex
        (Lock SeqMessageHistoryMutex
        (update [Wr V_seqMessageHistory] (\<lambda>s. s\<lparr>seqMessageHistory := seqMessageHistory s @ [sm]\<rparr>)
        (Unlock SeqMessageHistoryMutex
        (deliver_prog k))))))))"

section \<open>The receiver thread\<close>

definition dispatch_prog :: "env \<Rightarrow> code \<Rightarrow> code" where
  "dispatch_prog e k = observe [Rd V_msg_buf] (\<lambda>s.
     let type = unpacku32 (msg_buf s) 0 in
     if type = ucast DATAMSG_TYPE then handle_datamsg_prog e (deserialize_data_message (msg_buf s)) k
     else if type = ucast ACKMSG_TYPE then handle_ackmsg_prog e (deserialize_ack_message (msg_buf s)) k
     else if type = ucast SEQMSG_TYPE then handle_seqmsg_prog e (deserialize_seq_message (msg_buf s)) k
     else Die (WrongType type))"

definition record_inbound_prog :: "code \<Rightarrow> code" where
  "record_inbound_prog k =
     Lock RecordMessagesMutex (observe [Rd V_recordMessages] (\<lambda>s.
       if recordMessages s
       then Lock InboundMessageBufferMutex
         (update [Rd V_msg_buf, Wr V_inboundMessageBuffer]
           (\<lambda>s. s\<lparr>snapshot := (snapshot s)
              \<lparr>inboundMessageBuffer := inboundMessageBuffer (snapshot s) @ [msg_buf s]\<rparr>\<rparr>)
         (Unlock InboundMessageBufferMutex
         (Unlock RecordMessagesMutex k)))
       else Unlock RecordMessagesMutex k))"

definition received_prog :: "env \<Rightarrow> packet option \<Rightarrow> code \<Rightarrow> code" where
  "received_prog e received k =
     (case received of
        None \<Rightarrow> Die RecvFailed
      | Some p \<Rightarrow>
          Step [Wr V_msg_buf, Wr V_their_addr]
            (\<lambda>s. case recv_into (msg_buf s) (p_payload p) of
                   None \<Rightarrow> s | Some buf \<Rightarrow> s\<lparr>msg_buf := buf, their_addr := p_src p\<rparr>) (\<lambda>s.
            case recv_into (msg_buf s) (p_payload p) of
              None \<Rightarrow> Die BufferOverflow
            | Some buf \<Rightarrow>
                record_inbound_prog (dispatch_prog e
                  (update [Wr V_recv_cap] (\<lambda>s. s\<lparr>recv_cap := recv_cap s + 1\<rparr>) k))))"

text \<open>\<open>cap\<close> is the value of \<open>recv_cap\<close>, which only this thread changes.\<close>

function msg_receiver_prog :: "env \<Rightarrow> int \<Rightarrow> code" where
  "msg_receiver_prog e cap =
     (if cap < RECV_CAP then Recv (\<lambda>received. received_prog e received (msg_receiver_prog e (cap + 1)))
      else Forever)"
  by pat_completeness auto
termination
  by (relation "measure (\<lambda>(e, cap). nat (RECV_CAP - cap))") auto

declare msg_receiver_prog.simps [simp del]

section \<open>The snapshot daemon\<close>

definition local_snapshot_prog :: "code \<Rightarrow> code" where
  "local_snapshot_prog k =
     Lock DeliveryQueueMutex (observe [Rd V_deliveryQueue] (\<lambda>s.
     let q = deliveryQueue s in
     Unlock DeliveryQueueMutex
     (Lock DeliveredMessageMutex (observe [Rd V_deliveredMessage] (\<lambda>s.
     let d = deliveredMessage s in
     Unlock DeliveredMessageMutex
     (update [Wr V_locsnap]
       (\<lambda>s. s\<lparr>snapshot := (snapshot s)
          \<lparr>locsnap := \<lparr>ls_deliveryQueue = q, ls_deliveredMessage = d\<rparr>\<rparr>\<rparr>) k))))))"

definition start_recording_prog :: "code \<Rightarrow> code" where
  "start_recording_prog k = Lock RecordMessagesMutex
     (update [Wr V_recordMessages] (\<lambda>s. s\<lparr>recordMessages := True\<rparr>) (Unlock RecordMessagesMutex k))"

definition stop_recording_prog :: "code \<Rightarrow> code" where
  "stop_recording_prog k = Lock RecordMessagesMutex
     (update [Wr V_recordMessages] (\<lambda>s. s\<lparr>recordMessages := False\<rparr>) (Unlock RecordMessagesMutex k))"

fun marker_sends :: "env \<Rightarrow> string list \<Rightarrow> code \<Rightarrow> code" where
  "marker_sends e [] k = k"
| "marker_sends e (h # hs) k = observe [] (\<lambda>s.
     if h \<noteq> curr_container_name (snapshot s)
     then Step []
       (\<lambda>s. let s1 = s\<lparr>ticks := Suc (ticks s)\<rparr> in
          if tcp_send_rv e (ticks s) (connect_and_get_socket (tcp_connect e (ticks s))) = - 1 then s1
          else (case tcp_connect e (ticks s) of
                  Connected fd \<Rightarrow> s1\<lparr>marker_outbox := marker_outbox s1 @
                    [\<lparr>mk_src = curr_container_name (snapshot s1), mk_dst = h, mk_text = our_id s1\<rparr>]\<rparr>
                | _ \<Rightarrow> s1))
       (\<lambda>s. if tcp_send_rv e (ticks s) (connect_and_get_socket (tcp_connect e (ticks s))) = - 1
          then Die MarkerSendFailed else marker_sends e hs k)
     else marker_sends e hs k)"

definition broadcast_markers_prog :: "env \<Rightarrow> code \<Rightarrow> code" where
  "broadcast_markers_prog e k = observe [] (\<lambda>s.
     marker_sends e (take (nat (snap_num_hosts (snapshot s))) (snap_hostNames (snapshot s))) k)"

definition initiate_snapshot_prog :: "env \<Rightarrow> code \<Rightarrow> code" where
  "initiate_snapshot_prog e k =
     local_snapshot_prog
     (update [Wr V_amInitiator] (\<lambda>s. s\<lparr>snapshot := (snapshot s)\<lparr>amInitiator := True\<rparr>\<rparr>)
     (start_recording_prog
     (broadcast_markers_prog e k)))"

definition drain_prog :: "direction \<Rightarrow> code \<Rightarrow> code" where
  "drain_prog d k =
     (case d of
        INBOUND \<Rightarrow>
          Lock InboundMessageBufferMutex
          (Step [Wr V_inboundMessageBuffer, Wr V_inboundChannelState, Rd V_alreadyReceivedProc]
            (\<lambda>s. case drain_inbound (snapshot s) of Inl err \<Rightarrow> s | Inr c \<Rightarrow> s\<lparr>snapshot := c\<rparr>)
            (\<lambda>s. case drain_inbound (snapshot s) of
                Inl err \<Rightarrow> Die err | Inr c \<Rightarrow> Unlock InboundMessageBufferMutex k))
      | OUTBOUND \<Rightarrow>
          Lock OutboundMessageBufferMutex
          (Step [Wr V_outboundMessageBuffer, Wr V_outboundChannelState, Rd V_alreadyReceivedProc]
            (\<lambda>s. case drain_outbound (snapshot s) of Inl err \<Rightarrow> s | Inr c \<Rightarrow> s\<lparr>snapshot := c\<rparr>)
            (\<lambda>s. case drain_outbound (snapshot s) of
                Inl err \<Rightarrow> Die err | Inr c \<Rightarrow> Unlock OutboundMessageBufferMutex k)))"

definition accept_prog :: "accepted \<Rightarrow> code \<Rightarrow> code" where
  "accept_prog r k =
     (case r of
        AcceptFailed \<Rightarrow> k
      | RecvError \<Rightarrow> Die MarkerRecvFailed
      | Bytes bytes \<Rightarrow>
          update [Wr V_marker_buf] (\<lambda>s. s\<lparr>marker_buf := store_marker bytes (marker_buf s)\<rparr>) k)"

definition mark_prog :: "code \<Rightarrow> code" where
  "mark_prog k = update [Rd V_marker_buf, Wr V_alreadyReceivedProc] (\<lambda>s. mark_received (marker_id s) s) k"

text \<open>After the loop: stop recording, print the local snapshot and the channels, return.\<close>

definition finish_prog :: code where
  "finish_prog = stop_recording_prog
     (update [Rd V_locsnap, Rd V_inboundChannelState, Rd V_outboundChannelState, Wr V_listener_pc]
       (\<lambda>s. s\<lparr>listener_pc := Finished\<rparr>) Halt)"

definition await_prog :: "(accepted \<Rightarrow> code) \<Rightarrow> code" where
  "await_prog f = update [Wr V_listener_pc] (\<lambda>s. s\<lparr>listener_pc := AwaitNext\<rparr>) (Accept f)"

text \<open>\<open>n\<close> is \<open>alreadyReceivedProc.size()\<close>, which only this thread changes, \<open>others\<close> is \<open>num_hosts-1\<close>.\<close>

function listener_loop_prog :: "int \<Rightarrow> int \<Rightarrow> code" where
  "listener_loop_prog others n =
     (if n < others
      then drain_prog INBOUND (drain_prog OUTBOUND (mark_prog
        (if n + 1 = others then finish_prog
         else await_prog (\<lambda>r. accept_prog r (listener_loop_prog others (n + 1))))))
      else finish_prog)"
  by pat_completeness auto
termination
  by (relation "measure (\<lambda>(others, n). nat (others - n))") auto

declare listener_loop_prog.simps [simp del]

definition first_marker_prog :: "env \<Rightarrow> int \<Rightarrow> accepted \<Rightarrow> code" where
  "first_marker_prog e others r = accept_prog r
     (observe [Rd V_amInitiator] (\<lambda>s.
      if amInitiator (snapshot s) then listener_loop_prog others 0
      else mark_prog (local_snapshot_prog (start_recording_prog (broadcast_markers_prog e
        (if 1 < others then await_prog (\<lambda>r. accept_prog r (listener_loop_prog others 1))
         else listener_loop_prog others 1))))))"

definition listener_prog :: "env \<Rightarrow> code" where
  "listener_prog e = observe [] (\<lambda>s.
     Accept (first_marker_prog e (to_size_t (snap_num_hosts (snapshot s) - 1))))"

section \<open>The main thread\<close>

text \<open>The loop of \<open>main\<close>; then \<open>join\<close>, for ever, as the receiver does not return.\<close>

function main_prog :: "env \<Rightarrow> params \<Rightarrow> int \<Rightarrow> code" where
  "main_prog e p i =
     (if i < num_msg_tosend p
      then if \<not> fits_int (i * 198) then Die SignedOverflow
        else multicast_datamsg_prog e (to_u32 (i * 198 mod 27))
          (if i = snapshotafter p - 1 then initiate_snapshot_prog e (main_prog e p (i + 1))
           else main_prog e p (i + 1))
      else Forever)"
  by pat_completeness auto
termination
  by (relation "measure (\<lambda>(e, p, i). nat (num_msg_tosend p - i))") auto

declare main_prog.simps [simp del]

text \<open>A process as soon as \<open>main\<close> has started the receiver; the constructor has started the listener.\<close>

definition process_threads :: "env \<Rightarrow> params \<Rightarrow> rm \<Rightarrow>
    (mutex, var, role, rm, exit_reason, packet option, accepted) conf" where
  "process_threads e p s = Running s
     [(MainThread, [], main_prog e p 0), (ReceiverThread, [], msg_receiver_prog e 1),
      (ListenerThread, [], listener_prog e)]"

end
