(* ===== verification/ThreadsAlone.thy ===== *)
theory ThreadsAlone
  imports ThreadPrograms
begin

text \<open>
  The programs of \<open>ThreadPrograms\<close> run without interference are the handlers of \<open>Process\<close> and
  \<open>Snapshot\<close>: splitting a function into its accesses and critical sections has changed nothing but what
  other threads may do in between.
\<close>

section \<open>Going on after a function\<close>

fun continue :: "outcome \<Rightarrow> code \<Rightarrow> outcome" where
  "continue (Inl err) k = Inl err"
| "continue (Inr s) k = alone k s"

lemma continue_case: "continue r k = (case r of Inl err \<Rightarrow> Inl err | Inr s \<Rightarrow> alone k s)"
  by (cases r) simp_all

named_theorems alone_is \<open>what a program does when it runs alone\<close>

lemma alone_transmit:
  assumes "\<And>s t. dst (s\<lparr>ticks := t\<rparr>) = dst s" "\<And>s c. dst (s\<lparr>snapshot := c\<rparr>) = dst s"
  shows "alone (transmit_prog acc dst e pkt k) s = (case transmit e (dst s) pkt s of (rv, s1) \<Rightarrow> alone (k rv) s1)"
  by (simp add: transmit_prog_def transmit_def record_outbound_def random_uniform_from_0_to_1_def Let_def assms)

lemma alone_reply [alone_is]: "alone (reply_prog e pkt k) s =
    (case reply_msg_with_drop_and_delay e pkt s of (rv, s1) \<Rightarrow> alone (k rv) s1)"
  by (simp add: reply_prog_def reply_msg_with_drop_and_delay_def alone_transmit)

lemma alone_send [alone_is]: "alone (send_prog e h pkt k) s =
    (case send_msg_with_drop_and_delay e h pkt s of (rv, s1) \<Rightarrow> alone (k rv) s1)"
  by (simp add: send_prog_def send_msg_with_drop_and_delay_def alone_transmit)

lemma alone_incr [alone_is]: "alone (incr_seq_prog k) s = continue (incr_seq_number s) k"
  by (simp add: incr_seq_prog_def incr_seq_number_def split: option.split)

lemma alone_start [alone_is]: "alone (start_watchdog e w k) s = alone k (s\<lparr>watchdogs := watchdogs s @ [w]\<rparr>)"
  by (simp add: start_watchdog_def)

section \<open>Multicasting\<close>

lemma alone_multicast_sends [alone_is]:
  "alone (multicast_sends e dm pkt hs k) s = continue (multicast_loop e dm pkt hs s) k"
  by (induction hs arbitrary: s) (simp_all add: alone_is split: prod.split)

lemma thread_alone_multicast [alone_is]:
  assumes "curr_msg_id s \<noteq> INT_MAX" "curr_seq_number s \<noteq> INT_MAX"
  shows "alone (multicast_datamsg_prog e data k) s = continue (multicast_datamsg e data s) k"
  using assms
  by (simp add: multicast_datamsg_prog_def multicast_datamsg_def incr_int_def incr_seq_number_def alone_is
      Let_def push_queue_def)

section \<open>The handlers\<close>

lemma alone_handle_datamsg [alone_is]:
  "alone (handle_datamsg_prog e dm k) s = continue (handle_datamsg e dm s) k"
  by (simp add: handle_datamsg_prog_def handle_datamsg_def alone_is Let_def continue_case prod.case_eq_if
      split: option.split sum.split)

lemma alone_deliver [alone_is]: "alone (deliver_prog k) s = alone k (deliver_msg_from_deliveryqueue s)"
  by (simp add: deliver_prog_def Let_def)

lemma alone_broadcast_sends [alone_is]:
  "alone (broadcast_sends e pkt hs k) s = continue (broadcast_loop e pkt hs s) k"
  by (induction hs arbitrary: s) (simp_all add: alone_is split: prod.split)

lemma alone_broadcast_seq [alone_is]:
  "alone (broadcast_seq_prog e sm k) s = continue (broadcast_seq_msg e sm s) k"
  by (simp add: broadcast_seq_prog_def broadcast_seq_msg_def alone_is)

lemma alone_finalize [alone_is]:
  "alone (finalize_prog e am pm k) s = continue (finalize_message e am pm s) k"
  by (simp add: finalize_prog_def finalize_message_def alone_is Let_def continue_case change_queue_def
      prod.case_eq_if split: sum.split)

lemma alone_resend [alone_is]:
  "alone (resend_seq_prog e am k) s = continue (resend_seq_msg e am s) k"
  by (simp add: resend_seq_prog_def resend_seq_msg_def alone_is split: option.split prod.split)

lemma alone_handle_ackmsg [alone_is]:
  "alone (handle_ackmsg_prog e am k) s = continue (handle_ackmsg e am s) k"
  by (simp add: handle_ackmsg_prog_def handle_ackmsg_def alone_is Let_def continue_case prod.case_eq_if
      split: sum.split)

lemma alone_handle_seqmsg [alone_is]:
  "alone (handle_seqmsg_prog e sm k) s = continue (handle_seqmsg e sm s) k"
  by (simp add: handle_seqmsg_prog_def handle_seqmsg_def alone_is Let_def change_queue_def prod.case_eq_if)

section \<open>The receiver\<close>

lemma alone_dispatch [alone_is]: "alone (dispatch_prog e k) s = continue (dispatch e s) k"
  by (simp add: dispatch_prog_def dispatch_def alone_is Let_def)

lemma alone_record_inbound [alone_is]: "alone (record_inbound_prog k) s = alone k (record_inbound s)"
  by (simp add: record_inbound_prog_def record_inbound_def)

lemma alone_received:
  "recv_cap s < RECV_CAP \<Longrightarrow>
   alone (received_prog e r k) s = continue (msg_receiver_turn e r s) k"
  by (simp add: received_prog_def msg_receiver_turn_def alone_is continue_case split: option.split sum.split)

section \<open>The watchdogs\<close>

text \<open>One pass of a watchdog, as long as it has attempts left.\<close>

lemma alone_watchdog:
  assumes "attempts w < WATCHDOG_RESEND_CAP"
  shows "alone (watchdog_prog e w) s =
    (case watchdog_pass e w s of
       Inl err \<Rightarrow> Inl err
     | Inr (finished, s1) \<Rightarrow> if finished then Inr s1 else alone (watchdog_prog e (next_attempt w)) s1)"
proof (cases w)
  case (DataWatchdog dm h n)
  with assms show ?thesis
    by (simp add: datamsg_watchdog_prog.simps [of e dm h n] datamsg_watchdog_pass_def alone_is
        split: option.split prod.split)
next
  case (AckWatchdog am h n)
  with assms show ?thesis
    by (simp add: ackmsg_watchdog_prog.simps [of e am h n] ackmsg_watchdog_pass_def alone_is split: prod.split)
qed

section \<open>The snapshot daemon\<close>

lemma alone_local_snapshot [alone_is]: "alone (local_snapshot_prog k) s = alone k (take_local_snapshot s)"
  by (simp add: local_snapshot_prog_def take_local_snapshot_def get_local_state_snapshot_def Let_def)

lemma alone_start_recording [alone_is]:
  "alone (start_recording_prog k) s = alone k (tell_rm_to_start_recording_channel s)"
  by (simp add: start_recording_prog_def tell_rm_to_start_recording_channel_def)

lemma alone_marker_sends [alone_is]:
  "alone (marker_sends e hs k) s = continue (marker_loop e hs s) k"
  by (induction hs arbitrary: s) (simp_all add: Let_def)

lemma alone_broadcast_markers [alone_is]:
  "alone (broadcast_markers_prog e k) s = continue (broadcast_markers e s) k"
  by (simp add: broadcast_markers_prog_def broadcast_markers_def alone_is)

lemma alone_initiate [alone_is]:
  "alone (initiate_snapshot_prog e k) s = continue (initiate_snapshot e s) k"
  by (simp add: initiate_snapshot_prog_def initiate_snapshot_def alone_is Let_def)

lemma alone_finish [alone_is]: "alone finish_prog s = Inr (finish_snapshot s)"
  by (simp add: finish_prog_def stop_recording_prog_def finish_snapshot_def tell_rm_to_stop_recording_def)

lemma alone_accept:
  "alone (accept_prog r k) s = continue (accept_and_recv r s) k"
  by (cases r) (simp_all add: accept_prog_def)

text \<open>\<open>others\<close> and \<open>n\<close> are the bound and the counter of the listener's loop in the state \<open>s\<close>.\<close>

definition counts :: "int \<Rightarrow> int \<Rightarrow> rm \<Rightarrow> bool" where
  "counts others n s \<longleftrightarrow> others = to_size_t (snap_num_hosts (snapshot s) - 1) \<and>
     n = int (length (alreadyReceivedProc (snapshot s)))"

lemma drained_keeps:
  assumes "drain_messages d bs c = Inr c'"
  shows "snap_num_hosts c' = snap_num_hosts c \<and> alreadyReceivedProc c' = alreadyReceivedProc c"
  using assms
proof (induction bs arbitrary: c)
  case (Cons b bs)
  then obtain c1 where c1: "handle_message (take MAX_STRUCT_SIZE b) d c = Inr c1" "drain_messages d bs c1 = Inr c'"
    by (auto split: sum.splits)
  have "snap_num_hosts c1 = snap_num_hosts c \<and> alreadyReceivedProc c1 = alreadyReceivedProc c"
    using c1(1) by (cases d) (auto simp: handle_message_def add_msg_to_inbound_def add_msg_to_outbound_def
        split: sum.splits prod.splits)
  with Cons.IH [OF c1(2)] show ?case by simp
qed simp

lemma alone_drain:
  "alone (drain_prog INBOUND k) s = (case drain_inbound (snapshot s) of
     Inl err \<Rightarrow> Inl (err, s) | Inr c \<Rightarrow> alone k (s\<lparr>snapshot := c\<rparr>))"
  "alone (drain_prog OUTBOUND k) s = (case drain_outbound (snapshot s) of
     Inl err \<Rightarrow> Inl (err, s) | Inr c \<Rightarrow> alone k (s\<lparr>snapshot := c\<rparr>))"
  by (simp_all add: drain_prog_def split: sum.split)

lemma drain_counts:
  "drain_inbound (snapshot s) = Inr c1 \<Longrightarrow> drain_outbound c1 = Inr c2 \<Longrightarrow> counts others n s \<Longrightarrow>
   counts others n (s\<lparr>snapshot := c2\<rparr>)"
  by (auto simp: drain_inbound_def drain_outbound_def counts_def split: sum.splits dest!: drained_keeps)

lemma alone_listener_loop:
  assumes "counts others n s"
  shows "alone (listener_loop_prog others n) s = process_marker s"
proof -
  have b: "markers_missing s \<longleftrightarrow> n < others" using assms by (simp add: markers_missing_def counts_def)
  have a: "all_markers (mark_received m s1) \<longleftrightarrow> n + 1 = others" if "counts others n s1" for s1 m
    using that by (auto simp: all_markers_def counts_def mark_received_def)
  show ?thesis
    using drain_counts [OF _ _ assms]
    by (simp add: listener_loop_prog.simps [of others n] process_marker_def b a alone_drain mark_prog_def
        await_prog_def marker_id_def alone_is Let_def split: sum.split)
qed

lemma counts_frame:
  "counts others n (take_local_snapshot s) = counts others n s"
  "counts others n (tell_rm_to_start_recording_channel s) = counts others n s"
  "counts others n (mark_received m s) = counts others (n - 1) s"
  by (auto simp: counts_def take_local_snapshot_def tell_rm_to_start_recording_channel_def mark_received_def)

lemma marker_loop_counts: "marker_loop e hs s = Inr s1 \<Longrightarrow> counts others n s1 = counts others n s"
proof (induction hs arbitrary: s)
  case (Cons h hs)
  show ?case
  proof (cases "h \<noteq> curr_container_name (snapshot s)")
    case True
    with Cons.prems obtain s2 where "marker_loop e hs s2 = Inr s1" "snapshot s2 = snapshot s"
      by (auto simp: Let_def split: if_splits connect_outcome.splits)
    with Cons.IH show ?thesis by (simp add: counts_def)
  next
    case False
    with Cons show ?thesis by simp
  qed
qed simp

lemma alone_first_marker:
  assumes "counts others 0 s"
  shows "alone (first_marker_prog e others r) s =
    (case accept_and_recv r s of Inl err \<Rightarrow> Inl err | Inr s1 \<Rightarrow> first_marker e s1)"
proof -
  have c: "counts others 0 s1" if "accept_and_recv r s = Inr s1" for s1
    using that assms by (cases r) (auto simp: counts_def)
  let ?s3 = "\<lambda>s1. tell_rm_to_start_recording_channel (take_local_snapshot (mark_received (marker_id s1) s1))"
  define tail where "tail = (if 1 < others then await_prog (\<lambda>r. accept_prog r (listener_loop_prog others 1))
    else listener_loop_prog others 1)"
  have "alone tail s4 =
      (if markers_missing s4 then Inr (s4\<lparr>listener_pc := AwaitNext\<rparr>) else Inr (finish_snapshot s4))"
    if "broadcast_markers e (?s3 s1) = Inr s4" "counts others 0 s1" for s1 s4
  proof -
    have s4: "counts others 1 s4"
      using that marker_loop_counts by (fastforce simp: broadcast_markers_def counts_frame)
    then have "markers_missing s4 \<longleftrightarrow> 1 < others" by (auto simp: markers_missing_def counts_def)
    then show ?thesis
      using alone_listener_loop [OF s4] by (simp add: tail_def await_prog_def process_marker_def)
  qed
  then show ?thesis
    unfolding first_marker_prog_def tail_def [symmetric]
    using c by (simp add: first_marker_def alone_accept continue_case alone_is mark_prog_def
        alone_listener_loop Let_def split: sum.split)
qed

lemma alone_listener_turn:
  assumes "listener_pc s = AwaitFirst" "counts others 0 s"
  shows "alone (first_marker_prog e others r) s = listener_turn e r s"
  using alone_first_marker [OF assms(2)] assms(1) by (simp add: listener_turn_def)

lemma alone_listener_next:
  assumes "listener_pc s = AwaitNext" "counts others n s"
  shows "alone (accept_prog r (listener_loop_prog others n)) s = listener_turn e r s"
proof -
  have c: "counts others n s1" if "accept_and_recv r s = Inr s1" for s1
    using that assms(2) by (cases r) (auto simp: counts_def)
  then show ?thesis
    using assms(1) by (simp add: listener_turn_def alone_accept continue_case alone_listener_loop split: sum.split)
qed

section \<open>The main thread\<close>

lemma alone_main:
  assumes "curr_msg_id s \<noteq> INT_MAX" "curr_seq_number s \<noteq> INT_MAX" "i < num_msg_tosend p"
  shows "alone (main_prog e p i) s = continue (main_iteration e p i s) (main_prog e p (i + 1))"
  using assms
  by (simp add: main_prog.simps [of e p i] main_iteration_def alone_is continue_case split: sum.split)

end
