(* ===== verification/ThreadLocks.thy ===== *)
theory ThreadLocks
  imports ThreadsAlone
begin

text \<open>
  The mutexes of a process: which one guards which member, in which order they are taken, and which members
  have none. All thread programs keep to this, so no interleaving of the threads deadlocks, and conflicting
  accesses of two threads at the same time are possible on three members only.
\<close>

section \<open>The policy\<close>

fun guard :: "var \<Rightarrow> mutex option" where
  "guard V_deliveryQueue = Some DeliveryQueueMutex"
| "guard V_deliveredMessage = Some DeliveredMessageMutex"
| "guard V_seqMessageHistory = Some SeqMessageHistoryMutex"
| "guard V_ackHistory = Some AckHistoryMutex"
| "guard V_dataHistory = Some DataHistoryMutex"
| "guard V_recordMessages = Some RecordMessagesMutex"
| "guard V_inboundMessageBuffer = Some InboundMessageBufferMutex"
| "guard V_outboundMessageBuffer = Some OutboundMessageBufferMutex"
| "guard v = None"

text \<open>Who uses the members that no mutex guards.\<close>

fun users :: "var \<Rightarrow> role list" where
  "users V_curr_msg_id = [MainThread]"
| "users V_curr_seq_number = [MainThread, ReceiverThread]"
| "users V_their_addr = [ReceiverThread]"
| "users V_alreadyAckedMessages = [ReceiverThread]"
| "users V_hostIDtoHostName = [ReceiverThread]"
| "users V_recv_cap = [ReceiverThread]"
| "users V_msg_buf = [ReceiverThread]"
| "users V_locsnap = [MainThread, ListenerThread]"
| "users V_amInitiator = [MainThread, ListenerThread]"
| "users V_alreadyReceivedProc = [ListenerThread]"
| "users V_inboundChannelState = [ListenerThread]"
| "users V_outboundChannelState = [ListenerThread]"
| "users V_marker_buf = [ListenerThread]"
| "users V_listener_pc = [ListenerThread]"
| "users v = []"

definition may :: "role \<Rightarrow> mutex list \<Rightarrow> var access \<Rightarrow> bool" where
  "may r L a = (case guard (var_of a) of Some m \<Rightarrow> m \<in> set L | None \<Rightarrow> r \<in> set (users (var_of a)))"

lemma may_access:
  "may r L (Rd v) = (case guard v of Some m \<Rightarrow> m \<in> set L | None \<Rightarrow> r \<in> set (users v))"
  "may r L (Wr v) = (case guard v of Some m \<Rightarrow> m \<in> set L | None \<Rightarrow> r \<in> set (users v))"
  by (simp_all add: may_def split: option.split)

definition several :: "role \<Rightarrow> bool" where
  "several r \<longleftrightarrow> r = WatchdogThread"

text \<open>Every nesting of two mutexes in the code goes from a lesser to a greater rank.\<close>

fun mutex_rank :: "mutex \<Rightarrow> nat" where
  "mutex_rank AckHistoryMutex = 0"
| "mutex_rank DataHistoryMutex = 0"
| "mutex_rank DeliveryQueueMutex = 1"
| "mutex_rank SeqMessageHistoryMutex = 1"
| "mutex_rank DeliveredMessageMutex = 2"
| "mutex_rank RecordMessagesMutex = 2"
| "mutex_rank InboundMessageBufferMutex = 3"
| "mutex_rank OutboundMessageBufferMutex = 3"

definition unguarded_pair :: "role \<Rightarrow> role \<Rightarrow> var \<Rightarrow> bool" where
  "unguarded_pair r r' v \<longleftrightarrow>
     v = V_curr_seq_number \<and> {r, r'} = {MainThread, ReceiverThread} \<or>
     v \<in> {V_locsnap, V_amInitiator} \<and> {r, r'} = {MainThread, ListenerThread}"

abbreviation ok :: "code \<Rightarrow> role \<Rightarrow> mutex list \<Rightarrow> bool" where
  "ok \<equiv> disciplined mutex_rank may several"

text \<open>\<open>RecordMessagesMutex\<close> may still be taken.\<close>

definition below_record :: "mutex list \<Rightarrow> bool" where
  "below_record L \<longleftrightarrow> list_all (\<lambda>m. mutex_rank m < mutex_rank RecordMessagesMutex) L"

lemma below_record [simp]:
  "below_record []" "below_record [AckHistoryMutex]" "below_record [SeqMessageHistoryMutex, AckHistoryMutex]"
  by (simp_all add: below_record_def)

section \<open>The programs keep to it\<close>

named_theorems ok_intros \<open>the programs are disciplined\<close>

lemma ok_transmit:
  assumes "below_record L" "list_all (may r L) acc" "\<And>rv. ok (k rv) r L"
  shows "ok (transmit_prog acc dst e pkt k) r L"
  using assms by (auto simp: transmit_prog_def Let_def below_record_def may_def list_all_iff)

lemma ok_send [ok_intros]: "below_record L \<Longrightarrow> (\<And>rv. ok (k rv) r L) \<Longrightarrow> ok (send_prog e h pkt k) r L"
  by (simp add: send_prog_def ok_transmit)

lemma ok_reply [ok_intros]:
  "below_record L \<Longrightarrow> (\<And>rv. ok (k rv) ReceiverThread L) \<Longrightarrow> ok (reply_prog e pkt k) ReceiverThread L"
  by (simp add: reply_prog_def ok_transmit may_access)

lemma ok_incr [ok_intros]:
  "r \<in> {MainThread, ReceiverThread} \<Longrightarrow> ok k r L \<Longrightarrow> ok (incr_seq_prog k) r L"
  by (auto simp: incr_seq_prog_def may_access split: option.split)

lemma ok_data_watchdog: "ok (datamsg_watchdog_prog e dm h n) WatchdogThread []"
proof (induction e dm h n rule: datamsg_watchdog_prog.induct)
  case (1 e dm h n)
  then show ?case
    by (subst datamsg_watchdog_prog.simps) (auto simp: may_access intro!: ok_intros split: option.split)
qed

lemma ok_ack_watchdog: "ok (ackmsg_watchdog_prog e am h n) WatchdogThread []"
proof (induction e am h n rule: ackmsg_watchdog_prog.induct)
  case (1 e am h n)
  then show ?case
    by (subst ackmsg_watchdog_prog.simps) (auto simp: may_access intro!: ok_intros)
qed

lemma ok_start [ok_intros]: "ok k r L \<Longrightarrow> ok (start_watchdog e w k) r L"
  by (cases w) (simp_all add: start_watchdog_def several_def ok_data_watchdog ok_ack_watchdog)

lemma ok_multicast_sends [ok_intros]: "ok k r [] \<Longrightarrow> ok (multicast_sends e dm pkt hs k) r []"
  by (induction hs) (auto intro!: ok_intros)

lemma ok_multicast [ok_intros]: "ok k MainThread [] \<Longrightarrow> ok (multicast_datamsg_prog e data k) MainThread []"
  by (auto simp: multicast_datamsg_prog_def may_access Let_def intro!: ok_intros split: option.split)

lemma ok_deliver [ok_intros]: "L = [] \<or> L = [AckHistoryMutex] \<Longrightarrow> ok k r L \<Longrightarrow> ok (deliver_prog k) r L"
  by (auto simp: deliver_prog_def may_access Let_def)

lemma ok_handle_datamsg [ok_intros]: "ok k ReceiverThread [] \<Longrightarrow> ok (handle_datamsg_prog e dm k) ReceiverThread []"
  by (auto simp: handle_datamsg_prog_def may_access Let_def intro!: ok_intros split: option.split)

lemma ok_broadcast_sends: "below_record L \<Longrightarrow> ok k r L \<Longrightarrow> ok (broadcast_sends e pkt hs k) r L"
  by (induction hs) (auto intro!: ok_intros)

lemma ok_finalize [ok_intros]:
  "ok k ReceiverThread [AckHistoryMutex] \<Longrightarrow> ok (finalize_prog e am pm k) ReceiverThread [AckHistoryMutex]"
  by (auto simp: finalize_prog_def broadcast_seq_prog_def may_access Let_def
      intro!: ok_intros ok_broadcast_sends split: prod.split)

lemma ok_resend [ok_intros]:
  "ok k ReceiverThread [AckHistoryMutex] \<Longrightarrow> ok (resend_seq_prog e am k) ReceiverThread [AckHistoryMutex]"
  by (auto simp: resend_seq_prog_def may_access intro!: ok_intros split: option.split)

lemma ok_handle_ackmsg [ok_intros]: "ok k ReceiverThread [] \<Longrightarrow> ok (handle_ackmsg_prog e am k) ReceiverThread []"
  by (auto simp: handle_ackmsg_prog_def may_access Let_def intro!: ok_intros)

lemma ok_handle_seqmsg [ok_intros]: "ok k ReceiverThread [] \<Longrightarrow> ok (handle_seqmsg_prog e sm k) ReceiverThread []"
  by (auto simp: handle_seqmsg_prog_def may_access Let_def intro!: ok_intros)

lemma ok_received [ok_intros]: "ok k ReceiverThread [] \<Longrightarrow> ok (received_prog e r k) ReceiverThread []"
  by (auto simp: received_prog_def record_inbound_prog_def dispatch_prog_def may_access Let_def
      intro!: ok_intros split: option.split)

lemma ok_msg_receiver [ok_intros]: "ok (msg_receiver_prog e cap) ReceiverThread []"
proof (induction e cap rule: msg_receiver_prog.induct)
  case (1 e cap)
  then show ?case by (subst msg_receiver_prog.simps) (auto intro!: ok_intros)
qed

lemma ok_local_snapshot [ok_intros]:
  "r \<in> {MainThread, ListenerThread} \<Longrightarrow> ok k r [] \<Longrightarrow> ok (local_snapshot_prog k) r []"
  by (auto simp: local_snapshot_prog_def may_access Let_def)

lemma ok_recording [ok_intros]:
  "ok k r [] \<Longrightarrow> ok (start_recording_prog k) r []" "ok k r [] \<Longrightarrow> ok (stop_recording_prog k) r []"
  by (simp_all add: start_recording_prog_def stop_recording_prog_def may_access)

lemma ok_markers [ok_intros]: "ok k r [] \<Longrightarrow> ok (broadcast_markers_prog e k) r []"
proof -
  assume k: "ok k r []"
  have "ok (marker_sends e hs k) r []" for hs by (induction hs) (use k in auto)
  then show ?thesis by (simp add: broadcast_markers_prog_def)
qed

lemma ok_initiate [ok_intros]: "ok k MainThread [] \<Longrightarrow> ok (initiate_snapshot_prog e k) MainThread []"
  by (auto simp: initiate_snapshot_prog_def may_access intro!: ok_intros)

lemma ok_drain [ok_intros]: "ok k ListenerThread [] \<Longrightarrow> ok (drain_prog d k) ListenerThread []"
  by (auto simp: drain_prog_def may_access split: direction.split sum.split)

lemma ok_mark [ok_intros]: "ok k ListenerThread [] \<Longrightarrow> ok (mark_prog k) ListenerThread []"
  by (simp add: mark_prog_def may_access)

lemma ok_accept [ok_intros]: "ok k ListenerThread [] \<Longrightarrow> ok (accept_prog r k) ListenerThread []"
  by (auto simp: accept_prog_def may_access split: accepted.split)

lemma ok_await [ok_intros]: "(\<And>r. ok (f r) ListenerThread []) \<Longrightarrow> ok (await_prog f) ListenerThread []"
  by (simp add: await_prog_def may_access)

lemma ok_finish [ok_intros]: "ok finish_prog ListenerThread []"
  unfolding finish_prog_def by (intro ok_intros) (simp add: may_access)

lemma ok_listener_loop [ok_intros]: "ok (listener_loop_prog others n) ListenerThread []"
proof (induction others n rule: listener_loop_prog.induct)
  case (1 others n)
  then show ?case by (subst listener_loop_prog.simps) (auto intro!: ok_intros)
qed

lemma ok_listener [ok_intros]: "ok (listener_prog e) ListenerThread []"
  by (auto simp: listener_prog_def first_marker_prog_def may_access intro!: ok_intros)

lemma ok_main [ok_intros]: "ok (main_prog e p i) MainThread []"
proof (induction e p i rule: main_prog.induct)
  case (1 e p i)
  then show ?case by (subst main_prog.simps) (auto intro!: ok_intros)
qed

section \<open>The interface\<close>

interpretation process: mutex_discipline mutex_rank may several unguarded_pair "\<lambda>c. c = process_threads e p s"
  for e p s
proof unfold_locales
  fix c assume "c = process_threads e p s"
  then show "\<exists>s ts. c = Running s ts \<and> one_each several ts \<and>
      list_all (\<lambda>(r, L, p). L = [] \<and> ok p r []) ts"
    by (simp add: process_threads_def one_each_def less_Suc_eq nth_Cons' ok_intros)
next
  fix r r' L L' and a b :: "var access"
  assume "may r L a" "may r' L' b" "conflict a b" "set L \<inter> set L' = {}" "r = r' \<longrightarrow> several r"
  moreover have "var_of a = var_of b" using \<open>conflict a b\<close> by (cases a; cases b) auto
  ultimately show "unguarded_pair r r' (var_of a)"
    by (cases "var_of a") (auto simp: may_def unguarded_pair_def several_def)
qed

end
