(* ===== verification/ThreadSteps.thy ===== *)
theory ThreadSteps
  imports ThreadLocks "HOL-Library.Sublist"
begin

text \<open>
  What every single step of every thread does to the shared state: it reads and writes no member but those
  it declares, it keeps the delivery queue a heap, and it takes nothing out of the records of the process.
  So does every interleaving.
\<close>

section \<open>Declared accesses\<close>

fun same :: "var \<Rightarrow> rm \<Rightarrow> rm \<Rightarrow> bool" where
  "same V_curr_msg_id s t = (curr_msg_id s = curr_msg_id t)"
| "same V_curr_seq_number s t = (curr_seq_number s = curr_seq_number t)"
| "same V_their_addr s t = (their_addr s = their_addr t)"
| "same V_deliveryQueue s t = (deliveryQueue s = deliveryQueue t)"
| "same V_deliveredMessage s t = (deliveredMessage s = deliveredMessage t)"
| "same V_alreadyAckedMessages s t = (alreadyAckedMessages s = alreadyAckedMessages t)"
| "same V_seqMessageHistory s t = (seqMessageHistory s = seqMessageHistory t)"
| "same V_ackHistory s t = (ackHistory s = ackHistory t)"
| "same V_dataHistory s t = (dataHistory s = dataHistory t)"
| "same V_hostIDtoHostName s t = (hostIDtoHostName s = hostIDtoHostName t)"
| "same V_recv_cap s t = (recv_cap s = recv_cap t)"
| "same V_recordMessages s t = (recordMessages s = recordMessages t)"
| "same V_msg_buf s t = (msg_buf s = msg_buf t)"
| "same V_locsnap s t = (locsnap (snapshot s) = locsnap (snapshot t))"
| "same V_amInitiator s t = (amInitiator (snapshot s) = amInitiator (snapshot t))"
| "same V_alreadyReceivedProc s t = (alreadyReceivedProc (snapshot s) = alreadyReceivedProc (snapshot t))"
| "same V_inboundMessageBuffer s t = (inboundMessageBuffer (snapshot s) = inboundMessageBuffer (snapshot t))"
| "same V_outboundMessageBuffer s t = (outboundMessageBuffer (snapshot s) = outboundMessageBuffer (snapshot t))"
| "same V_inboundChannelState s t = (inboundChannelState (snapshot s) = inboundChannelState (snapshot t))"
| "same V_outboundChannelState s t = (outboundChannelState (snapshot s) = outboundChannelState (snapshot t))"
| "same V_marker_buf s t = (marker_buf s = marker_buf t)"
| "same V_listener_pc s t = (listener_pc s = listener_pc t)"

definition all_vars :: "var list" where
  "all_vars = [V_curr_msg_id, V_curr_seq_number, V_their_addr, V_deliveryQueue, V_deliveredMessage,
     V_alreadyAckedMessages, V_seqMessageHistory, V_ackHistory, V_dataHistory, V_hostIDtoHostName,
     V_recv_cap, V_recordMessages, V_msg_buf, V_locsnap, V_amInitiator, V_alreadyReceivedProc,
     V_inboundMessageBuffer, V_outboundMessageBuffer, V_inboundChannelState, V_outboundChannelState,
     V_marker_buf, V_listener_pc]"

lemma in_all_vars: "v \<in> set all_vars"
  by (cases v) (simp_all add: all_vars_def)

text \<open>What does not change after the constructor, and the answers of the system.\<close>

definition same_rest :: "rm \<Rightarrow> rm \<Rightarrow> bool" where
  "same_rest s t \<longleftrightarrow> num_hosts s = num_hosts t \<and> hostNames s = hostNames t \<and>
     current_container_name s = current_container_name t \<and> current_container_id s = current_container_id t \<and>
     drop_rate s = drop_rate t \<and> ticks s = ticks t \<and>
     snap_num_hosts (snapshot s) = snap_num_hosts (snapshot t) \<and>
     snap_hostNames (snapshot s) = snap_hostNames (snapshot t) \<and>
     curr_container_id (snapshot s) = curr_container_id (snapshot t) \<and>
     curr_container_name (snapshot s) = curr_container_name (snapshot t)"

text \<open>
  What a step does next, and what it writes, depends on the declared accesses only; what is not declared
  as written stays as it is.
\<close>

definition honest :: "var access list \<Rightarrow> (rm \<Rightarrow> rm) \<Rightarrow> (rm \<Rightarrow> code) \<Rightarrow> bool" where
  "honest acc u k \<longleftrightarrow>
     (\<forall>s t. list_all (\<lambda>a. same (var_of a) s t) acc \<longrightarrow> same_rest s t \<longrightarrow>
        k s = k t \<and> same_rest (u s) (u t) \<and>
        list_all (\<lambda>v. Wr v \<in> set acc \<longrightarrow> same v (u s) (u t)) all_vars) \<and>
     (\<forall>s. list_all (\<lambda>v. Wr v \<notin> set acc \<longrightarrow> same v s (u s)) all_vars)"

section \<open>What is kept\<close>

definition queue_ok :: "rm \<Rightarrow> bool" where
  "queue_ok s \<longleftrightarrow> is_heap cmp (deliveryQueue s) \<and> (\<forall>m \<in> set (deliveredMessage s). qm_status m = DELIVERABLE)"

text \<open>The messages a process holds, without numbers and states.\<close>

definition payload :: "QueuedMessage \<Rightarrow> u32 \<times> u32 \<times> u32" where
  "payload m = (qm_sender m, qm_msg_id m, qm_data m)"

definition holdings :: "rm \<Rightarrow> (u32 \<times> u32 \<times> u32) multiset" where
  "holdings s = image_mset payload (mset (deliveryQueue s) + mset (deliveredMessage s))"

definition extends :: "rm \<Rightarrow> rm \<Rightarrow> bool" where
  "extends s t \<longleftrightarrow> prefix (deliveredMessage s) (deliveredMessage t) \<and>
     prefix (alreadyAckedMessages s) (alreadyAckedMessages t) \<and>
     prefix (seqMessageHistory s) (seqMessageHistory t) \<and> prefix (outbox s) (outbox t) \<and>
     holdings s \<subseteq># holdings t"

lemma extends_refl [simp]: "extends s s"
  by (simp add: extends_def)

lemma thread_extends_trans: "extends s t \<Longrightarrow> extends t u \<Longrightarrow> extends s u"
  unfolding extends_def by (meson prefix_order.order_trans subset_mset.order_trans)

definition sound_step :: "var access list \<Rightarrow> (rm \<Rightarrow> rm) \<Rightarrow> (rm \<Rightarrow> code) \<Rightarrow> bool" where
  "sound_step acc u k \<longleftrightarrow> honest acc u k \<and> (\<forall>s. queue_ok s \<longrightarrow> queue_ok (u s) \<and> extends s (u s))"

abbreviation sound :: "code \<Rightarrow> bool" where
  "sound \<equiv> every_step sound_step"

text \<open>The three operations on the queue.\<close>

lemma push_keeps: "queue_ok s \<Longrightarrow> queue_ok (push_queue m s) \<and> extends s (push_queue m s)"
  by (simp add: queue_ok_def extends_def holdings_def push_queue_def dq.inv_push dq.mset_push)

lemma change_mset:
  "image_mset payload (mset (snd (change_queued_msg_seq_and_status a b sn pr st q))) = image_mset payload (mset q)"
proof -
  let ?f = "\<lambda>m. m\<lparr>qm_sequence_number := sn, qm_status := st, qm_proposer := pr\<rparr>"
  show ?thesis
  proof (cases "set_first_match (is_msg a b) ?f q")
    case (Some ys)
    obtain pre x post where "q = pre @ x # post" "ys = pre @ ?f x # post"
      using set_first_match_Some [OF Some] by blast
    moreover have "payload (?f x) = payload x" for x by (simp add: payload_def)
    ultimately have "image_mset payload (mset ys) = image_mset payload (mset q)" by simp
    with Some show ?thesis by (simp add: change_queued_msg_seq_and_status_def dq.mset_rebuild)
  qed (simp add: change_queued_msg_seq_and_status_def)
qed

lemma change_heap:
  "is_heap cmp q \<Longrightarrow> is_heap cmp (snd (change_queued_msg_seq_and_status a b sn pr st q))"
  by (simp add: change_queued_msg_seq_and_status_def dq.inv_rebuild split: option.split)

lemma change_keeps: "queue_ok s \<Longrightarrow> queue_ok (change_queue a b sn pr s) \<and> extends s (change_queue a b sn pr s)"
  by (simp add: queue_ok_def extends_def holdings_def change_queue_def change_mset change_heap)

lemma deliver_keeps:
  assumes "queue_ok s"
  shows "queue_ok (deliver_msg_from_deliveryqueue s) \<and> extends s (deliver_msg_from_deliveryqueue s)"
proof -
  obtain rest out where r: "deliver_loop (deliveryQueue s) (deliveredMessage s) = (rest, deliveredMessage s @ out)"
    "dq.drained (deliveryQueue s) rest out"
    using dq.loop_drains [of "deliveryQueue s" "deliveredMessage s"] assms by (auto simp: queue_ok_def)
  then have "mset (deliveryQueue s) = mset out + mset rest" "is_heap cmp rest"
    "\<forall>m \<in> set out. qm_status m = DELIVERABLE"
    by (simp_all add: dq.drained_def)
  with r(1) assms show ?thesis
    by (auto simp: deliver_msg_from_deliveryqueue_def queue_ok_def extends_def holdings_def)
qed

section \<open>Every step of every program\<close>

lemma same_refl [simp]: "same v s s"
  by (cases v) simp_all

lemma step_sound:
  assumes "\<And>s t. list_all (\<lambda>a. same (var_of a) s t) acc \<Longrightarrow> same_rest s t \<Longrightarrow> k s = k t"
    and "\<And>s t. list_all (\<lambda>a. same (var_of a) s t) acc \<Longrightarrow> same_rest s t \<Longrightarrow> same_rest (u s) (u t)"
    and "\<And>s t. list_all (\<lambda>a. same (var_of a) s t) acc \<Longrightarrow> same_rest s t \<Longrightarrow>
      list_all (\<lambda>v. Wr v \<in> set acc \<longrightarrow> same v (u s) (u t)) all_vars"
    and "\<And>s. list_all (\<lambda>v. Wr v \<notin> set acc \<longrightarrow> same v s (u s)) all_vars"
    and "\<And>s. queue_ok s \<Longrightarrow> queue_ok (u s) \<and> extends s (u s)"
    and "\<And>s. sound (k s)"
  shows "sound (Step acc u k)"
  using assms by (simp add: sound_step_def honest_def)

declare every_step.simps(4) [simp del]

lemma observe_sound:
  assumes "list_all (\<lambda>a. a = Rd (var_of a)) acc"
    and "\<And>s t. list_all (\<lambda>a. same (var_of a) s t) acc \<Longrightarrow> same_rest s t \<Longrightarrow> k s = k t"
    and "\<And>s. sound (k s)"
  shows "sound (observe acc k)"
proof (rule step_sound)
  fix s t assume "list_all (\<lambda>a. same (var_of a) s t) acc"
  have "Wr v \<notin> set acc" for v using assms(1) by (force simp: list_all_iff)
  then show "list_all (\<lambda>v. Wr v \<in> set acc \<longrightarrow> same v s t) all_vars" by (simp add: list_all_iff)
qed (use assms in \<open>simp_all add: list_all_iff\<close>)

text \<open>A step that touches nothing but what is handed to the system.\<close>

definition strip :: "rm \<Rightarrow> rm" where
  "strip s = s\<lparr>ticks := 0, outbox := [], marker_outbox := [], watchdogs := []\<rparr>"

lemma same_strip: "same v (strip s) (strip t) = same v s t"
  by (cases v) (simp_all add: strip_def)

lemma strip_fields:
  assumes "strip s = strip t"
  shows "same v s t" "queue_ok s = queue_ok t" "holdings s = holdings t" "same_rest s (t\<lparr>ticks := ticks s\<rparr>)"
    "deliveredMessage s = deliveredMessage t" "alreadyAckedMessages s = alreadyAckedMessages t"
    "seqMessageHistory s = seqMessageHistory t"
proof -
  have "same v s t" for v using assms same_strip [of v s t] by simp
  from this [of v] this [of V_deliveryQueue] this [of V_deliveredMessage] this [of V_alreadyAckedMessages]
    this [of V_seqMessageHistory]
  show "same v s t" "queue_ok s = queue_ok t" "holdings s = holdings t"
    "deliveredMessage s = deliveredMessage t" "alreadyAckedMessages s = alreadyAckedMessages t"
    "seqMessageHistory s = seqMessageHistory t"
    by (simp_all add: queue_ok_def holdings_def)
  have "same_rest (strip s) (strip t)" by (simp add: assms same_rest_def)
  then show "same_rest s (t\<lparr>ticks := ticks s\<rparr>)" by (simp add: same_rest_def strip_def)
qed

lemma system_sound:
  assumes "\<And>s. strip (u s) = strip s" "\<And>s. prefix (outbox s) (outbox (u s))"
    and "\<And>s t. list_all (\<lambda>a. same (var_of a) s t) acc \<Longrightarrow> same_rest s t \<Longrightarrow> ticks (u s) = ticks (u t)"
    and "list_all (\<lambda>a. a = Rd (var_of a)) acc"
    and "\<And>s t. list_all (\<lambda>a. same (var_of a) s t) acc \<Longrightarrow> same_rest s t \<Longrightarrow> k s = k t"
    and "\<And>s. sound (k s)"
  shows "sound (Step acc u k)"
proof (rule step_sound)
  have n: "Wr v \<notin> set acc" for v using assms(4) by (force simp: list_all_iff)
  fix s t
  note strip = strip_fields [OF assms(1)]
  have "same v s (u s)" for v using strip_fields(1) [OF assms(1) [symmetric]] .
  then show "list_all (\<lambda>v. Wr v \<notin> set acc \<longrightarrow> same v s (u s)) all_vars" by (simp add: list_all_iff)
  show "queue_ok s \<Longrightarrow> queue_ok (u s) \<and> extends s (u s)"
    using strip(2,3,5,6,7) [of s] assms(2) by (simp add: extends_def)
  assume a: "list_all (\<lambda>a. same (var_of a) s t) acc" "same_rest s t"
  show "list_all (\<lambda>v. Wr v \<in> set acc \<longrightarrow> same v (u s) (u t)) all_vars" using n by (simp add: list_all_iff)
  show "same_rest (u s) (u t)"
    using a(2) assms(3) [OF a] strip(4) [of s] strip(4) [of t] by (simp add: same_rest_def)
  show "k s = k t" by (rule assms(5) [OF a])
qed (rule assms(6))

named_theorems sound_intros \<open>programs whose steps are sound\<close>

lemma quiet_keeps: "queue_ok s \<Longrightarrow> queue_ok t \<and> extends s t"
  if "deliveryQueue t = deliveryQueue s" "deliveredMessage t = deliveredMessage s"
    "prefix (alreadyAckedMessages s) (alreadyAckedMessages t)"
    "prefix (seqMessageHistory s) (seqMessageHistory t)" "prefix (outbox s) (outbox t)"
  using that by (simp add: queue_ok_def extends_def holdings_def)

lemmas step_simps = all_vars_def same_rest_def quiet_keeps Let_def

lemma steps_transmit:
  assumes "\<And>rv. sound (k rv)"
    and dst: "(acc, dst) = ([Rd V_their_addr], their_addr) \<or> (\<exists>h. (acc, dst) = ([], \<lambda>s. h))"
  shows "sound (transmit_prog acc dst e pkt k)"
proof -
  have acc: "list_all (\<lambda>a. a = Rd (var_of a)) acc" using dst by auto
  have send: "sound (Step acc (\<lambda>s1. if rv = - 1 then s1
       else s1\<lparr>outbox := outbox s1 @ [\<lparr>p_src = current_container_name s1, p_dst = dst s1, p_payload = pkt\<rparr>]\<rparr>)
      (\<lambda>_. k rv))" for rv
    by (rule system_sound) (use acc assms(1) in \<open>simp_all add: same_rest_def strip_def\<close>)
  have push: "sound p \<Longrightarrow> sound (update [Wr V_outboundMessageBuffer]
      (\<lambda>s2. s2\<lparr>snapshot := (snapshot s2)\<lparr>outboundMessageBuffer := outboundMessageBuffer (snapshot s2) @ [pkt]\<rparr>\<rparr>) p)" for p
    by (rule step_sound) (simp_all add: step_simps)
  show ?thesis
    unfolding transmit_prog_def Let_def
    by (rule system_sound)
      (auto intro!: observe_sound send push assms(1) simp: strip_def same_rest_def random_uniform_from_0_to_1_def)
qed

lemma steps_send [sound_intros]: "(\<And>rv. sound (k rv)) \<Longrightarrow> sound (send_prog e h pkt k)"
  unfolding send_prog_def by (rule steps_transmit) auto

lemma sound_reply [sound_intros]: "(\<And>rv. sound (k rv)) \<Longrightarrow> sound (reply_prog e pkt k)"
  unfolding reply_prog_def by (rule steps_transmit) auto

lemma sound_incr [sound_intros]: "sound k \<Longrightarrow> sound (incr_seq_prog k)"
  unfolding incr_seq_prog_def
  by (rule observe_sound) (auto intro!: step_sound simp: step_simps split: option.split)

lemma sound_data_watchdog: "sound (datamsg_watchdog_prog e dm h n)"
proof (induction e dm h n rule: datamsg_watchdog_prog.induct)
  case (1 e dm h n)
  then show ?case
    by (subst datamsg_watchdog_prog.simps)
      (auto intro!: observe_sound sound_intros simp: same_rest_def uninit_packet_def split: option.split)
qed

lemma sound_ack_watchdog: "sound (ackmsg_watchdog_prog e am h n)"
proof (induction e am h n rule: ackmsg_watchdog_prog.induct)
  case (1 e am h n)
  then show ?case
    by (subst ackmsg_watchdog_prog.simps)
      (auto intro!: observe_sound sound_intros simp: same_rest_def uninit_packet_def)
qed

lemma sound_start [sound_intros]: "sound k \<Longrightarrow> sound (start_watchdog e w k)"
  unfolding start_watchdog_def
  by (rule system_sound; cases w) (simp_all add: strip_def same_rest_def sound_data_watchdog sound_ack_watchdog)

lemma sound_multicast_sends [sound_intros]: "sound k \<Longrightarrow> sound (multicast_sends e dm pkt hs k)"
  by (induction hs) (auto intro!: observe_sound sound_intros simp: same_rest_def)

text \<open>Steps that write one member by a function of what it is.\<close>

lemma member_steps [sound_intros]:
  "sound p \<Longrightarrow> sound (update [Wr V_deliveryQueue] (push_queue m) p)"
  "sound p \<Longrightarrow> sound (update [Wr V_dataHistory] (\<lambda>s. s\<lparr>dataHistory := f1 (dataHistory s)\<rparr>) p)"
  "sound p \<Longrightarrow> sound (update [Wr V_ackHistory] (\<lambda>s. s\<lparr>ackHistory := f2 (ackHistory s)\<rparr>) p)"
  "sound p \<Longrightarrow> sound (update [Wr V_seqMessageHistory]
     (\<lambda>s. s\<lparr>seqMessageHistory := seqMessageHistory s @ [sm]\<rparr>) p)"
  "sound p \<Longrightarrow> sound (update [Wr V_alreadyAckedMessages]
     (\<lambda>s. s\<lparr>alreadyAckedMessages := alreadyAckedMessages s @ [am]\<rparr>) p)"
  by (rule step_sound, simp_all add: step_simps push_queue_def push_keeps [unfolded push_queue_def])+

lemma change_step:
  assumes dep: "\<And>s t. deliveryQueue s = deliveryQueue t \<Longrightarrow> k s = k t" and k: "\<And>s. sound (k s)"
  shows "sound (Step [Wr V_deliveryQueue] (change_queue a b sn pr) k)"
proof (rule step_sound)
  show "k s = k t" if "list_all (\<lambda>a. same (var_of a) s t) [Wr V_deliveryQueue]" for s t
    using that by (intro dep) simp
qed (simp_all add: step_simps change_queue_def change_keeps [unfolded change_queue_def] k)

lemma sound_multicast [sound_intros]: "sound k \<Longrightarrow> sound (multicast_datamsg_prog e data k)"
proof -
  assume k: "sound k"
  have sends: "sound (observe [] (\<lambda>s. multicast_sends e dm (serialize_data_message dm (uninit_packet e s))
      (take (nat (num_hosts s)) (hostNames s)) k))" for dm
    by (rule observe_sound) (auto intro!: sound_intros k simp: same_rest_def uninit_packet_def)
  show ?thesis
    unfolding multicast_datamsg_prog_def Let_def
    by (rule step_sound)
      (auto intro!: observe_sound sound_intros sends simp: step_simps split: option.split)
qed

lemma sound_deliver [sound_intros]:
  assumes "sound k"
  shows "sound (deliver_prog k)"
proof -
  have print: "sound (observe [Rd V_deliveredMessage] (\<lambda>_. Unlock DeliveredMessageMutex k))"
    by (rule observe_sound) (simp_all add: assms)
  have q: "deliveryQueue (deliver_msg_from_deliveryqueue s) = deliveryQueue (deliver_msg_from_deliveryqueue t)"
    "deliveredMessage (deliver_msg_from_deliveryqueue s) = deliveredMessage (deliver_msg_from_deliveryqueue t)"
    if "deliveryQueue s = deliveryQueue t" "deliveredMessage s = deliveredMessage t" for s t
    using that by (simp_all add: deliver_msg_from_deliveryqueue_def split: prod.split)
  have fg: "deliver_msg_from_deliveryqueue s =
      s\<lparr>deliveryQueue := fst (deliver_loop (deliveryQueue s) (deliveredMessage s)),
        deliveredMessage := snd (deliver_loop (deliveryQueue s) (deliveredMessage s))\<rparr>" for s
    by (simp add: deliver_msg_from_deliveryqueue_def split: prod.split)
  show ?thesis
    unfolding deliver_prog_def every_step.simps(5)
  proof (rule step_sound)
    fix s t assume "list_all (\<lambda>a. same (var_of a) s t) [Wr V_deliveryQueue, Wr V_deliveredMessage]" "same_rest s t"
    then show "list_all (\<lambda>v. Wr v \<in> set [Wr V_deliveryQueue, Wr V_deliveredMessage] \<longrightarrow>
        same v (deliver_msg_from_deliveryqueue s) (deliver_msg_from_deliveryqueue t)) all_vars"
      using q [of s t] by (simp add: all_vars_def)
  qed (simp_all add: Let_def print assms deliver_keeps, simp_all add: fg step_simps)
qed

lemma sound_handle_datamsg [sound_intros]: "sound k \<Longrightarrow> sound (handle_datamsg_prog e dm k)"
proof -
  assume k: "sound k"
  have name: "sound (Step [Wr V_hostIDtoHostName]
      (\<lambda>s. s\<lparr>hostIDtoHostName := fst (subscript [] (hostIDtoHostName s) i)\<rparr>)
      (\<lambda>s. start_watchdog e (AckWatchdog am (snd (subscript [] (hostIDtoHostName s) i)) 0) k))" for am i
    by (rule step_sound) (simp_all add: step_simps sound_start k)
  have reply: "(\<And>rv. sound (p rv)) \<Longrightarrow>
      sound (observe [] (\<lambda>s. reply_prog e (serialize_ack_message am (uninit_packet e s)) p))" for am p
    by (rule observe_sound) (auto intro!: sound_intros simp: same_rest_def uninit_packet_def)
  show ?thesis
    unfolding handle_datamsg_prog_def Let_def
    by (auto intro!: observe_sound sound_intros name reply k simp: same_rest_def split: option.split)
qed

lemma sound_broadcast_seq [sound_intros]: "sound k \<Longrightarrow> sound (broadcast_seq_prog e sm k)"
proof -
  assume k: "sound k"
  have "sound (broadcast_sends e pkt hs k)" for pkt hs
    by (induction hs) (auto intro!: observe_sound sound_intros k simp: same_rest_def)
  then show ?thesis
    unfolding broadcast_seq_prog_def
    by (intro observe_sound) (simp_all add: same_rest_def uninit_packet_def)
qed

lemma sound_finalize [sound_intros]: "sound k \<Longrightarrow> sound (finalize_prog e am pm k)"
  by (auto simp: finalize_prog_def Let_def intro!: sound_intros change_step split: prod.split)

lemma sound_resend [sound_intros]: "sound k \<Longrightarrow> sound (resend_seq_prog e am k)"
  unfolding resend_seq_prog_def
  by (auto intro!: observe_sound sound_intros simp: same_rest_def uninit_packet_def split: option.split)

lemma sound_handle_ackmsg [sound_intros]: "sound k \<Longrightarrow> sound (handle_ackmsg_prog e am k)"
proof -
  assume k: "sound k"
  let ?id = "to_int (am_msg_id am)"
  have store: "sound (Step [Wr V_ackHistory] (\<lambda>s. s\<lparr>ackHistory := map_store ?id pm (ackHistory s)\<rparr>) p)"
    if dep: "\<And>s t. same_rest s t \<Longrightarrow> p s = p t" and p: "\<And>s. sound (p s)" for p pm
  proof (rule step_sound)
    show "p s = p t" if "same_rest s t" for s t using that by (rule dep)
  qed (simp_all add: step_simps p)
  have look: "sound (Step [Wr V_ackHistory] (\<lambda>s. s\<lparr>ackHistory := fst (subscript [] (ackHistory s) ?id)\<rparr>) p)"
    if dep: "\<And>s t. ackHistory s = ackHistory t \<Longrightarrow> same_rest s t \<Longrightarrow> p s = p t" and p: "\<And>s. sound (p s)" for p
  proof (rule step_sound)
    show "p s = p t" if "list_all (\<lambda>a. same (var_of a) s t) [Wr V_ackHistory]" "same_rest s t" for s t
      using that by (intro dep) simp_all
  qed (simp_all add: step_simps p)
  have out: "sound (Unlock AckHistoryMutex k)" by (simp add: k)
  show ?thesis
    unfolding handle_ackmsg_prog_def Let_def every_step.simps(5)
    by (rule look) (auto intro!: sound_intros store out k simp: same_rest_def cong: if_cong)
qed

lemma sound_handle_seqmsg [sound_intros]: "sound k \<Longrightarrow> sound (handle_seqmsg_prog e sm k)"
  by (auto simp: handle_seqmsg_prog_def Let_def intro!: change_step observe_sound sound_intros)

lemma sound_received [sound_intros]: "sound k \<Longrightarrow> sound (received_prog e r k)"
proof -
  assume k: "sound k"
  have cap: "sound (update [Wr V_recv_cap] (\<lambda>s. s\<lparr>recv_cap := recv_cap s + 1\<rparr>) k)"
    by (rule step_sound) (simp_all add: step_simps k)
  have inbound: "sound p \<Longrightarrow> sound (update [Rd V_msg_buf, Wr V_inboundMessageBuffer]
      (\<lambda>s. s\<lparr>snapshot := (snapshot s)\<lparr>inboundMessageBuffer := inboundMessageBuffer (snapshot s) @ [msg_buf s]\<rparr>\<rparr>) p)" for p
    by (rule step_sound) (simp_all add: step_simps)
  have dispatch: "sound (dispatch_prog e p)" if "sound p" for p
    unfolding dispatch_prog_def Let_def by (rule observe_sound) (auto intro!: sound_intros that)
  have rec: "sound p \<Longrightarrow> sound (record_inbound_prog p)" for p
    unfolding record_inbound_prog_def by (auto intro!: observe_sound inbound)
  show ?thesis
  proof (cases r)
    case (Some p)
    show ?thesis
      unfolding received_prog_def Some option.case
      by (rule step_sound) (simp_all add: step_simps rec dispatch cap split: option.split)
  qed (simp add: received_prog_def)
qed

lemma sound_msg_receiver [sound_intros]: "sound (msg_receiver_prog e cap)"
proof (induction e cap rule: msg_receiver_prog.induct)
  case (1 e cap)
  then show ?case by (subst msg_receiver_prog.simps) (auto intro!: sound_intros)
qed

text \<open>The snapshot daemon.\<close>

lemma sound_local_snapshot [sound_intros]: "sound k \<Longrightarrow> sound (local_snapshot_prog k)"
proof -
  assume k: "sound k"
  have "sound (update [Wr V_locsnap] (\<lambda>s. s\<lparr>snapshot := (snapshot s)\<lparr>locsnap := l\<rparr>\<rparr>) k)" for l
    by (rule step_sound) (simp_all add: step_simps k)
  then show ?thesis by (auto simp: local_snapshot_prog_def Let_def intro!: observe_sound)
qed

lemma sound_recording [sound_intros]:
  "sound k \<Longrightarrow> sound (start_recording_prog k)" "sound k \<Longrightarrow> sound (stop_recording_prog k)"
proof -
  assume k: "sound k"
  have "sound (update [Wr V_recordMessages] (\<lambda>s. s\<lparr>recordMessages := b\<rparr>) (Unlock RecordMessagesMutex k))" for b
    by (rule step_sound) (simp_all add: step_simps k)
  then show "sound (start_recording_prog k)" "sound (stop_recording_prog k)"
    by (simp_all add: start_recording_prog_def stop_recording_prog_def)
qed

lemma sound_markers [sound_intros]: "sound k \<Longrightarrow> sound (broadcast_markers_prog e k)"
proof -
  assume k: "sound k"
  have "sound (marker_sends e hs k)" for hs
  proof (induction hs)
    case (Cons h hs)
    then show ?case
      unfolding marker_sends.simps
      by (intro observe_sound)
        (auto intro!: system_sound simp: same_rest_def strip_def Let_def split: connect_outcome.split)
  qed (simp add: k)
  then show ?thesis
    unfolding broadcast_markers_prog_def by (intro observe_sound) (simp_all add: same_rest_def)
qed

lemma sound_initiate [sound_intros]: "sound k \<Longrightarrow> sound (initiate_snapshot_prog e k)"
proof -
  assume k: "sound k"
  have "sound p \<Longrightarrow> sound (update [Wr V_amInitiator] (\<lambda>s. s\<lparr>snapshot := (snapshot s)\<lparr>amInitiator := True\<rparr>\<rparr>) p)" for p
    by (rule step_sound) (simp_all add: step_simps)
  then show ?thesis by (simp add: initiate_snapshot_prog_def sound_intros k)
qed

text \<open>What emptying a buffer does to the channels, apart from the rest of the daemon's state.\<close>

fun file_all :: "int list \<Rightarrow> u8 list list \<Rightarrow> (int, string list) std_map \<Rightarrow> exit_reason + (int, string list) std_map" where
  "file_all received [] ch = Inr ch"
| "file_all received (b # bs) ch =
     (case classify_message (take MAX_STRUCT_SIZE b) of
        Inl err \<Rightarrow> Inl err
      | Inr (sender, text) \<Rightarrow> file_all received bs (add_to_channel received sender text ch))"

lemma drain_files:
  "drain_messages INBOUND bs c = (case file_all (alreadyReceivedProc c) bs (inboundChannelState c) of
     Inl err \<Rightarrow> Inl err | Inr ch \<Rightarrow> Inr (c\<lparr>inboundChannelState := ch\<rparr>))"
  "drain_messages OUTBOUND bs c = (case file_all (alreadyReceivedProc c) bs (outboundChannelState c) of
     Inl err \<Rightarrow> Inl err | Inr ch \<Rightarrow> Inr (c\<lparr>outboundChannelState := ch\<rparr>))"
  by (induction bs arbitrary: c)
    (auto simp: handle_message_def add_msg_to_inbound_def add_msg_to_outbound_def split: sum.split)

lemma drain_cases:
  "(case drain_inbound (snapshot s) of Inl err \<Rightarrow> f err | Inr c \<Rightarrow> g c) =
     (case file_all (alreadyReceivedProc (snapshot s)) (inboundMessageBuffer (snapshot s))
         (inboundChannelState (snapshot s)) of
        Inl err \<Rightarrow> f err
      | Inr ch \<Rightarrow> g ((snapshot s)\<lparr>inboundChannelState := ch, inboundMessageBuffer := []\<rparr>))"
  "(case drain_outbound (snapshot s) of Inl err \<Rightarrow> f err | Inr c \<Rightarrow> g c) =
     (case file_all (alreadyReceivedProc (snapshot s)) (outboundMessageBuffer (snapshot s))
         (outboundChannelState (snapshot s)) of
        Inl err \<Rightarrow> f err
      | Inr ch \<Rightarrow> g ((snapshot s)\<lparr>outboundChannelState := ch, outboundMessageBuffer := []\<rparr>))"
  unfolding drain_inbound_def drain_outbound_def drain_files by (simp_all split: sum.split)

lemma channel_step:
  assumes ch: "\<And>s. u s = (case file_all (alreadyReceivedProc (snapshot s)) (buf (snapshot s)) (chan (snapshot s)) of
       Inl err \<Rightarrow> s | Inr ch \<Rightarrow> s\<lparr>snapshot := set_chan ch (snapshot s)\<rparr>)"
    and k: "\<And>s. k s = (case file_all (alreadyReceivedProc (snapshot s)) (buf (snapshot s)) (chan (snapshot s)) of
       Inl err \<Rightarrow> Die err | Inr ch \<Rightarrow> p)" "sound p"
    and form: "(acc, buf, chan, set_chan) \<in>
      {([Wr V_inboundMessageBuffer, Wr V_inboundChannelState, Rd V_alreadyReceivedProc],
          inboundMessageBuffer, inboundChannelState, \<lambda>ch c. c\<lparr>inboundChannelState := ch, inboundMessageBuffer := []\<rparr>),
       ([Wr V_outboundMessageBuffer, Wr V_outboundChannelState, Rd V_alreadyReceivedProc],
          outboundMessageBuffer, outboundChannelState, \<lambda>ch c. c\<lparr>outboundChannelState := ch, outboundMessageBuffer := []\<rparr>)}"
  shows "sound (Step acc u k)"
proof (rule step_sound)
  let ?F = "\<lambda>s. file_all (alreadyReceivedProc (snapshot s)) (buf (snapshot s)) (chan (snapshot s))"
  fix s t
  show "sound (k s)" using k by (cases "?F s") simp_all
  show "list_all (\<lambda>v. Wr v \<notin> set acc \<longrightarrow> same v s (u s)) all_vars"
    using form ch [of s] by (cases "?F s") (auto simp: all_vars_def)
  show "queue_ok s \<Longrightarrow> queue_ok (u s) \<and> extends s (u s)"
    using ch [of s] by (cases "?F s") (simp_all add: quiet_keeps)
  assume a: "list_all (\<lambda>a. same (var_of a) s t) acc" "same_rest s t"
  then have F: "?F s = ?F t" using form by auto
  then show "k s = k t" by (simp add: k)
  show "same_rest (u s) (u t)"
    using a(2) F form ch [of s] ch [of t] by (cases "?F t") (auto simp: same_rest_def)
  show "list_all (\<lambda>v. Wr v \<in> set acc \<longrightarrow> same v (u s) (u t)) all_vars"
    using a(1) F form ch [of s] ch [of t] by (cases "?F t") (auto simp: all_vars_def)
qed

lemma sound_drain [sound_intros]: "sound k \<Longrightarrow> sound (drain_prog d k)"
  by (cases d) (simp_all add: drain_prog_def drain_cases channel_step)

lemma sound_mark [sound_intros]: "sound k \<Longrightarrow> sound (mark_prog k)"
  unfolding mark_prog_def by (rule step_sound) (simp_all add: step_simps mark_received_def marker_id_def)

lemma sound_accept [sound_intros]: "sound k \<Longrightarrow> sound (accept_prog r k)"
  by (cases r) (auto simp: accept_prog_def step_simps intro!: step_sound)

lemma sound_await [sound_intros]: "(\<And>r. sound (f r)) \<Longrightarrow> sound (await_prog f)"
  unfolding await_prog_def by (rule step_sound) (simp_all add: step_simps)

lemma sound_finish [sound_intros]: "sound finish_prog"
  unfolding finish_prog_def
  by (intro sound_intros step_sound) (simp_all add: step_simps)

lemma sound_listener_loop [sound_intros]: "sound (listener_loop_prog others n)"
proof (induction others n rule: listener_loop_prog.induct)
  case (1 others n)
  then show ?case by (subst listener_loop_prog.simps) (auto intro!: sound_intros)
qed

lemma sound_first_marker: "sound (first_marker_prog e others r)"
  unfolding first_marker_prog_def by (auto intro!: observe_sound sound_intros)

lemma sound_listener [sound_intros]: "sound (listener_prog e)"
  unfolding listener_prog_def by (rule observe_sound) (simp_all add: same_rest_def sound_first_marker)

lemma sound_main [sound_intros]: "sound (main_prog e p i)"
proof (induction e p i rule: main_prog.induct)
  case (1 e p i)
  then show ?case by (subst main_prog.simps) (auto intro!: sound_intros)
qed

lemma process_sound: "all_steps sound_step (process_threads e p s)"
  by (simp add: process_threads_def rest_of_def sound_intros)

end
