(* ===== verification/RelyGuarantee.thy ===== *)
theory RelyGuarantee
  imports LockDiscipline
begin

text \<open>
  Rely and guarantee for the programs of threads: what a thread may assume of the steps of the others, and
  what it promises of its own. The promises of all threads together keep an invariant of the shared state
  in every interleaving.
\<close>

section \<open>A program under a rely condition\<close>

text \<open>
  \<open>rg rely guar ok fine keep p r s\<close>: a thread of role \<open>r\<close> with program \<open>p\<close> that is in the state \<open>s\<close>, where others make
  steps of \<open>rely r\<close> at any time and the network brings what is \<open>ok\<close>, makes steps of \<open>guar r\<close> only, and ends the process, if at all, for
  a reason that is \<open>fine\<close>.
\<close>

primrec rg :: "('r \<Rightarrow> 's \<Rightarrow> 's \<Rightarrow> bool) \<Rightarrow> ('r \<Rightarrow> 's \<Rightarrow> 's \<Rightarrow> bool) \<Rightarrow> ('x \<Rightarrow> bool) \<Rightarrow> ('e \<Rightarrow> bool) \<Rightarrow>
    ('s \<Rightarrow> bool) \<Rightarrow> ('m, 'v, 'r, 's, 'e, 'x, 'y) prog \<Rightarrow> 'r \<Rightarrow> 's \<Rightarrow> bool" where
  "rg rely guar ok fine keep Halt r s = True"
| "rg rely guar ok fine keep Forever r s = True"
| "rg rely guar ok fine keep (Die err) r s = fine err"
| "rg rely guar ok fine keep (Step acc u k) r s =
     (\<forall>t. rely r s t \<longrightarrow> keep t \<longrightarrow> guar r t (u t) \<and> rg rely guar ok fine keep (k t) r (u t))"
| "rg rely guar ok fine keep (Lock m p) r s = rg rely guar ok fine keep p r s"
| "rg rely guar ok fine keep (Unlock m p) r s = rg rely guar ok fine keep p r s"
| "rg rely guar ok fine keep (Spawn r' q p) r s =
     ((\<forall>t. rely r s t \<longrightarrow> rg rely guar ok fine keep q r' t) \<and> rg rely guar ok fine keep p r s)"
| "rg rely guar ok fine keep (Recv f) r s = (\<forall>x. ok x \<longrightarrow> rg rely guar ok fine keep (f x) r s)"
| "rg rely guar ok fine keep (Accept f) r s = (\<forall>y. rg rely guar ok fine keep (f y) r s)"

fun ok_input :: "('x \<Rightarrow> bool) \<Rightarrow> ('x, 'y) input \<Rightarrow> bool" where
  "ok_input ok (Datagram d) = ok d"
| "ok_input ok x = True"

definition moves_ok :: "('x \<Rightarrow> bool) \<Rightarrow> ('m, 'v, 'r, 's, 'e, 'x, 'y) conf \<Rightarrow>
    ('m, 'v, 'r, 's, 'e, 'x, 'y) conf \<Rightarrow> bool" where
  "moves_ok ok c c' \<longleftrightarrow> (\<exists>x i. act x i c = Some c' \<and> ok_input ok x)"

lemma moves_ok_moves: "moves_ok ok c c' \<Longrightarrow> moves c c'"
  by (auto simp: moves_ok_def moves_def)

lemma schedule_reaches_ok:
  "reach S (moves_ok ok) c \<Longrightarrow> schedule sched c = Some d \<Longrightarrow> list_all (\<lambda>(i, x). ok_input ok x) sched \<Longrightarrow>
   reach S (moves_ok ok) d"
proof (induction sched c rule: schedule.induct)
  case (2 i x sched c)
  then obtain c1 where c1: "act x i c = Some c1" "schedule sched c1 = Some d" by (auto split: option.splits)
  then have "moves_ok ok c c1" using "2.prems"(3) by (auto simp: moves_ok_def)
  from "2.IH" [OF c1(1) reach_step [OF "2.prems"(1) this] c1(2)] "2.prems"(3) show ?case by simp
qed simp

section \<open>The interface\<close>

locale rely_guarantee = mutex_discipline rank may many racy start
  for rank :: "'m \<Rightarrow> nat" and may :: "'r \<Rightarrow> 'm list \<Rightarrow> 'v access \<Rightarrow> bool" and many :: "'r \<Rightarrow> bool"
    and racy :: "'r \<Rightarrow> 'r \<Rightarrow> 'v \<Rightarrow> bool" and start :: "('m, 'v, 'r, 's, 'e, 'x, 'y) conf \<Rightarrow> bool" +
  fixes rely :: "'r \<Rightarrow> 's \<Rightarrow> 's \<Rightarrow> bool"
    and guar :: "'r \<Rightarrow> 's \<Rightarrow> 's \<Rightarrow> bool"
    and ok :: "'x \<Rightarrow> bool"
    and fine :: "'e \<Rightarrow> bool"
    and keep :: "'s \<Rightarrow> bool"
  assumes rely_refl: "rely r s s"
    and rely_trans: "rely r s t \<Longrightarrow> rely r t u \<Longrightarrow> rely r s u"
    and compatible: "guar r s t \<Longrightarrow> r = r' \<longrightarrow> many r \<Longrightarrow> rely r' s t"
    and guar_inv: "keep s \<Longrightarrow> guar r s t \<Longrightarrow> keep t"
    and start_rg: "start (Running s ts) \<Longrightarrow>
      keep s \<and> list_all (\<lambda>(r, L, p). rg rely guar ok fine keep p r s) ts"
begin

lemma rg_rely: "rg rely guar ok fine keep p r s \<Longrightarrow> rely r s t \<Longrightarrow> rg rely guar ok fine keep p r t"
proof (induction p arbitrary: s t)
  case (Step acc u k)
  then show ?case by simp (meson rely_trans)
next
  case (Spawn r' q p)
  then show ?case by simp (meson rely_trans)
next
  case (Recv f)
  from Recv(1) [OF rangeI] Recv(2,3) show ?case by (auto simp only: rg.simps)
next
  case (Accept f)
  from Accept(1) [OF rangeI] Accept(2,3) show ?case by (auto simp only: rg.simps)
qed simp_all

lemma advance_rg:
  assumes "rg rely guar ok fine keep p r s" "keep s" "ok_input ok x"
    and "advance x fr s L p = Some (Inr (s1, L1, p1, new))"
  shows "rg rely guar ok fine keep p1 r s1 \<and> (s1 = s \<or> guar r s s1) \<and>
    (\<forall>(r', L', q) \<in> set new. rg rely guar ok fine keep q r' s1)"
  using assms rely_refl [of r s] by (cases p) (auto split: if_splits input.splits)

lemma advance_fine: "rg rely guar ok fine keep p r s \<Longrightarrow> advance x fr s L p = Some (Inl err) \<Longrightarrow> fine err"
  by (cases p) (auto split: if_splits input.splits)

fun kept :: "('m, 'v, 'r, 's, 'e, 'x, 'y) conf \<Rightarrow> bool" where
  "kept (Exited err s) = (keep s \<and> fine err)"
| "kept (Running s ts) = (keep s \<and> (\<forall>(r, L, p) \<in> set ts. rg rely guar ok fine keep p r s))"

lemma moves_kept:
  assumes "well c" "kept c" "moves_ok ok c c'"
  shows "kept c'"
proof -
  obtain x i where x: "act x i c = Some c'" "ok_input ok x" using assms(3) by (auto simp: moves_ok_def)
  obtain s ts where c: "c = Running s ts" using x(1) by (cases c) auto
  have i: "i < length ts" using x(1) by (auto simp: c split: if_splits)
  obtain r L p where t: "ts ! i = (r, L, p)" by (cases "ts ! i")
  let ?adv = "advance x (\<lambda>m. is_free m ts) s L p"
  have k: "keep s" "\<forall>(r, L, p) \<in> set ts. rg rely guar ok fine keep p r s" using assms(2) by (auto simp: c)
  have p: "rg rely guar ok fine keep p r s" using k(2) i t nth_mem by fastforce
  have "?adv \<noteq> None" using x(1) act_None [OF i t, of x s] by (simp add: c)
  then obtain y where y: "?adv = Some y" by auto
  show ?thesis
  proof (cases y)
    case (Inl err)
    then show ?thesis using x(1) y k(1) advance_fine [OF p] by (auto simp: c i t)
  next
    case (Inr z)
    obtain s1 L1 p1 new where z: "z = (s1, L1, p1, new)" by (cases z)
    have c': "c' = Running s1 (ts[i := (r, L1, p1)] @ new)" using x(1) y Inr z by (auto simp: c i t)
    note a = advance_rg [OF p k(1) x(2) y [unfolded Inr z]]
    have others: "rg rely guar ok fine keep q r' s1" if "j < length ts" "j \<noteq> i" "ts ! j = (r', L', q)" for j r' L' q
    proof -
      have "rg rely guar ok fine keep q r' s" using k(2) that(1,3) nth_mem by fastforce
      moreover have "r = r' \<longrightarrow> many r"
        using assms(1) i that t by (force simp: c one_each_def)
      then have "rely r' s s1" using a compatible rely_refl by blast
      ultimately show ?thesis by (rule rg_rely)
    qed
    have "rg rely guar ok fine keep q r' s1" if mem: "(r', L', q) \<in> set (ts[i := (r, L1, p1)])" for r' L' q
    proof -
      obtain j where j: "j < length ts" "(ts[i := (r, L1, p1)]) ! j = (r', L', q)"
        using mem by (auto simp: in_set_conv_nth)
      show ?thesis
      proof (cases "j = i")
        case True
        with j i have "(r', L', q) = (r, L1, p1)" by simp
        with a show ?thesis by blast
      next
        case False
        with j have "j < length ts" "ts ! j = (r', L', q)" by simp_all
        with others False show ?thesis by blast
      qed
    qed
    moreover have "keep s1" using a guar_inv [OF k(1)] k(1) by blast
    moreover have "\<forall>(r', L', q) \<in> set new. rg rely guar ok fine keep q r' s1" using a by blast
    ultimately show ?thesis unfolding c' by auto
  qed
qed

lemma reach_kept: "reach start (moves_ok ok) c \<Longrightarrow> reach start moves c \<and> kept c"
proof (induction rule: reach.induct)
  case (reach_start c)
  then obtain s ts where "c = Running s ts" using start_ok by blast
  with reach_start start_rg show ?case by (fastforce intro: reach.reach_start simp: list_all_iff)
next
  case (reach_step c c')
  then show ?case
    using moves_kept [OF reach_well] moves_ok_moves by (blast intro: reach.reach_step)
qed

lemma reach_keep: "reach start (moves_ok ok) c \<Longrightarrow> keep (shared c)"
  by (drule reach_kept) (cases c, auto)

lemma reach_fine: "reach start (moves_ok ok) (Exited err s) \<Longrightarrow> fine err"
  by (drule reach_kept) simp

end

section \<open>Assertions\<close>

text \<open>
  \<open>holds\<close> says that a program keeps its promises from every state with the assertion \<open>P\<close>. A reading step
  may add what it has seen to the assertion.
\<close>

definition holds :: "('r \<Rightarrow> 's \<Rightarrow> 's \<Rightarrow> bool) \<Rightarrow> ('r \<Rightarrow> 's \<Rightarrow> 's \<Rightarrow> bool) \<Rightarrow> ('x \<Rightarrow> bool) \<Rightarrow> ('e \<Rightarrow> bool) \<Rightarrow>
    ('s \<Rightarrow> bool) \<Rightarrow> 'r \<Rightarrow> ('s \<Rightarrow> bool) \<Rightarrow> ('m, 'v, 'r, 's, 'e, 'x, 'y) prog \<Rightarrow> bool" where
  "holds rely guar ok fine keep r P p \<longleftrightarrow> (\<forall>s. P s \<longrightarrow> rg rely guar ok fine keep p r s)"

definition stable :: "('r \<Rightarrow> 's \<Rightarrow> 's \<Rightarrow> bool) \<Rightarrow> 'r \<Rightarrow> ('s \<Rightarrow> bool) \<Rightarrow> bool" where
  "stable rely r P \<longleftrightarrow> (\<forall>s t. P s \<longrightarrow> rely r s t \<longrightarrow> P t)"

lemma holds_simps [simp]:
  "holds rely guar ok fine keep r P Halt" "holds rely guar ok fine keep r P Forever"
  "holds rely guar ok fine keep r P (Lock m p) = holds rely guar ok fine keep r P p"
  "holds rely guar ok fine keep r P (Unlock m p) = holds rely guar ok fine keep r P p"
  "holds rely guar ok fine keep r P (Recv f) = (\<forall>x. ok x \<longrightarrow> holds rely guar ok fine keep r P (f x))"
  "holds rely guar ok fine keep r P (Accept g) = (\<forall>y. holds rely guar ok fine keep r P (g y))"
  by (auto simp: holds_def)

lemma holds_step:
  assumes "stable rely r P" "\<And>t. keep t \<Longrightarrow> P t \<Longrightarrow> guar r t (u t) \<and> Q t (u t)"
    and "\<And>t. keep t \<Longrightarrow> P t \<Longrightarrow> holds rely guar ok fine keep r (Q t) (k t)"
  shows "holds rely guar ok fine keep r P (Step acc u k)"
  using assms by (auto simp: holds_def stable_def)

lemma holds_die: "fine err \<Longrightarrow> holds rely guar ok fine keep r P (Die err)"
  by (simp add: holds_def)

lemma holds_spawn:
  "stable rely r P \<Longrightarrow> (\<And>s. P s \<Longrightarrow> Q s) \<Longrightarrow> holds rely guar ok fine keep r' Q q \<Longrightarrow>
   holds rely guar ok fine keep r P p \<Longrightarrow> holds rely guar ok fine keep r P (Spawn r' q p)"
  by (auto simp: holds_def stable_def)

lemma holds_weaken:
  "holds rely guar ok fine keep r Q p \<Longrightarrow> (\<And>s. P s \<Longrightarrow> Q s) \<Longrightarrow> holds rely guar ok fine keep r P p"
  by (simp add: holds_def)

lemma holds_if:
  "(B \<Longrightarrow> holds rely guar ok fine keep r P p) \<Longrightarrow> holds rely guar ok fine keep r (\<lambda>s. P s \<and> B) p"
  by (auto simp: holds_def)

end
