(* ===== verification/ThreadInvariants.thy ===== *)
theory ThreadInvariants
  imports ThreadSteps RelyGuarantee
begin

text \<open>
  What the threads of a process rely on and what they grant each other: the receiver alone adds messages of
  other processes, acknowledgements and final numbers, the main thread alone adds own messages, under
  numbers it has not used, and no thread takes an entry out of \<open>ackHistory\<close>. Together they keep every
  message once, every acknowledged message among those held, and every record a thread will look for.
\<close>

section \<open>The shared invariant\<close>

definition held_ids :: "rm \<Rightarrow> (u32 \<times> u32) multiset" where
  "held_ids s = image_mset uid (mset (deliveryQueue s) + mset (deliveredMessage s))"

definition acked_ids :: "rm \<Rightarrow> (u32 \<times> u32) list" where
  "acked_ids s = map (\<lambda>am. (am_sender am, am_msg_id am)) (alreadyAckedMessages s)"

definition own_id :: "rm \<Rightarrow> u32" where
  "own_id s = to_u32 (current_container_id s)"

definition own_held :: "rm \<Rightarrow> (u32 \<times> u32) set" where
  "own_held s = {x \<in> set_mset (held_ids s). fst x = own_id s}"

definition foreign_held :: "rm \<Rightarrow> (u32 \<times> u32) set" where
  "foreign_held s = {x \<in> set_mset (held_ids s). fst x \<noteq> own_id s}"

text \<open>The message numbers in \<open>ackHistory\<close>, those with all proposals, and those with a final number.\<close>

definition known_ids :: "rm \<Rightarrow> int set" where
  "known_ids s = fst ` set (ackHistory s)"

definition complete_ids :: "rm \<Rightarrow> int set" where
  "complete_ids s = {k. \<exists>pm. map_of (ackHistory s) k = Some pm \<and> int (length pm) = num_hosts s}"

definition decided_ids :: "u32 \<Rightarrow> rm \<Rightarrow> int set" where
  "decided_ids me s = {to_int (sm_msg_id sm) | sm. sm \<in> set (seqMessageHistory s) \<and> sm_sender sm = me}"

text \<open>A packet whose type the receiver and the snapshot daemon know.\<close>

definition typed :: "u8 list \<Rightarrow> bool" where
  "typed buf \<longleftrightarrow> get32 buf 0 \<in> {DATAMSG_TYPE, ACKMSG_TYPE, SEQMSG_TYPE}"

definition tidy :: "rm \<Rightarrow> bool" where
  "tidy s \<longleftrightarrow> queue_ok s \<and> list_all typed (inboundMessageBuffer (snapshot s)) \<and>
     list_all typed (outboundMessageBuffer (snapshot s))"

definition sane :: "rm \<Rightarrow> bool" where
  "sane s \<longleftrightarrow> tidy s \<and> map_ok (ackHistory s) \<and>
     distinct (map uid (deliveryQueue s @ deliveredMessage s)) \<and>
     set (acked_ids s) \<subseteq> set_mset (held_ids s) \<and>
     list_all (\<lambda>am. am_type am = ACKMSG_TYPE) (alreadyAckedMessages s) \<and>
     list_all (\<lambda>sm. sm_type sm = SEQMSG_TYPE) (seqMessageHistory s)"

section \<open>Rely and guarantee\<close>

definition relies :: "role \<Rightarrow> rm \<Rightarrow> rm \<Rightarrow> bool" where
  "relies r s t \<longleftrightarrow> current_container_id s = current_container_id t \<and> num_hosts s = num_hosts t \<and>
     known_ids s \<subseteq> known_ids t \<and>
     (r = ReceiverThread \<longrightarrow> msg_buf s = msg_buf t \<and> alreadyAckedMessages s = alreadyAckedMessages t \<and>
        seqMessageHistory s = seqMessageHistory t \<and> complete_ids t \<subseteq> complete_ids s \<and>
        foreign_held s = foreign_held t) \<and>
     (r = MainThread \<longrightarrow> curr_msg_id s = curr_msg_id t \<and> own_held s = own_held t)"

definition grants :: "role \<Rightarrow> rm \<Rightarrow> rm \<Rightarrow> bool" where
  "grants r s t \<longleftrightarrow> (sane s \<longrightarrow> sane t) \<and> (\<forall>r'. (r = r' \<longrightarrow> several r) \<longrightarrow> relies r' s t)"

text \<open>
  The network brings whole packets of a known type, no data message of this process, and
  acknowledgements of its own messages only.
\<close>

definition foreign_buffer :: "u32 \<Rightarrow> u8 list \<Rightarrow> bool" where
  "foreign_buffer me buf \<longleftrightarrow> typed buf \<and>
     (get32 buf 0 = DATAMSG_TYPE \<longrightarrow> dm_sender (deserialize_data_message buf) \<noteq> me) \<and>
     (get32 buf 0 = ACKMSG_TYPE \<longrightarrow> am_sender (deserialize_ack_message buf) = me)"

definition foreign_packet :: "u32 \<Rightarrow> packet option \<Rightarrow> bool" where
  "foreign_packet me received = (case received of
     None \<Rightarrow> True
   | Some p \<Rightarrow> length (p_payload p) = MAX_STRUCT_SIZE \<and> foreign_buffer me (p_payload p))"

text \<open>The reasons to end that are left: what the system or the network does, and overflow.\<close>

definition outside :: "exit_reason \<Rightarrow> bool" where
  "outside err \<longleftrightarrow> err \<in> {RecvFailed, SendFailed, MarkerSendFailed, MarkerRecvFailed, SignedOverflow,
     UnknownSeqMessage}"

abbreviation keeps :: "u32 \<Rightarrow> role \<Rightarrow> (rm \<Rightarrow> bool) \<Rightarrow> code \<Rightarrow> bool" where
  "keeps me \<equiv> holds relies grants (foreign_packet me) outside sane"

abbreviation steady :: "role \<Rightarrow> (rm \<Rightarrow> bool) \<Rightarrow> bool" where
  "steady \<equiv> stable relies"

lemma relies_refl [simp]: "relies r s s"
  by (simp add: relies_def)

lemma relies_trans: "relies r s t \<Longrightarrow> relies r t u \<Longrightarrow> relies r s u"
  unfolding relies_def by (metis subset_trans)

lemma grants_refl [simp]: "grants r s s"
  by (simp add: grants_def)

lemma held_ids_list: "held_ids s = mset (map uid (deliveryQueue s @ deliveredMessage s))"
  by (simp add: held_ids_def)

lemma distinct_counts: "distinct xs \<longleftrightarrow> (\<forall>x. count (mset xs) x \<le> 1)"
proof -
  have "count (mset xs) x \<le> 1 \<longleftrightarrow> count (mset xs) x = (if x \<in> set xs then 1 else 0)" for x
    using count_mset_0_iff [of xs x] count_greater_zero_iff [of "mset xs" x] by (auto simp: le_Suc_eq)
  then show ?thesis by (simp add: distinct_count_atmost_1)
qed

lemma sane_counts: "sane s \<longleftrightarrow> tidy s \<and> map_ok (ackHistory s) \<and> (\<forall>x. count (held_ids s) x \<le> 1) \<and>
    set (acked_ids s) \<subseteq> set_mset (held_ids s) \<and>
    list_all (\<lambda>am. am_type am = ACKMSG_TYPE) (alreadyAckedMessages s) \<and>
    list_all (\<lambda>sm. sm_type sm = SEQMSG_TYPE) (seqMessageHistory s)"
  unfolding sane_def held_ids_list by (simp only: distinct_counts)

section \<open>Steps that change nothing of this\<close>

definition still :: "rm \<Rightarrow> rm \<Rightarrow> bool" where
  "still s t \<longleftrightarrow> held_ids s = held_ids t \<and> alreadyAckedMessages s = alreadyAckedMessages t \<and>
     seqMessageHistory s = seqMessageHistory t \<and> ackHistory s = ackHistory t \<and>
     msg_buf s = msg_buf t \<and> curr_msg_id s = curr_msg_id t \<and> num_hosts s = num_hosts t \<and>
     current_container_id s = current_container_id t"

lemma still_relies: "still s t \<Longrightarrow> relies r s t"
  by (simp add: still_def relies_def foreign_held_def own_held_def own_id_def known_ids_def complete_ids_def)

lemma still_grants: "still s t \<Longrightarrow> tidy t \<Longrightarrow> grants r s t"
  by (simp add: grants_def still_relies)
    (simp add: sane_counts acked_ids_def still_def)

lemma quiet_step:
  assumes "steady r P" "\<And>t. tidy t \<Longrightarrow> P t \<Longrightarrow> still t (u t) \<and> tidy (u t)"
    and "\<And>t. sane t \<Longrightarrow> P t \<Longrightarrow> keeps me r P (k t)"
  shows "keeps me r P (Step acc u k)"
proof (rule holds_step [OF assms(1), where Q = "\<lambda>t t'. P t'"])
  fix t assume "sane t" "P t"
  then have "still t (u t) \<and> tidy (u t)" using assms(2) by (simp add: sane_def)
  then show "grants r t (u t) \<and> P (u t)"
    using still_grants still_relies assms(1) \<open>P t\<close> by (auto simp: stable_def)
qed (rule assms(3))

lemma reading_step:
  "steady r P \<Longrightarrow> (\<And>t. sane t \<Longrightarrow> P t \<Longrightarrow> keeps me r P (k t)) \<Longrightarrow> keeps me r P (observe acc k)"
  by (rule quiet_step) (simp_all add: still_def)

lemma steady_True [simp]: "steady r (\<lambda>s. True)"
  by (simp add: stable_def)

lemma steady_known [simp]: "steady r (\<lambda>s. i \<in> known_ids s)"
  by (auto simp: stable_def relies_def)

lemmas still_simps = still_def tidy_def queue_ok_def held_ids_def Let_def

lemma outside_die [simp]:
  "keeps me r P (Die RecvFailed)" "keeps me r P (Die SendFailed)" "keeps me r P (Die MarkerSendFailed)"
  "keeps me r P (Die MarkerRecvFailed)" "keeps me r P (Die SignedOverflow)"
  "keeps me r P (Die UnknownSeqMessage)"
  by (rule holds_die, simp add: outside_def)+

lemmas lock_intros = holds_simps(3,4) [THEN iffD2]

named_theorems keeps_intros \<open>programs that keep their promises\<close>

text \<open>Whatever is sent has a type.\<close>

lemma typed_data [simp]: "dm_type dm = DATAMSG_TYPE \<Longrightarrow> typed (serialize_data_message dm (uninit_packet e s))"
  by (simp add: typed_def data_format.tag_enc)

lemma typed_ack [simp]: "am_type am = ACKMSG_TYPE \<Longrightarrow> typed (serialize_ack_message am (uninit_packet e s))"
  by (simp add: typed_def ack_format.tag_enc)

lemma typed_seq [simp]: "sm_type sm = SEQMSG_TYPE \<Longrightarrow> typed (serialize_seq_message sm (uninit_packet e s))"
  by (simp add: typed_def seq_format.tag_enc)

lemma keeps_transmit:
  assumes P: "steady r P" and pkt: "typed pkt" and k: "\<And>rv. keeps me r P (k rv)"
  shows "keeps me r P (transmit_prog acc dst e pkt k)"
proof -
  have "keeps me r P (Step acc (\<lambda>s1. if rv = - 1 then s1
       else s1\<lparr>outbox := outbox s1 @ [\<lparr>p_src = current_container_name s1, p_dst = dst s1, p_payload = pkt\<rparr>]\<rparr>)
      (\<lambda>_. k rv))" for rv
    by (rule quiet_step [OF P]) (simp_all add: still_simps k)
  then show ?thesis
    unfolding transmit_prog_def Let_def
    by (auto intro!: quiet_step [OF P] k simp: still_simps pkt)
qed

lemma keeps_send [keeps_intros]:
  "steady r P \<Longrightarrow> typed pkt \<Longrightarrow> (\<And>rv. keeps me r P (k rv)) \<Longrightarrow> keeps me r P (send_prog e h pkt k)"
  by (simp add: send_prog_def keeps_transmit)

lemma keeps_reply [keeps_intros]:
  "steady r P \<Longrightarrow> typed pkt \<Longrightarrow> (\<And>rv. keeps me r P (k rv)) \<Longrightarrow> keeps me r P (reply_prog e pkt k)"
  by (simp add: reply_prog_def keeps_transmit)

lemma keeps_incr [keeps_intros]: "steady r P \<Longrightarrow> keeps me r P k \<Longrightarrow> keeps me r P (incr_seq_prog k)"
  unfolding incr_seq_prog_def
  by (rule reading_step) (auto intro!: quiet_step simp: still_simps split: option.split)

section \<open>Watchdogs\<close>

text \<open>A data watchdog finds its message in \<open>ackHistory\<close>, because whoever starts it has seen it there.\<close>

lemma keeps_data_watchdog:
  "dm_type dm = DATAMSG_TYPE \<Longrightarrow>
   keeps me WatchdogThread (\<lambda>s. to_int (dm_msg_id dm) \<in> known_ids s) (datamsg_watchdog_prog e dm h n)"
proof (induction e dm h n rule: datamsg_watchdog_prog.induct)
  case (1 e dm h n)
  have found: False if "to_int (dm_msg_id dm) \<in> known_ids t" "map_of (ackHistory t) (to_int (dm_msg_id dm)) = None" for t
    using that by (simp add: known_ids_def map_of_eq_None_iff)
  from 1 show ?case
    by (subst datamsg_watchdog_prog.simps)
      (auto intro!: reading_step keeps_intros dest: found split: option.split)
qed

lemma keeps_ack_watchdog:
  "am_type am = ACKMSG_TYPE \<Longrightarrow> keeps me WatchdogThread (\<lambda>s. True) (ackmsg_watchdog_prog e am h n)"
proof (induction e am h n rule: ackmsg_watchdog_prog.induct)
  case (1 e am h n)
  then show ?case
    by (subst ackmsg_watchdog_prog.simps) (auto intro!: reading_step keeps_intros)
qed

lemma start_step:
  assumes "steady r P" "\<And>s. P s \<Longrightarrow> Q s" "keeps me WatchdogThread Q (watchdog_prog e w)" "keeps me r P k"
  shows "keeps me r P (start_watchdog e w k)"
  unfolding start_watchdog_def
  by (rule quiet_step [OF assms(1)])
    (simp_all add: still_simps holds_spawn [OF assms])

lemma keeps_start_data [keeps_intros]:
  "steady r P \<Longrightarrow> dm_type dm = DATAMSG_TYPE \<Longrightarrow> (\<And>s. P s \<Longrightarrow> to_int (dm_msg_id dm) \<in> known_ids s) \<Longrightarrow>
   keeps me r P k \<Longrightarrow> keeps me r P (start_watchdog e (DataWatchdog dm h n) k)"
  by (rule start_step [where Q = "\<lambda>s. to_int (dm_msg_id dm) \<in> known_ids s"]) (simp_all add: keeps_data_watchdog)

lemma keeps_start_ack [keeps_intros]:
  "steady r P \<Longrightarrow> am_type am = ACKMSG_TYPE \<Longrightarrow> keeps me r P k \<Longrightarrow>
   keeps me r P (start_watchdog e (AckWatchdog am h n) k)"
  by (rule start_step [where Q = "\<lambda>s. True"]) (simp_all add: keeps_ack_watchdog)

lemma keeps_multicast_sends [keeps_intros]:
  "steady r P \<Longrightarrow> dm_type dm = DATAMSG_TYPE \<Longrightarrow> (\<And>s. P s \<Longrightarrow> to_int (dm_msg_id dm) \<in> known_ids s) \<Longrightarrow> typed pkt \<Longrightarrow>
   keeps me r P k \<Longrightarrow> keeps me r P (multicast_sends e dm pkt hs k)"
  by (induction hs) (auto intro!: reading_step keeps_intros)

section \<open>Delivery and the snapshot\<close>

text \<open>Delivery, numbers and the snapshot move no message in or out.\<close>

lemma held_ids_holdings: "held_ids s = image_mset (\<lambda>(a, b, c). (a, b)) (holdings s)"
  by (simp add: held_ids_def holdings_def payload_def uid_def [abs_def] comp_def image_mset.compositionality)

lemma still_change: "tidy t \<Longrightarrow> still t (change_queue a b sn pr t) \<and> tidy (change_queue a b sn pr t)"
  using change_keeps [of t a b sn pr]
  by (auto simp: still_def tidy_def held_ids_holdings holdings_def change_queue_def change_mset)

lemma still_deliver:
  assumes "tidy t"
  shows "still t (deliver_msg_from_deliveryqueue t) \<and> tidy (deliver_msg_from_deliveryqueue t)"
proof -
  obtain rest out where "deliver_loop (deliveryQueue t) (deliveredMessage t) = (rest, deliveredMessage t @ out)"
    "dq.drained (deliveryQueue t) rest out"
    using dq.loop_drains [of "deliveryQueue t" "deliveredMessage t"] assms by (auto simp: queue_ok_def tidy_def)
  then show ?thesis
    using deliver_keeps [of t] assms
    by (simp add: tidy_def deliver_msg_from_deliveryqueue_def still_def held_ids_def dq.drained_def)
qed

lemma keeps_deliver [keeps_intros]: "steady r P \<Longrightarrow> keeps me r P k \<Longrightarrow> keeps me r P (deliver_prog k)"
  by (auto simp: deliver_prog_def Let_def intro!: quiet_step still_deliver reading_step)

lemma keeps_change [keeps_intros]:
  "steady r P \<Longrightarrow> (\<And>s. keeps me r P (k s)) \<Longrightarrow> keeps me r P (Step acc (change_queue a b sn pr) k)"
  by (rule quiet_step) (simp_all add: still_change)

lemma keeps_local_snapshot [keeps_intros]:
  "steady r P \<Longrightarrow> keeps me r P k \<Longrightarrow> keeps me r P (local_snapshot_prog k)"
  by (auto simp: local_snapshot_prog_def Let_def intro!: reading_step quiet_step) (simp_all add: still_simps)

lemma keeps_recording [keeps_intros]:
  "steady r P \<Longrightarrow> keeps me r P k \<Longrightarrow> keeps me r P (start_recording_prog k)"
  "steady r P \<Longrightarrow> keeps me r P k \<Longrightarrow> keeps me r P (stop_recording_prog k)"
  unfolding start_recording_prog_def stop_recording_prog_def holds_simps
  by (rule quiet_step; simp add: still_simps)+

lemma keeps_markers [keeps_intros]:
  assumes "steady r P" "keeps me r P k"
  shows "keeps me r P (broadcast_markers_prog e k)"
proof -
  have "keeps me r P (marker_sends e hs k)" for hs
  proof (induction hs)
    case (Cons h hs)
    then show ?case
      unfolding marker_sends.simps
      by (auto intro!: reading_step [OF assms(1)] quiet_step [OF assms(1)] simp: still_simps split: connect_outcome.split)
  qed (simp add: assms(2))
  then show ?thesis unfolding broadcast_markers_prog_def by (intro reading_step assms(1))
qed

lemma keeps_initiate [keeps_intros]:
  "steady r P \<Longrightarrow> keeps me r P k \<Longrightarrow> keeps me r P (initiate_snapshot_prog e k)"
  unfolding initiate_snapshot_prog_def
  by (intro keeps_intros quiet_step) (simp_all add: still_simps)

section \<open>The listener\<close>

abbreviation listens :: "u32 \<Rightarrow> code \<Rightarrow> bool" where
  "listens me \<equiv> keeps me ListenerThread (\<lambda>s. True)"

lemma typed_classified:
  assumes "typed b"
  obtains c' where "handle_message (take MAX_STRUCT_SIZE b) d c = Inr c'"
    "inboundMessageBuffer c' = inboundMessageBuffer c" "outboundMessageBuffer c' = outboundMessageBuffer c"
proof -
  have b: "get32 (take MAX_STRUCT_SIZE b) 0 = get32 b 0"
    by (simp add: get32_def unpacku32_def MAX_STRUCT_SIZE_def)
  have "\<exists>who text. classify_message (take MAX_STRUCT_SIZE b) = Inr (who, text)"
    using assms by (auto simp: classify_message_def unpacku32_bound b typed_def Let_def
        DATAMSG_TYPE_def ACKMSG_TYPE_def SEQMSG_TYPE_def)
  then show thesis
    using that by (cases d) (auto simp: handle_message_def add_msg_to_inbound_def add_msg_to_outbound_def)
qed

lemma drained_types:
  "list_all typed bs \<Longrightarrow> \<exists>c'. drain_messages d bs c = Inr c' \<and>
    inboundMessageBuffer c' = inboundMessageBuffer c \<and> outboundMessageBuffer c' = outboundMessageBuffer c"
proof (induction bs arbitrary: c)
  case (Cons b bs)
  then obtain c1 where "handle_message (take MAX_STRUCT_SIZE b) d c = Inr c1"
    "inboundMessageBuffer c1 = inboundMessageBuffer c" "outboundMessageBuffer c1 = outboundMessageBuffer c"
    using typed_classified [of b d c] by auto
  with Cons.IH [of c1] Cons.prems show ?case by auto
qed simp

lemma drains_tidy:
  assumes "tidy t"
  shows "\<exists>c'. drain_inbound (snapshot t) = Inr c' \<and> tidy (t\<lparr>snapshot := c'\<rparr>)"
    "\<exists>c'. drain_outbound (snapshot t) = Inr c' \<and> tidy (t\<lparr>snapshot := c'\<rparr>)"
proof -
  obtain c1 where c1: "drain_messages INBOUND (inboundMessageBuffer (snapshot t)) (snapshot t) = Inr c1"
    "outboundMessageBuffer c1 = outboundMessageBuffer (snapshot t)"
    using drained_types assms unfolding tidy_def by blast
  obtain c2 where c2: "drain_messages OUTBOUND (outboundMessageBuffer (snapshot t)) (snapshot t) = Inr c2"
    "inboundMessageBuffer c2 = inboundMessageBuffer (snapshot t)"
    using drained_types assms unfolding tidy_def by blast
  show "\<exists>c'. drain_inbound (snapshot t) = Inr c' \<and> tidy (t\<lparr>snapshot := c'\<rparr>)"
    "\<exists>c'. drain_outbound (snapshot t) = Inr c' \<and> tidy (t\<lparr>snapshot := c'\<rparr>)"
    using assms by (simp_all add: drain_inbound_def drain_outbound_def c1 c2 tidy_def queue_ok_def)
qed

lemma drain_step:
  assumes "\<And>t. tidy t \<Longrightarrow> \<exists>c'. f (snapshot t) = Inr c' \<and> tidy (t\<lparr>snapshot := c'\<rparr>)" "listens me k"
  shows "listens me (Step acc (\<lambda>s. case f (snapshot s) of Inl err \<Rightarrow> s | Inr c \<Rightarrow> s\<lparr>snapshot := c\<rparr>)
    (\<lambda>s. case f (snapshot s) of Inl err \<Rightarrow> Die err | Inr c \<Rightarrow> Unlock m k))"
proof (rule quiet_step)
  fix t assume "tidy t"
  with assms(1) obtain c' where "f (snapshot t) = Inr c'" "tidy (t\<lparr>snapshot := c'\<rparr>)" by blast
  then show "still t (case f (snapshot t) of Inl err \<Rightarrow> t | Inr c \<Rightarrow> t\<lparr>snapshot := c\<rparr>) \<and>
      tidy (case f (snapshot t) of Inl err \<Rightarrow> t | Inr c \<Rightarrow> t\<lparr>snapshot := c\<rparr>)"
    by (simp add: still_def held_ids_def)
next
  fix t assume "sane t"
  then have "tidy t" by (simp add: sane_def)
  with assms(1) obtain c' where "f (snapshot t) = Inr c'" by blast
  with assms(2) show "listens me (case f (snapshot t) of Inl err \<Rightarrow> Die err | Inr c \<Rightarrow> Unlock m k)" by simp
qed simp

lemma listens_drain [keeps_intros]: "listens me k \<Longrightarrow> listens me (drain_prog d k)"
  by (cases d) (simp_all add: drain_prog_def drain_step drains_tidy)

lemma listens_accept [keeps_intros]: "listens me k \<Longrightarrow> listens me (accept_prog r k)"
  by (cases r) (auto simp: accept_prog_def still_simps intro!: quiet_step)

lemma listens_mark [keeps_intros]: "listens me k \<Longrightarrow> listens me (mark_prog k)"
  by (auto simp: mark_prog_def mark_received_def still_simps intro!: quiet_step)

lemma listens_await [keeps_intros]: "(\<And>r. listens me (f r)) \<Longrightarrow> listens me (await_prog f)"
  by (auto simp: await_prog_def still_simps intro!: quiet_step)

lemma listens_finish [keeps_intros]: "listens me finish_prog"
  unfolding finish_prog_def by (intro keeps_intros quiet_step) (simp_all add: still_simps)

lemma listens_loop [keeps_intros]: "listens me (listener_loop_prog others n)"
proof (induction others n rule: listener_loop_prog.induct)
  case (1 others n)
  then show ?case by (subst listener_loop_prog.simps) (auto intro!: keeps_intros)
qed

lemma listens_listener: "listens me (listener_prog e)"
  by (auto simp: listener_prog_def first_marker_prog_def intro!: keeps_intros reading_step)

section \<open>The main thread\<close>

text \<open>The numbers of own messages were all given before; a new one is unused until it is queued.\<close>

definition given :: "u32 \<Rightarrow> int \<Rightarrow> (u32 \<times> u32) set" where
  "given me n = {(me, to_u32 j) | j. j < n \<and> j \<in> int_range}"

definition numbered :: "u32 \<Rightarrow> rm \<Rightarrow> bool" where
  "numbered me s \<longleftrightarrow> own_id s = me \<and> 1 < num_hosts s \<and> curr_msg_id s \<in> int_range \<and>
     own_held s \<subseteq> given me (curr_msg_id s)"

definition unused :: "u32 \<Rightarrow> u32 \<times> u32 \<Rightarrow> rm \<Rightarrow> bool" where
  "unused me x s \<longleftrightarrow> numbered me s \<and> x \<notin> own_held s \<and> x \<in> given me (curr_msg_id s)"

lemma given_fst: "x \<in> given me n \<Longrightarrow> fst x = me"
  by (auto simp: given_def)

lemma steady_main [simp]: "steady MainThread (numbered me)" "steady MainThread (unused me x)"
  by (auto simp: stable_def relies_def numbered_def unused_def own_id_def)

lemma steady_conj: "steady r P \<Longrightarrow> steady r Q \<Longrightarrow> steady r (\<lambda>s. P s \<and> Q s)"
  by (auto simp: stable_def)

lemma held_push [simp]: "queue_ok s \<Longrightarrow> held_ids (push_queue m s) = add_mset (uid m) (held_ids s)"
  by (simp add: held_ids_def push_queue_def queue_ok_def dq.mset_push)

lemma push_fields [simp]:
  "own_id (push_queue m s) = own_id s" "curr_msg_id (push_queue m s) = curr_msg_id s"
  "msg_buf (push_queue m s) = msg_buf s" "alreadyAckedMessages (push_queue m s) = alreadyAckedMessages s"
  "seqMessageHistory (push_queue m s) = seqMessageHistory s" "ackHistory (push_queue m s) = ackHistory s"
  "num_hosts (push_queue m s) = num_hosts s" "snapshot (push_queue m s) = snapshot s"
  "current_container_id (push_queue m s) = current_container_id s"
  by (simp_all add: own_id_def push_queue_def)

lemma push_ids [simp]:
  "known_ids (push_queue m s) = known_ids s" "complete_ids (push_queue m s) = complete_ids s"
  "decided_ids me (push_queue m s) = decided_ids me s" "acked_ids (push_queue m s) = acked_ids s"
  by (simp_all add: known_ids_def complete_ids_def decided_ids_def acked_ids_def)

lemma sane_push:
  assumes "sane s" "uid m \<notin># held_ids s"
  shows "sane (push_queue m s)"
  using assms push_keeps [of s m] by (auto simp: sane_counts tidy_def not_in_iff)

lemma uid_queued [simp]: "uid (make_queued_msg sn st a b d pr) = (a, b)"
  by (simp add: uid_def make_queued_msg_def)

lemma sane_queue_ok: "sane s \<Longrightarrow> queue_ok s"
  by (simp add: sane_def tidy_def)

text \<open>The new message is in \<open>ackHistory\<close> before it is queued and sent.\<close>

lemma keeps_own_push:
  assumes "uid m = x" "keeps me MainThread (\<lambda>s. numbered me s \<and> i \<in> known_ids s) k"
  shows "keeps me MainThread (\<lambda>s. unused me x s \<and> i \<in> known_ids s) (update acc (push_queue m) k)"
proof (rule holds_step [where Q = "\<lambda>t s. numbered me s \<and> i \<in> known_ids s"])
  fix t assume t: "sane t" "unused me x t \<and> i \<in> known_ids t"
  then have x: "x \<notin># held_ids t" "fst x = own_id t" "queue_ok t"
    by (auto simp: unused_def numbered_def own_held_def sane_queue_ok dest: given_fst)
  have "own_held (push_queue m t) = insert x (own_held t)" "foreign_held (push_queue m t) = foreign_held t"
    using x(2,3) assms(1) by (auto simp: own_held_def foreign_held_def)
  moreover have "sane (push_queue m t)" using sane_push t(1) x(1) assms(1) by simp
  ultimately show "grants MainThread t (push_queue m t) \<and> numbered me (push_queue m t) \<and>
      i \<in> known_ids (push_queue m t)"
    using t(2) by (auto simp: grants_def relies_def several_def unused_def numbered_def)
qed (use assms(2) in \<open>simp_all add: steady_conj\<close>)

lemma keeps_take_number:
  assumes some: "\<And>t. own_id t = me \<Longrightarrow> keeps me MainThread (unused me (me, to_u32 (curr_msg_id t))) (k t)"
    and none: "\<And>t. incr_int (curr_msg_id t) = None \<Longrightarrow> k t = Die SignedOverflow"
  shows "keeps me MainThread (numbered me)
    (Step acc (\<lambda>s. case incr_int (curr_msg_id s) of None \<Rightarrow> s | Some n \<Rightarrow> s\<lparr>curr_msg_id := n\<rparr>) k)"
proof (rule holds_step [where Q = "\<lambda>t s. case incr_int (curr_msg_id t) of
    None \<Rightarrow> True | Some n \<Rightarrow> unused me (me, to_u32 (curr_msg_id t)) s"])
  fix t assume t: "sane t" "numbered me t"
  have same: "held_ids (t\<lparr>curr_msg_id := n\<rparr>) = held_ids t" "own_id (t\<lparr>curr_msg_id := n\<rparr>) = own_id t"
    "tidy (t\<lparr>curr_msg_id := n\<rparr>) = tidy t" for n
    by (simp_all add: held_ids_def own_id_def tidy_def queue_ok_def)
  have id: "own_id t = me" using t(2) by (simp add: numbered_def)
  let ?u = "case incr_int (curr_msg_id t) of None \<Rightarrow> t | Some n \<Rightarrow> t\<lparr>curr_msg_id := n\<rparr>"
  have "relies r t ?u" if "r \<noteq> MainThread" for r
    using that by (auto simp: relies_def foreign_held_def same known_ids_def complete_ids_def split: option.split)
  moreover have "sane ?u" using t(1) by (auto simp: sane_counts acked_ids_def same split: option.split)
  ultimately have g: "grants MainThread t ?u" by (auto simp: grants_def several_def)
  have "unused me (me, to_u32 (curr_msg_id t)) (t\<lparr>curr_msg_id := n\<rparr>)" if "incr_int (curr_msg_id t) = Some n" for n
  proof -
    have n: "n = curr_msg_id t + 1" "n \<in> int_range" "curr_msg_id t \<in> int_range"
      using that t(2) by (auto simp: incr_int_def numbered_def int_range_def INT_MAX_def split: if_splits)
    have new: "(me, to_u32 (curr_msg_id t)) \<notin> given me (curr_msg_id t)"
      using n(3) by (auto simp: given_def to_u32_inject)
    have "given me (curr_msg_id t) \<subseteq> given me n" "(me, to_u32 (curr_msg_id t)) \<in> given me n"
      using n by (force simp: given_def)+
    with n new t(2) show ?thesis
      by (auto simp: unused_def numbered_def own_held_def same)
  qed
  with g show "grants MainThread t ?u \<and> (case incr_int (curr_msg_id t) of
      None \<Rightarrow> True | Some n \<Rightarrow> unused me (me, to_u32 (curr_msg_id t)) ?u)"
    by (simp split: option.split)
  show "keeps me MainThread (\<lambda>s. case incr_int (curr_msg_id t) of
      None \<Rightarrow> True | Some n \<Rightarrow> unused me (me, to_u32 (curr_msg_id t)) s) (k t)"
    using some [OF id] none [of t] by (cases "incr_int (curr_msg_id t)") simp_all
qed simp

text \<open>
  A new entry in \<open>ackHistory\<close> has one proposal, so it is not complete: \<open>insert\<close> does nothing to an entry
  that is there.
\<close>

lemma complete_insert:
  "map_ok (ackHistory s) \<Longrightarrow> num_hosts s \<noteq> int (length pm) \<Longrightarrow>
   complete_ids (s\<lparr>ackHistory := map_insert i pm (ackHistory s)\<rparr>) = complete_ids s"
  by (auto simp: complete_ids_def map_of_insert split: option.splits)

lemma known_insert: "known_ids (s\<lparr>ackHistory := map_insert i pm (ackHistory s)\<rparr>) = insert i (known_ids s)"
  by (simp add: known_ids_def)

lemma sane_ack_history: "sane s \<Longrightarrow> map_ok m \<Longrightarrow> sane (s\<lparr>ackHistory := m\<rparr>)"
  by (simp add: sane_def tidy_def queue_ok_def acked_ids_def held_ids_def)

lemma ack_history_fields [simp]:
  "held_ids (s\<lparr>ackHistory := m\<rparr>) = held_ids s" "own_id (s\<lparr>ackHistory := m\<rparr>) = own_id s"
  "own_held (s\<lparr>ackHistory := m\<rparr>) = own_held s" "foreign_held (s\<lparr>ackHistory := m\<rparr>) = foreign_held s"
  "decided_ids me (s\<lparr>ackHistory := m\<rparr>) = decided_ids me s" "acked_ids (s\<lparr>ackHistory := m\<rparr>) = acked_ids s"
  by (simp_all add: held_ids_def own_id_def own_held_def foreign_held_def decided_ids_def acked_ids_def)

lemma keeps_own_entry:
  assumes "keeps me MainThread (\<lambda>s. unused me x s \<and> i \<in> known_ids s) k" "length pm = 1"
  shows "keeps me MainThread (unused me x) (update acc (\<lambda>s. s\<lparr>ackHistory := map_insert i pm (ackHistory s)\<rparr>) k)"
proof (rule holds_step [where Q = "\<lambda>t s. unused me x s \<and> i \<in> known_ids s"])
  fix t assume t: "sane t" "unused me x t"
  let ?u = "t\<lparr>ackHistory := map_insert i pm (ackHistory t)\<rparr>"
  have ok: "map_ok (ackHistory t)" "num_hosts t \<noteq> int (length pm)"
    using t assms(2) by (simp_all add: sane_def unused_def numbered_def)
  have "grants MainThread t ?u"
    using sane_ack_history [OF t(1)] ok
    by (auto simp: grants_def relies_def several_def complete_insert known_insert)
  then show "grants MainThread t ?u \<and> unused me x ?u \<and> i \<in> known_ids ?u"
    using t(2) by (simp add: unused_def numbered_def known_insert)
qed (use assms(1) in simp_all)

lemma keeps_multicast [keeps_intros]:
  assumes k: "keeps me MainThread (numbered me) k"
  shows "keeps me MainThread (numbered me) (multicast_datamsg_prog e data k)"
proof -
  have sends: "keeps me MainThread (\<lambda>s. numbered me s \<and> to_int (dm_msg_id dm) \<in> known_ids s)
      (observe acc (\<lambda>s. multicast_sends e dm (serialize_data_message dm (uninit_packet e s))
        (take (nat (num_hosts s)) (hostNames s)) k))" if "dm_type dm = DATAMSG_TYPE" for dm acc
    by (intro reading_step keeps_intros holds_weaken [OF k]) (simp_all add: steady_conj that)
  show ?thesis
    unfolding multicast_datamsg_prog_def Let_def
  proof (rule keeps_take_number, goal_cases)
    case (1 t)
    then have id: "to_u32 (current_container_id t) = me" by (simp add: own_id_def)
    show ?case
    proof (cases "incr_int (curr_msg_id t)")
      case (Some n)
      show ?thesis
        unfolding Some option.case
        by (rule lock_intros keeps_incr keeps_own_entry keeps_own_push sends reading_step quiet_step
          | simp add: steady_conj still_simps id)+
    qed simp
  qed simp
qed

lemma keeps_main: "keeps me MainThread (numbered me) (main_prog e p i)"
proof (induction e p i rule: main_prog.induct)
  case (1 e p i)
  then show ?case by (subst main_prog.simps) (auto intro!: keeps_intros)
qed

section \<open>The receiver\<close>

text \<open>
  Between two datagrams the messages of others that are held are exactly the acknowledged ones, and every
  complete entry of \<open>ackHistory\<close> has its final number; inside \<open>handle_datamsg\<close> there may be one more
  message, inside \<open>handle_ackmsg\<close> one more complete entry.
\<close>

definition receiving :: "u32 \<Rightarrow> rm \<Rightarrow> bool" where
  "receiving me s \<longleftrightarrow> own_id s = me \<and> 1 < num_hosts s \<and> length (msg_buf s) = MAX_STRUCT_SIZE"

definition answering :: "u32 \<Rightarrow> rm \<Rightarrow> bool" where
  "answering me s \<longleftrightarrow> receiving me s \<and> set (acked_ids s) = foreign_held s \<and>
     complete_ids s \<subseteq> decided_ids me s"

definition novel :: "u32 \<Rightarrow> u32 \<times> u32 \<Rightarrow> rm \<Rightarrow> bool" where
  "novel me x s \<longleftrightarrow> answering me s \<and> fst x \<noteq> me \<and> x \<notin> set (acked_ids s)"

definition unanswered :: "u32 \<Rightarrow> u32 \<times> u32 \<Rightarrow> rm \<Rightarrow> bool" where
  "unanswered me x s \<longleftrightarrow> receiving me s \<and> x \<in> foreign_held s \<and> set (acked_ids s) = foreign_held s - {x} \<and>
     complete_ids s \<subseteq> decided_ids me s"

definition deciding :: "u32 \<Rightarrow> int \<Rightarrow> rm \<Rightarrow> bool" where
  "deciding me i s \<longleftrightarrow> receiving me s \<and> set (acked_ids s) = foreign_held s \<and>
     complete_ids s \<subseteq> insert i (decided_ids me s)"

definition decided :: "u32 \<Rightarrow> int \<Rightarrow> rm \<Rightarrow> bool" where
  "decided me i s \<longleftrightarrow> answering me s \<and> i \<in> decided_ids me s"

definition loaded :: "u32 \<Rightarrow> rm \<Rightarrow> bool" where
  "loaded me s \<longleftrightarrow> answering me s \<and> foreign_buffer me (msg_buf s)"

lemmas receiver_states = answering_def novel_def unanswered_def deciding_def decided_def loaded_def

lemma steady_receiverI:
  assumes "\<And>s t. \<lbrakk>P s; receiving me s = receiving me t; acked_ids s = acked_ids t; foreign_held s = foreign_held t;
    complete_ids t \<subseteq> complete_ids s; decided_ids me s = decided_ids me t; msg_buf s = msg_buf t\<rbrakk> \<Longrightarrow> P t"
  shows "steady ReceiverThread P"
  unfolding stable_def
proof (intro allI impI)
  fix s t assume "P s" "relies ReceiverThread s t"
  then show "P t"
    by (intro assms [of s t]) (simp_all add: relies_def receiving_def acked_ids_def decided_ids_def own_id_def)
qed

lemma steady_receiver [simp]:
  "steady ReceiverThread (answering me)" "steady ReceiverThread (unanswered me x)"
  "steady ReceiverThread (novel me x)" "steady ReceiverThread (loaded me)"
  "steady ReceiverThread (deciding me i)" "steady ReceiverThread (decided me i)"
  by (rule steady_receiverI [where me = me], auto simp: receiver_states)+

abbreviation receives :: "u32 \<Rightarrow> (rm \<Rightarrow> bool) \<Rightarrow> code \<Rightarrow> bool" where
  "receives me \<equiv> keeps me ReceiverThread"

text \<open>What the receiver may change.\<close>

lemma receiver_grants:
  assumes "sane s \<Longrightarrow> sane t" "current_container_id s = current_container_id t" "num_hosts s = num_hosts t"
    "curr_msg_id s = curr_msg_id t" "own_held s = own_held t" "known_ids s \<subseteq> known_ids t"
  shows "grants ReceiverThread s t"
  using assms by (auto simp: grants_def relies_def several_def)

section \<open>Data messages\<close>

lemma receives_foreign_push:
  assumes "uid m = x" "receives me (unanswered me x) k"
  shows "receives me (novel me x) (update acc (push_queue m) k)"
proof (rule holds_step [where Q = "\<lambda>t. unanswered me x"])
  fix t assume t: "sane t" "novel me x t"
  then have x: "x \<notin># held_ids t" "fst x \<noteq> own_id t" "queue_ok t" "own_id t = me"
    by (auto simp: novel_def answering_def receiving_def foreign_held_def sane_queue_ok)
  then have held: "own_held (push_queue m t) = own_held t" "foreign_held (push_queue m t) = insert x (foreign_held t)"
    using assms(1) by (auto simp: own_held_def foreign_held_def)
  have "sane (push_queue m t)" using sane_push t(1) x(1) assms(1) by simp
  then have "grants ReceiverThread t (push_queue m t)" by (intro receiver_grants) (simp_all add: held)
  with t(2) x held show "grants ReceiverThread t (push_queue m t) \<and> unanswered me x (push_queue m t)"
    by (auto simp: novel_def answering_def unanswered_def receiving_def)
qed (use assms(2) in simp_all)

lemma receives_acknowledge:
  assumes "(am_sender am, am_msg_id am) = x" "am_type am = ACKMSG_TYPE" "receives me (answering me) k"
  shows "receives me (unanswered me x)
    (update acc (\<lambda>s. s\<lparr>alreadyAckedMessages := alreadyAckedMessages s @ [am]\<rparr>) k)"
proof (rule holds_step [where Q = "\<lambda>t. answering me"])
  fix t assume t: "sane t" "unanswered me x t"
  let ?u = "t\<lparr>alreadyAckedMessages := alreadyAckedMessages t @ [am]\<rparr>"
  have u: "held_ids ?u = held_ids t" "set (acked_ids ?u) = insert x (set (acked_ids t))" "own_id ?u = own_id t"
    "tidy ?u = tidy t" "complete_ids ?u = complete_ids t" "known_ids ?u = known_ids t"
    "decided_ids me ?u = decided_ids me t"
    using assms(1) by (auto simp: held_ids_def acked_ids_def own_id_def tidy_def queue_ok_def complete_ids_def
        known_ids_def decided_ids_def)
  then have "sane ?u" "answering me ?u"
    using t assms(2) by (auto simp: sane_counts unanswered_def answering_def receiving_def foreign_held_def)
  with u show "grants ReceiverThread t ?u \<and> answering me ?u"
    by (auto intro!: receiver_grants simp: own_held_def)
qed (use assms(3) in simp_all)

lemma receives_datamsg [keeps_intros]:
  assumes k: "receives me (answering me) k" and dm: "dm_sender dm \<noteq> me"
  shows "receives me (answering me) (handle_datamsg_prog e dm k)"
proof -
  let ?find = "\<lambda>s. find (\<lambda>am. am_sender am = dm_sender dm \<and> am_msg_id am = dm_msg_id dm) (alreadyAckedMessages s)"
  have name: "receives me (answering me) (Step acc
      (\<lambda>s. s\<lparr>hostIDtoHostName := fst (subscript [] (hostIDtoHostName s) i)\<rparr>)
      (\<lambda>s. start_watchdog e (AckWatchdog am (snd (subscript [] (hostIDtoHostName s) i)) 0) k))"
    if "am_type am = ACKMSG_TYPE" for acc am i
    by (rule quiet_step) (simp_all add: still_simps keeps_start_ack k that)
  have reply: "receives me (answering me) (observe acc (\<lambda>s. reply_prog e (serialize_ack_message am (uninit_packet e s)) p))"
    if "\<And>rv. receives me (answering me) (p rv)" "am_type am = ACKMSG_TYPE" for acc am p
    by (intro reading_step keeps_reply that) (simp_all add: that)
  show ?thesis
    unfolding handle_datamsg_prog_def Let_def
  proof (rule holds_step [where Q = "\<lambda>t s. if ?find t = None then novel me (dm_sender dm, dm_msg_id dm) s
      else answering me s"], goal_cases)
    case (2 t)
    then show ?case using dm by (auto simp: novel_def find_None_iff acked_ids_def)
  next
    case (3 t)
    show ?case
    proof (cases "?find t")
      case None
      then show ?thesis
        by (auto intro!: keeps_intros reading_step receives_foreign_push receives_acknowledge reply name
            simp: make_ack_msg_def)
    next
      case (Some am)
      have "am_type am = ACKMSG_TYPE"
        using 3(1) find_Some_memD [OF Some] by (auto simp: sane_def list_all_iff)
      with Some show ?thesis using reply [of "\<lambda>rv. k"] k by simp
    qed
  qed simp
qed

section \<open>Acknowledgements and final numbers\<close>

definition add_seq :: "SeqMessage \<Rightarrow> rm \<Rightarrow> rm" where
  "add_seq sm s = s\<lparr>seqMessageHistory := seqMessageHistory s @ [sm]\<rparr>"

text \<open>A final number is filed: after it, one more entry may be complete.\<close>

lemma receives_file:
  assumes "sm_type sm = SEQMSG_TYPE" "steady ReceiverThread P" "receives me (answering me) k"
    and "\<And>s. P s \<Longrightarrow> receiving me s \<and> set (acked_ids s) = foreign_held s \<and>
      complete_ids s \<subseteq> decided_ids me (add_seq sm s)"
  shows "receives me P (update acc (\<lambda>s. s\<lparr>seqMessageHistory := seqMessageHistory s @ [sm]\<rparr>) k)"
proof (rule holds_step [OF assms(2), where Q = "\<lambda>t. answering me"])
  fix t assume t: "sane t" "P t"
  let ?u = "t\<lparr>seqMessageHistory := seqMessageHistory t @ [sm]\<rparr>"
  have u: "held_ids ?u = held_ids t" "acked_ids ?u = acked_ids t" "own_id ?u = own_id t" "own_held ?u = own_held t"
    "tidy ?u = tidy t" "complete_ids ?u = complete_ids t" "known_ids ?u = known_ids t"
    "foreign_held ?u = foreign_held t" "receiving me ?u = receiving me t"
    by (auto simp: held_ids_def acked_ids_def own_id_def tidy_def queue_ok_def complete_ids_def
        known_ids_def own_held_def foreign_held_def receiving_def)
  then have "sane ?u" "answering me ?u"
    using t assms(1) assms(4) [OF t(2)] by (auto simp: sane_counts answering_def add_seq_def)
  with u show "grants ReceiverThread t ?u \<and> answering me ?u"
    by (auto intro!: receiver_grants)
qed (use assms(3) in simp_all)

lemma decided_add: "decided_ids me (add_seq sm s) =
    (if sm_sender sm = me then insert (to_int (sm_msg_id sm)) (decided_ids me s) else decided_ids me s)"
  by (auto simp: decided_ids_def add_seq_def)

lemma receives_broadcast [keeps_intros]:
  assumes "steady ReceiverThread P" "receives me P k" "sm_type sm = SEQMSG_TYPE"
  shows "receives me P (broadcast_seq_prog e sm k)"
proof -
  have "receives me P (broadcast_sends e pkt hs k)" if "typed pkt" for pkt hs
    by (induction hs) (auto intro!: reading_step keeps_intros assms that)
  then show ?thesis unfolding broadcast_seq_prog_def by (intro reading_step assms) (simp add: assms)
qed

lemma receives_finalize:
  assumes k: "receives me (answering me) k" and am: "am_sender am = me"
  shows "receives me (deciding me (to_int (am_msg_id am))) (finalize_prog e am pm k)"
proof -
  have filing: "receives me (deciding me (to_int (am_msg_id am)))
      (update acc (\<lambda>s. s\<lparr>seqMessageHistory := seqMessageHistory s @ [sm]\<rparr>) p)"
    if "receives me (answering me) p" "sm_type sm = SEQMSG_TYPE" "sm_sender sm = me" "sm_msg_id sm = am_msg_id am"
    for acc p sm
    by (rule receives_file) (use that in \<open>auto simp: deciding_def decided_add\<close>)
  show ?thesis
    unfolding finalize_prog_def Let_def
    by (split prod.split) (auto intro!: filing keeps_intros k simp: make_seq_msg_def am)
qed

lemma receives_resend:
  assumes k: "receives me (answering me) k" and am: "am_sender am = me"
  shows "receives me (decided me (to_int (am_msg_id am))) (resend_seq_prog e am k)"
proof -
  let ?find = "\<lambda>s. find (\<lambda>sm. sm_msg_id sm = am_msg_id am \<and> sm_sender sm = am_sender am) (seqMessageHistory s)"
  have k': "receives me (decided me i) k" for i by (rule holds_weaken [OF k]) (simp add: decided_def)
  have found: "\<exists>sm. ?find t = Some sm \<and> sm_type sm = SEQMSG_TYPE"
    if t: "sane t" "decided me (to_int (am_msg_id am)) t" for t
  proof -
    obtain sm where "sm \<in> set (seqMessageHistory t)" "sm_sender sm = me" "sm_msg_id sm = am_msg_id am"
      using t(2) by (auto simp: decided_def decided_ids_def to_int_inject)
    then obtain sm where sm: "?find t = Some sm" using am by (cases "?find t") (auto simp: find_None_iff)
    with t(1) find_Some_memD [OF sm] show ?thesis by (auto simp: sane_def list_all_iff)
  qed
  have reply: "receives me (decided me i) (observe acc (\<lambda>s. reply_prog e (serialize_seq_message sm (uninit_packet e s)) p))"
    if "\<And>rv. receives me (decided me i) (p rv)" "sm_type sm = SEQMSG_TYPE" for acc sm p i
    by (intro reading_step keeps_reply that) (simp_all add: that)
  show ?thesis
    unfolding resend_seq_prog_def holds_simps
  proof (rule reading_step)
    fix t assume "sane t" "decided me (to_int (am_msg_id am)) t"
    then obtain sm where "?find t = Some sm" "sm_type sm = SEQMSG_TYPE" using found by blast
    then show "receives me (decided me (to_int (am_msg_id am))) (case ?find t of
        None \<Rightarrow> Unlock SeqMessageHistoryMutex (Unlock AckHistoryMutex (Die SeqMsgNotInHistory))
      | Some sm \<Rightarrow> observe [] (\<lambda>s. reply_prog e (serialize_seq_message sm (uninit_packet e s)) (\<lambda>rv.
          if rv = - 1 then Unlock SeqMessageHistoryMutex (Die SendFailed)
          else Unlock SeqMessageHistoryMutex k)))"
      by (auto intro!: reply k')
  qed simp
qed

text \<open>The two writes to \<open>ackHistory\<close>.\<close>

lemma receives_ack_write:
  assumes "\<And>s. sane s \<Longrightarrow> map_ok (f (ackHistory s)) \<and> fst ` set (ackHistory s) \<subseteq> fst ` set (f (ackHistory s))"
    and "\<And>s. sane s \<Longrightarrow> answering me s \<Longrightarrow>
      Q s (s\<lparr>ackHistory := f (ackHistory s)\<rparr>)"
    and "\<And>s. sane s \<Longrightarrow> answering me s \<Longrightarrow> receives me (Q s) (k s)"
  shows "receives me (answering me) (Step acc (\<lambda>s. s\<lparr>ackHistory := f (ackHistory s)\<rparr>) k)"
proof (rule holds_step [where Q = Q])
  fix t assume t: "sane t" "answering me t"
  have "grants ReceiverThread t (t\<lparr>ackHistory := f (ackHistory t)\<rparr>)"
    using sane_ack_history assms(1) [OF t(1)] by (intro receiver_grants) (auto simp: known_ids_def)
  with assms(2) [OF t] show "grants ReceiverThread t (t\<lparr>ackHistory := f (ackHistory t)\<rparr>) \<and>
      Q t (t\<lparr>ackHistory := f (ackHistory t)\<rparr>)" by blast
qed (use assms(3) in simp_all)

lemma receiving_ack [simp]: "receiving me (s\<lparr>ackHistory := m\<rparr>) = receiving me s"
  by (simp add: receiving_def)

lemma complete_store:
  "map_ok (ackHistory s) \<Longrightarrow> complete_ids (s\<lparr>ackHistory := map_store i pm (ackHistory s)\<rparr>) \<subseteq>
   (if int (length pm) = num_hosts s then insert i (complete_ids s) else complete_ids s)"
  by (auto simp: complete_ids_def map_of_store split: if_splits)

lemma receives_ackmsg [keeps_intros]:
  assumes k: "receives me (answering me) k" and am: "am_sender am = me"
  shows "receives me (answering me) (handle_ackmsg_prog e am k)"
proof -
  let ?i = "to_int (am_msg_id am)"
  let ?sub = "\<lambda>s. subscript [] (ackHistory s) ?i"
  let ?out = "Unlock AckHistoryMutex k"
  have out: "receives me (answering me) ?out" using k by simp
  have store: "receives me (answering me) (Step acc (\<lambda>s. s\<lparr>ackHistory := map_store ?i pm (ackHistory s)\<rparr>) (\<lambda>s.
      if int (length pm) = num_hosts s then finalize_prog e am pm ?out else ?out))" for acc pm
  proof (rule receives_ack_write [where Q = "\<lambda>t s. if int (length pm) = num_hosts t then deciding me ?i s else answering me s"],
      goal_cases)
    case (2 s)
    then have "complete_ids s \<subseteq> decided_ids me s" "map_ok (ackHistory s)"
      by (simp_all add: sane_def answering_def)
    with complete_store [of s ?i pm] have "complete_ids (s\<lparr>ackHistory := map_store ?i pm (ackHistory s)\<rparr>) \<subseteq>
        (if int (length pm) = num_hosts s then insert ?i (decided_ids me s) else decided_ids me s)"
      by (simp split: if_splits) blast+
    with 2(2) show ?case by (simp add: deciding_def answering_def split: if_split_asm)
  next
    case (3 s)
    then show ?case using receives_finalize [OF out am] out by simp
  qed (auto simp: sane_def)
  show ?thesis
    unfolding handle_ackmsg_prog_def Let_def holds_simps
  proof (rule receives_ack_write [where f = "\<lambda>m. fst (subscript [] m ?i)" and
        Q = "\<lambda>t s. if int (length (snd (?sub t))) = num_hosts t then decided me ?i s else answering me s"], goal_cases)
    case (1 s)
    then show ?case by (auto simp: sane_def subscript_def split: option.split)
  next
    case (2 s)
    then have "complete_ids (s\<lparr>ackHistory := fst (?sub s)\<rparr>) = complete_ids s"
      using complete_insert [of s "[]" ?i]
      by (auto simp: sane_def subscript_def answering_def receiving_def split: option.split)
    moreover have "?i \<in> complete_ids s" if "int (length (snd (?sub s))) = num_hosts s"
      using that 2(2)
      by (auto simp: complete_ids_def subscript_def answering_def receiving_def split: option.splits)
    ultimately show ?case using 2(2) by (auto simp: decided_def answering_def)
  next
    case (3 s)
    have d: "receives me (decided me ?i) p" if "receives me (answering me) p" for p
      by (rule holds_weaken [OF that]) (simp add: decided_def)
    note s = keeps_incr [OF _ store]
    show ?case using receives_resend [OF out am] out s d by simp
  qed
qed

lemma receives_seqmsg [keeps_intros]:
  assumes "receives me (answering me) k" "sm_type sm = SEQMSG_TYPE"
  shows "receives me (answering me) (handle_seqmsg_prog e sm k)"
proof -
  have filing: "receives me (answering me) (update acc (\<lambda>s. s\<lparr>seqMessageHistory := seqMessageHistory s @ [sm]\<rparr>) p)"
    if "receives me (answering me) p" for acc p
    by (rule receives_file) (use assms(2) that in \<open>auto simp: answering_def decided_add\<close>)
  show ?thesis
    unfolding handle_seqmsg_prog_def Let_def
    by (auto intro!: filing keeps_intros reading_step assms(1))
qed

section \<open>The receiver loop\<close>

lemma receives_dispatch [keeps_intros]:
  assumes k: "receives me (answering me) k"
  shows "receives me (loaded me) (dispatch_prog e k)"
  unfolding dispatch_prog_def Let_def
proof (rule holds_step [where Q = "\<lambda>t s. answering me s \<and> foreign_buffer me (msg_buf t)"], goal_cases)
  case (3 t)
  show ?case
  proof (rule holds_if)
    assume "foreign_buffer me (msg_buf t)"
    then consider (data) "get32 (msg_buf t) 0 = DATAMSG_TYPE" "dm_sender (deserialize_data_message (msg_buf t)) \<noteq> me"
      | (ack) "get32 (msg_buf t) 0 = ACKMSG_TYPE" "am_sender (deserialize_ack_message (msg_buf t)) = me"
      | (seq) "get32 (msg_buf t) 0 = SEQMSG_TYPE"
      by (auto simp: foreign_buffer_def typed_def)
    then show "receives me (answering me)
        (if unpacku32 (msg_buf t) 0 = ucast DATAMSG_TYPE then handle_datamsg_prog e (deserialize_data_message (msg_buf t)) k
         else if unpacku32 (msg_buf t) 0 = ucast ACKMSG_TYPE then handle_ackmsg_prog e (deserialize_ack_message (msg_buf t)) k
         else if unpacku32 (msg_buf t) 0 = ucast SEQMSG_TYPE then handle_seqmsg_prog e (deserialize_seq_message (msg_buf t)) k
         else Die (WrongType (unpacku32 (msg_buf t) 0)))"
    proof cases
      case data
      then show ?thesis using k by (simp add: unpacku32_bound receives_datamsg)
    next
      case ack
      then show ?thesis
        using k by (simp add: unpacku32_bound receives_ackmsg DATAMSG_TYPE_def ACKMSG_TYPE_def)
    next
      case seq
      then have "sm_type (deserialize_seq_message (msg_buf t)) = SEQMSG_TYPE"
        by (simp add: deserialize_seq_message_def)
      with seq show ?thesis
        using k receives_seqmsg by (simp add: unpacku32_bound DATAMSG_TYPE_def ACKMSG_TYPE_def SEQMSG_TYPE_def)
    qed
  qed
qed (simp_all add: loaded_def)

lemma receives_inbound [keeps_intros]:
  "receives me (loaded me) k \<Longrightarrow> receives me (loaded me) (record_inbound_prog k)"
  by (auto simp: record_inbound_prog_def still_simps loaded_def foreign_buffer_def
      intro!: reading_step quiet_step)

lemma recv_into_foreign:
  assumes "recv_into buf (p_payload p) = Some buf'" "foreign_packet me (Some p)"
  shows "foreign_buffer me buf'"
proof -
  have "buf' = p_payload p @ drop MAX_STRUCT_SIZE buf" "length (p_payload p) = 20"
    using assms by (auto simp: recv_into_def foreign_packet_def MAX_MSG_SIZE_def MAX_STRUCT_SIZE_def split: if_splits)
  then have "get32 buf' n = get32 (p_payload p) n" if "n < 17" for n
    using that by (simp add: get32_def unpacku32_def nth_append)
  then show ?thesis
    using assms(2)
    by (simp add: foreign_buffer_def foreign_packet_def typed_def deserialize_data_message_def
        deserialize_ack_message_def)
qed

lemma receives_received [keeps_intros]:
  assumes k: "receives me (answering me) k" and r: "foreign_packet me r"
  shows "receives me (answering me) (received_prog e r k)"
proof (cases r)
  case (Some p)
  have cap: "receives me (answering me) (update acc (\<lambda>s. s\<lparr>recv_cap := recv_cap s + 1\<rparr>) k)" for acc
    by (rule quiet_step) (simp_all add: still_simps k)
  show ?thesis
    unfolding received_prog_def Some option.case
  proof (rule holds_step [where Q = "\<lambda>t s. recv_into (msg_buf t) (p_payload p) \<noteq> None \<longrightarrow> loaded me s"], goal_cases)
    case (2 t)
    let ?u = "\<lambda>buf. t\<lparr>msg_buf := buf, their_addr := p_src p\<rparr>"
    have u: "held_ids (?u buf) = held_ids t" "acked_ids (?u buf) = acked_ids t" "own_id (?u buf) = own_id t"
      "tidy (?u buf) = tidy t" "complete_ids (?u buf) = complete_ids t" "known_ids (?u buf) = known_ids t"
      "decided_ids me (?u buf) = decided_ids me t" "own_held (?u buf) = own_held t"
      "foreign_held (?u buf) = foreign_held t" for buf
      by (simp_all add: held_ids_def acked_ids_def own_id_def tidy_def queue_ok_def complete_ids_def known_ids_def
          decided_ids_def own_held_def foreign_held_def)
    have "grants ReceiverThread t (?u buf) \<and> loaded me (?u buf)"
      if "recv_into (msg_buf t) (p_payload p) = Some buf" for buf
    proof -
      have "length buf = MAX_STRUCT_SIZE" "foreign_buffer me buf"
        using that 2(2) recv_into_foreign [OF that] r Some
        by (auto simp: recv_into_def foreign_packet_def answering_def receiving_def MAX_STRUCT_SIZE_def
            MAX_MSG_SIZE_def split: if_splits)
      with 2 u show ?thesis
        by (auto intro!: receiver_grants simp: sane_counts loaded_def answering_def receiving_def)
    qed
    then show ?case by (simp split: option.split)
  next
    case (3 t)
    have "length (p_payload p) = MAX_STRUCT_SIZE" "length (msg_buf t) = MAX_STRUCT_SIZE"
      using 3 r Some by (simp_all add: foreign_packet_def answering_def receiving_def)
    then obtain buf where "recv_into (msg_buf t) (p_payload p) = Some buf"
      by (simp add: recv_into_def MAX_STRUCT_SIZE_def Let_def)
    then show ?case by (simp add: keeps_intros cap)
  qed simp
qed (simp add: received_prog_def)

lemma receives_msg_receiver: "receives me (answering me) (msg_receiver_prog e cap)"
proof (induction e cap rule: msg_receiver_prog.induct)
  case (1 e cap)
  then show ?case by (subst msg_receiver_prog.simps) (auto intro!: keeps_intros)
qed

section \<open>The interface\<close>

text \<open>A process that has neither sent nor received a message.\<close>

definition fresh :: "rm \<Rightarrow> bool" where
  "fresh s \<longleftrightarrow> deliveryQueue s = [] \<and> deliveredMessage s = [] \<and> alreadyAckedMessages s = [] \<and>
     seqMessageHistory s = [] \<and> ackHistory s = [] \<and> inboundMessageBuffer (snapshot s) = [] \<and>
     outboundMessageBuffer (snapshot s) = [] \<and> length (msg_buf s) = MAX_STRUCT_SIZE \<and>
     1 < num_hosts s \<and> curr_msg_id s \<in> int_range"

interpretation granted: rely_guarantee mutex_rank may several unguarded_pair
    "\<lambda>c. c = process_threads e p s \<and> fresh s" relies grants "foreign_packet (own_id s)" outside sane
  for e p s
proof unfold_locales
  fix c assume c: "c = process_threads e p s \<and> fresh s"
  show "\<exists>s ts. c = Running s ts \<and> one_each several ts \<and>
      list_all (\<lambda>(r, L, p). L = [] \<and> ok p r []) ts"
    by (rule process.start_ok) (use c in simp)
next
  fix r r' L L' and a b :: "var access"
  assume "may r L a" "may r' L' b" "conflict a b" "set L \<inter> set L' = {}" "r = r' \<longrightarrow> several r"
  then show "unguarded_pair r r' (var_of a)" by (rule process.policy)
next
  fix t ts assume "Running t ts = process_threads e p s \<and> fresh s"
  then have t: "t = s" "ts = [(MainThread, [], main_prog e p 0), (ReceiverThread, [], msg_receiver_prog e 1),
      (ListenerThread, [], listener_prog e)]" "fresh s"
    by (simp_all add: process_threads_def)
  have "sane s" "numbered (own_id s) s" "answering (own_id s) s"
    using t(3) by (simp_all add: fresh_def sane_def tidy_def queue_ok_def dq.inv_Nil acked_ids_def held_ids_def
        numbered_def answering_def receiving_def own_held_def foreign_held_def complete_ids_def)
  then show "sane t \<and> list_all (\<lambda>(r, L, p). rg relies grants (foreign_packet (own_id s)) outside sane p r t) ts"
    using keeps_main receives_msg_receiver listens_listener by (simp add: t holds_def)
qed (auto simp: grants_def intro: relies_trans)

end
