(* ===== verification/Concurrency.thy ===== *)
theory Concurrency
  imports ThreadInvariants Runs
begin

text \<open>
  A process with all its threads, interleaved at every access to a shared member: what holds whatever the
  schedule and whatever the network brings, and what goes wrong where a member has no mutex.
\<close>

section \<open>A process to be evaluated\<close>

text \<open>
  Host 1 multicasts one message and then takes a snapshot; host 2 sends it messages. Thread 0 is the main
  thread, thread 1 the receiver, thread 2 the listener; watchdogs come behind them.
\<close>

definition one_snapshot :: params where
  "one_snapshot = default_params\<lparr>num_msg_tosend := 1, snapshotafter := 1\<rparr>"

definition demo_threads :: "(mutex, var, role, rm, exit_reason, packet option, accepted) conf" where
  "demo_threads = process_threads demo_env one_snapshot (initial_process demo_config 0)"

text \<open>Data message \<open>k\<close> of host 2, and \<open>n\<close> moves of a thread without input.\<close>

definition bytes2 :: "u8 \<Rightarrow> u8 list" where
  "bytes2 k = [0, 0, 0, 1,  0, 0, 0, 2,  0, 0, 0, k,  0, 0, 0, 9,  0, 0, 0, 0]"

definition data2 :: "u8 \<Rightarrow> (packet option, accepted) input" where
  "data2 k = Datagram (Some \<lparr>p_src = ''container2'', p_dst = ''container1'', p_payload = bytes2 k\<rparr>)"

definition burst :: "nat \<Rightarrow> nat \<Rightarrow> (nat \<times> (packet option, accepted) input) list" where
  "burst i n = replicate n (i, NoInput)"

abbreviation demo_reach :: "(mutex, var, role, rm, exit_reason, packet option, accepted) conf \<Rightarrow> bool" where
  "demo_reach \<equiv> reach (\<lambda>d. d = process_threads demo_env one_snapshot (initial_process demo_config 0)) moves"

lemma demo_schedule:
  assumes "map_option f (schedule sched demo_threads) = Some x"
  obtains c where "demo_reach c" "f c = x"
proof -
  obtain c where c: "schedule sched demo_threads = Some c" "f c = x" using assms by auto
  have "demo_reach demo_threads" by (rule reach_start) (simp add: demo_threads_def)
  from schedule_reaches [OF this c(1)] c(2) show thesis by (rule that)
qed

text \<open>
  Evaluation by the simplifier that does not look inside a program before it is its turn: the congruence
  rules stop at the constructors, the defining equations unfold only the heads.
\<close>

lemma stop_congs:
  "Step acc u k = Step acc u k" "Lock m p = Lock m p" "Unlock m p = Unlock m p" "Spawn r q p = Spawn r q p"
  "Recv f = Recv f" "Accept g = Accept g"
  by (rule refl)+

lemma burst_simps:
  "burst i 0 = []" "burst i (Suc n) = (i, NoInput) # burst i n"
  "burst i (numeral k) = (i, NoInput) # burst i (pred_numeral k)"
  by (simp_all add: burst_def numeral_eq_Suc)

lemma demo_initial: "initial_process demo_config 0 =
  \<lparr>hostIDtoHostName = [(1, ''container1''), (2, ''container2'')], num_hosts = 2,
   current_container_name = ''container1'', current_container_id = 1, curr_msg_id = 0,
   curr_seq_number = 1, hostNames = [''container1'', ''container2''], their_addr = [],
   deliveryQueue = [], deliveredMessage = [], alreadyAckedMessages = [], seqMessageHistory = [],
   ackHistory = [], dataHistory = [], recv_cap = 1, drop_rate = 0,
   snapshot = \<lparr>locsnap = \<lparr>ls_deliveryQueue = [], ls_deliveredMessage = []\<rparr>, snap_num_hosts = 2,
     snap_hostNames = [''container1'', ''container2''], curr_container_id = 1,
     curr_container_name = ''container1'', amInitiator = False, alreadyReceivedProc = [],
     inboundMessageBuffer = [], outboundMessageBuffer = [], inboundChannelState = [],
     outboundChannelState = []\<rparr>,
   recordMessages = False, msg_buf = replicate 20 0, listener_pc = AwaitFirst,
   marker_buf = [CHR 0x00, CHR 0x00, CHR 0x00], outbox = [], marker_outbox = [], watchdogs = [], ticks = 0\<rparr>"
  by code_simp

lemma bytes2_simps:
  "length (bytes2 k) = 20" "length buf = 20 \<Longrightarrow> recv_into buf (bytes2 k) = Some (bytes2 k)"
  by (simp_all add: recv_into_def bytes2_def MAX_MSG_SIZE_def)

lemma message2_simps:
  "unpacku32 (bytes2 0) 0 = 1" "unpacku32 (bytes2 1) 0 = 1" "unpacku32 (bytes2 2) 0 = 1"
  "deserialize_data_message (bytes2 0) = \<lparr>dm_type = 1, dm_sender = 2, dm_msg_id = 0, dm_data = 9\<rparr>"
  "deserialize_data_message (bytes2 1) = \<lparr>dm_type = 1, dm_sender = 2, dm_msg_id = 1, dm_data = 9\<rparr>"
  "deserialize_data_message (bytes2 2) = \<lparr>dm_type = 1, dm_sender = 2, dm_msg_id = 2, dm_data = 9\<rparr>"
  by code_simp+

lemma demo_env_simps:
  "rand_draw demo_env k = 1" "sendto_rv demo_env k = 20" "uninit_packet demo_env s = replicate 20 0"
  by (simp_all add: demo_env_def uninit_packet_def map_replicate_const MAX_STRUCT_SIZE_def)

lemmas program_simps = process_threads_def main_prog.simps multicast_datamsg_prog_def incr_seq_prog_def
  multicast_sends.simps send_prog_def reply_prog_def transmit_prog_def start_watchdog_def msg_receiver_prog.simps
  received_prog_def record_inbound_prog_def dispatch_prog_def handle_datamsg_prog_def initiate_snapshot_prog_def
  local_snapshot_prog_def start_recording_prog_def listener_prog_def first_marker_prog_def accept_prog_def mark_prog_def

lemmas run_simps = program_simps burst_simps demo_threads_def demo_initial data2_def bytes2_simps message2_simps
  demo_env_simps is_free_def held_by_def rest_of_def Let_def one_snapshot_def default_params_def fits_int_def
  INT_MAX_def incr_int_def RECV_CAP_def DATAMSG_TYPE_def RAND_MAX_def random_uniform_from_0_to_1_def
  push_queue_def make_ack_msg_def to_u32_def mark_received_def

fun mutexes_held :: "(mutex, var, role, rm, exit_reason, packet option, accepted) conf \<Rightarrow> mutex list list" where
  "mutexes_held (Running s ts) = map held_by ts"
| "mutexes_held (Exited err s) = []"

section \<open>Mutexes\<close>

text \<open>
  C15. However the threads of a process interleave: no mutex has two holders, no thread unlocks a mutex it
  does not hold, and whenever a mutex is held, one of the threads that hold mutexes can go on at once,
  without waiting for another mutex or for the network. So the threads never deadlock.
\<close>

theorem threads_never_deadlock:
  assumes "reach (\<lambda>d. d = process_threads e p s0) moves (Running s ts)"
  shows "exclusive_holders ts \<and>
    (\<forall>(r, L, q) \<in> set ts. \<forall>m q'. q = Unlock m q' \<longrightarrow> m \<in> set L) \<and>
    (\<forall>i < length ts. held_by (ts ! i) \<noteq> [] \<longrightarrow>
      (\<exists>j < length ts. held_by (ts ! j) \<noteq> [] \<and> act NoInput j (Running s ts) \<noteq> None))"
proof (intro conjI)
  note w = process.reach_well [OF assms]
  show "exclusive_holders ts" using w by simp
  show "\<forall>(r, L, q) \<in> set ts. \<forall>m q'. q = Unlock m q' \<longrightarrow> m \<in> set L" using w by fastforce
qed (use process.holder_goes_on [OF assms] in blast)

text \<open>The receiver holds the mutex of the queue for which the main thread waits.\<close>

lemma threads_never_deadlock_witness:
  "\<exists>s ts. demo_reach (Running s ts) \<and> map held_by ts = [[], [DeliveryQueueMutex], []] \<and>
     act NoInput 0 (Running s ts) = None \<and> act NoInput 1 (Running s ts) \<noteq> None"
proof -
  let ?view = "\<lambda>c. (mutexes_held c, act NoInput 0 c = None)"
  have "map_option ?view (schedule ((1, data2 0) # burst 1 8 @ burst 0 11) demo_threads) =
      Some ([[], [DeliveryQueueMutex], []], True)"
    by (simp add: run_simps cong: stop_congs)
  then obtain c where c: "demo_reach c" "?view c = ([[], [DeliveryQueueMutex], []], True)"
    by (rule demo_schedule)
  then obtain s ts where ts: "c = Running s ts" "map held_by ts = [[], [DeliveryQueueMutex], []]"
    by (cases c) auto
  then have l: "length ts = 3" by (metis length_map list.size(3,4) numeral_3_eq_3 One_nat_def add.commute plus_1_eq_Suc)
  then have h: "held_by (ts ! 0) = []" "held_by (ts ! 1) = [DeliveryQueueMutex]" "held_by (ts ! 2) = []"
    using ts(2) by (auto simp flip: nth_map [of _ ts held_by])
  have r: "demo_reach (Running s ts)" "act NoInput 0 (Running s ts) = None"
    using c by (simp_all add: ts(1) del: act.simps)
  from threads_never_deadlock [OF r(1)] obtain j where j: "j < length ts" "held_by (ts ! j) \<noteq> []"
    "act NoInput j (Running s ts) \<noteq> None"
    using l h(2) by (metis list.distinct(1) one_less_numeral_iff semiring_norm(77))
  have "j \<in> {0, 1, 2}" using j(1) l by auto
  then have "j = 1" using j(2) h by auto
  with r ts(2) j(3) show ?thesis
    by (intro exI [of _ s] exI [of _ ts] conjI) (simp_all del: act.simps)
qed

section \<open>The members without a mutex\<close>

text \<open>Two threads whose next steps access the same member, one of them to write it.\<close>

definition racing :: "var \<Rightarrow> nat \<Rightarrow> nat \<Rightarrow>
    (mutex, var, role, rm, exit_reason, packet option, accepted) conf \<Rightarrow> bool" where
  "racing v i j c \<longleftrightarrow> i \<noteq> j \<and>
     (case c of
        Exited err s \<Rightarrow> False
      | Running s ts \<Rightarrow> i < length ts \<and> j < length ts \<and>
          (case rest_of (ts ! i) of
             Step acc u k \<Rightarrow>
               (case rest_of (ts ! j) of
                  Step acc' u' k' \<Rightarrow> list_ex (\<lambda>a. var_of a = v \<and> list_ex (conflict a) acc') acc
                | _ \<Rightarrow> False)
           | _ \<Rightarrow> False))"

lemma racingE:
  assumes "racing v i j (Running s ts)"
  obtains r L acc u k r' L' acc' u' k' a b where "i \<noteq> j" "i < length ts" "j < length ts"
    "ts ! i = (r, L, Step acc u k)" "ts ! j = (r', L', Step acc' u' k')"
    "a \<in> set acc" "b \<in> set acc'" "conflict a b" "var_of a = v"
proof -
  obtain r L q r' L' q' where t: "ts ! i = (r, L, q)" "ts ! j = (r', L', q')" by (metis prod_cases3)
  obtain acc u k acc' u' k' where q: "q = Step acc u k" "q' = Step acc' u' k'"
    "list_ex (\<lambda>a. var_of a = v \<and> list_ex (conflict a) acc') acc"
    using assms by (auto simp: racing_def rest_of_def t split: prog.splits)
  then obtain a b where "a \<in> set acc" "b \<in> set acc'" "conflict a b" "var_of a = v"
    by (auto simp: list_ex_iff)
  with assms t q show thesis by (intro that) (auto simp: racing_def)
qed

text \<open>
  C16. No data race but three: two threads can be about to access the same member, one of them writing,
  only if it is \<open>curr_seq_number\<close>, and they are the main thread and the receiver, or \<open>locsnap\<close> or
  \<open>amInitiator\<close>, and they are the main thread and the listener. A step reads and writes no member but
  those it is charged with here.
\<close>

theorem races_on_three_members:
  assumes "reach (\<lambda>d. d = process_threads e p s0) moves (Running s ts)"
  shows "(\<forall>v i j. racing v i j (Running s ts) \<longrightarrow> unguarded_pair (fst (ts ! i)) (fst (ts ! j)) v) \<and>
    (\<forall>(r, L, q) \<in> set ts. \<forall>acc u k. q = Step acc u k \<longrightarrow> honest acc u k)"
proof (intro conjI allI impI)
  fix v i j assume "racing v i j (Running s ts)"
  then show "unguarded_pair (fst (ts ! i)) (fst (ts ! j)) v"
  proof (rule racingE)
    fix r L acc u k r' L' acc' u' k' and a b :: "var access"
    assume a: "i \<noteq> j" "i < length ts" "j < length ts" "ts ! i = (r, L, Step acc u k)"
      "ts ! j = (r', L', Step acc' u' k')" "a \<in> set acc" "b \<in> set acc'" "conflict a b" "var_of a = v"
    have "unguarded_pair r r' (var_of a)" by (rule process.only_racy [OF assms a(2,3,1,4,5,6,7,8)])
    with a(4,5,9) show ?thesis by simp
  qed
next
  have "all_steps sound_step (Running s ts)"
    using shared_invariant [OF assms, of "\<lambda>_. True"] process_sound by blast
  then have "every_step sound_step q" if "(r, L, q) \<in> set ts" for r L q
    using that by (fastforce simp: rest_of_def)
  then have "honest acc u k" if "(r, L, Step acc u k) \<in> set ts" for r L acc u k
    using that by (fastforce simp: sound_step_def every_step.simps(4))
  then show "\<forall>(r, L, q) \<in> set ts. \<forall>acc u k. q = Step acc u k \<longrightarrow> honest acc u k" by blast
qed

text \<open>All three races are there, in states that the demonstration reaches.\<close>

definition the_pair :: "nat \<Rightarrow> nat \<Rightarrow>
    (mutex, var, role, rm, exit_reason, packet option, accepted) conf \<Rightarrow> role \<times> role" where
  "the_pair i j c = (case c of Running s ts \<Rightarrow> (fst (ts ! i), fst (ts ! j)))"

definition race_schedule :: "var \<Rightarrow> (nat \<times> (packet option, accepted) input) list" where
  "race_schedule v =
     (if v = V_curr_seq_number then burst 0 5 @ (1, data2 0) # burst 1 6
      else if v = V_locsnap then burst 0 30 @ burst 2 1 @ (2, Connection (Bytes ''2'')) # burst 2 9
      else burst 0 31 @ burst 2 1 @ (2, Connection (Bytes ''2'')) # burst 2 1)"

lemma races_evaluated:
  "map_option (\<lambda>c. racing V_curr_seq_number 0 1 c) (schedule (race_schedule V_curr_seq_number) demo_threads) = Some True"
  "map_option (\<lambda>c. racing V_locsnap 0 2 c) (schedule (race_schedule V_locsnap) demo_threads) = Some True"
  "map_option (\<lambda>c. racing V_amInitiator 0 2 c) (schedule (race_schedule V_amInitiator) demo_threads) = Some True"
  by (simp_all add: run_simps race_schedule_def racing_def cong: stop_congs)

theorem races_on_three_members_witness:
  "\<exists>s ts t us u vs. demo_reach (Running s ts) \<and> demo_reach (Running t us) \<and> demo_reach (Running u vs) \<and>
     racing V_curr_seq_number 0 1 (Running s ts) \<and> unguarded_pair (fst (ts ! 0)) (fst (ts ! 1)) V_curr_seq_number \<and>
     racing V_locsnap 0 2 (Running t us) \<and> unguarded_pair (fst (us ! 0)) (fst (us ! 2)) V_locsnap \<and>
     racing V_amInitiator 0 2 (Running u vs) \<and> unguarded_pair (fst (vs ! 0)) (fst (vs ! 2)) V_amInitiator"
proof -
  have "\<exists>s ts. demo_reach (Running s ts) \<and> racing v i j (Running s ts) \<and> unguarded_pair (fst (ts ! i)) (fst (ts ! j)) v"
    if ev: "map_option (\<lambda>c. racing v i j c) (schedule (race_schedule v) demo_threads) = Some True" for v i j
  proof -
    obtain c where c: "demo_reach c" "racing v i j c = True" by (rule demo_schedule [OF ev])
    then obtain s ts where ts: "c = Running s ts" by (cases c) (auto simp: racing_def)
    have r: "demo_reach (Running s ts)" using c(1) by (simp only: ts)
    from races_on_three_members [OF r] r c(2) show ?thesis
      by (intro exI [of _ s] exI [of _ ts]) (simp add: ts)
  qed
  from this [OF races_evaluated(1)] this [OF races_evaluated(2)] this [OF races_evaluated(3)]
  show ?thesis by blast
qed

text \<open>
  C3. What the race on \<open>curr_seq_number\<close> does to the protocol. The main thread loads the counter for its
  increment, the receiver answers two messages, the main thread stores its stale value: the counter goes
  back, and the receiver proposes for a third message the number it has proposed for the second. Nothing is
  lost or reordered in this run.
\<close>

definition proposals :: "(mutex, var, role, rm, exit_reason, packet option, accepted) conf \<Rightarrow> int \<times> (u32 \<times> u32 \<times> u32) list" where
  "proposals c = (curr_seq_number (shared c),
     map (\<lambda>am. (am_msg_id am, am_proposed_seq am, am_proposer am)) (alreadyAckedMessages (shared c)))"

definition whole_message :: "u8 \<Rightarrow> (nat \<times> (packet option, accepted) input) list" where
  "whole_message k = (1, data2 k) # burst 1 24"

definition stale_store :: "(nat \<times> (packet option, accepted) input) list" where
  "stale_store = burst 0 5 @ whole_message 0 @ whole_message 1"

theorem counter_goes_back:
  "\<exists>c c'. demo_reach c \<and> act NoInput 0 c = Some c' \<and>
     proposals c = (3, [(0, 1, 1), (1, 2, 1)]) \<and> proposals c' = (2, [(0, 1, 1), (1, 2, 1)]) \<and>
     map_option proposals (schedule (whole_message 2) c') = Some (3, [(0, 1, 1), (1, 2, 1), (2, 2, 1)])"
proof -
  let ?view = "\<lambda>c. (proposals c, map_option (\<lambda>c'. (proposals c',
      map_option proposals (schedule (whole_message 2) c'))) (act NoInput 0 c))"
  have "map_option ?view (schedule stale_store demo_threads) =
      Some ((3, [(0, 1, 1), (1, 2, 1)]), Some ((2, [(0, 1, 1), (1, 2, 1)]),
        Some (3, [(0, 1, 1), (1, 2, 1), (2, 2, 1)])))"
    by (simp add: run_simps stale_store_def whole_message_def proposals_def cong: stop_congs)
  then show ?thesis by (rule demo_schedule) auto
qed

section \<open>Every run comes to rest\<close>







section \<open>Queue and records\<close>

text \<open>
  C17. In every interleaving of all threads the delivery queue is a heap and every delivered message was
  deliverable; and from any moment to a later one the deliveries, the acknowledgements, the final numbers
  and the datagrams sent only get longer, and no message is lost from queue and deliveries together.
\<close>

theorem queue_kept_by_threads:
  assumes "reach (\<lambda>d. d = process_threads e p s0) moves c" "reach (\<lambda>d. d = c) moves c'" "queue_ok s0"
  shows "queue_ok (shared c') \<and> extends (shared c) (shared c')"
proof -
  have sound: "queue_ok t \<Longrightarrow> queue_ok (u t) \<and> extends t (u t)" if "sound_step acc u k" for acc u k t
    using that by (simp add: sound_step_def)
  have "queue_ok (shared c) \<and> all_steps sound_step c"
    using assms(3) process_sound sound
    by (intro shared_invariant [OF assms(1)]) (auto simp: process_threads_def)
  then have "(queue_ok (shared c') \<and> extends (shared c) (shared c')) \<and> all_steps sound_step c'"
    using sound thread_extends_trans
    by (intro shared_invariant [OF assms(2), where I = "\<lambda>t. queue_ok t \<and> extends (shared c) t"]) (simp, blast)
  then show ?thesis by blast
qed

theorem queue_kept_by_threads_witness:
  "\<exists>c c'. demo_reach c \<and> proposals c = (2, [(0, 1, 1)]) \<and> proposals c' = (3, [(0, 1, 1), (1, 2, 1)]) \<and>
     queue_ok (shared c') \<and> extends (shared c) (shared c')"
proof -
  let ?view = "\<lambda>c. (proposals c, map_option proposals (schedule (whole_message 1) c))"
  have "map_option ?view (schedule (burst 0 5 @ whole_message 0) demo_threads) =
      Some ((2, [(0, 1, 1)]), Some (3, [(0, 1, 1), (1, 2, 1)]))"
    by (simp add: run_simps whole_message_def proposals_def cong: stop_congs)
  then obtain c where c: "demo_reach c" "?view c = ((2, [(0, 1, 1)]), Some (3, [(0, 1, 1), (1, 2, 1)]))"
    by (rule demo_schedule)
  then obtain c' where c': "schedule (whole_message 1) c = Some c'" "proposals c' = (3, [(0, 1, 1), (1, 2, 1)])"
    by auto
  have r: "reach (\<lambda>d. d = c) moves c'" by (rule schedule_reaches [OF reach_start c'(1)]) simp
  have "queue_ok (initial_process demo_config 0)" by (simp add: queue_ok_def is_heap_def heap_from_def)
  from queue_kept_by_threads [OF c(1) r this] c(2) c'(2) c(1) show ?thesis
    by (intro exI [of _ c] exI [of _ c']) simp
qed

section \<open>Messages and records\<close>


text \<open>The runs of the example process meet the assumptions.\<close>

lemma demo_fresh: "fresh (initial_process demo_config 0)" "own_id (initial_process demo_config 0) = 1"
  by (simp_all add: fresh_def own_id_def demo_initial MAX_STRUCT_SIZE_def int_range_def to_u32_def)

lemma demo_inputs: "ok_input (foreign_packet 1) (data2 0)" "list_all (\<lambda>(i, x). ok_input fine_input x) (burst i n)"
  by (code_simp, induction n, simp_all add: burst_def)

lemma demo_schedule_ok:
  assumes "map_option f (schedule sched demo_threads) = Some x"
    "list_all (\<lambda>(i, x). ok_input (foreign_packet (own_id (initial_process demo_config 0))) x) sched"
  obtains c where "reach (\<lambda>d. d = process_threads demo_env one_snapshot (initial_process demo_config 0))
    (moves_ok (foreign_packet (own_id (initial_process demo_config 0)))) c" "f c = x"
proof -
  let ?reach = "reach (\<lambda>d. d = process_threads demo_env one_snapshot (initial_process demo_config 0))
    (moves_ok (foreign_packet (own_id (initial_process demo_config 0))))"
  obtain c where c: "schedule sched demo_threads = Some c" "f c = x" using assms(1) by auto
  have "?reach demo_threads" by (rule reach_start) (simp add: demo_threads_def)
  from schedule_reaches_ok [OF this c(1) assms(2)] c(2) show thesis by (rule that)
qed

text \<open>
  C18. In every interleaving of all threads of a fresh process, over a network that brings whole packets of the
  three types, no data message of this process and only acknowledgements of its messages: no message is held
  twice, queue and deliveries together, and every message that was acknowledged is held.
\<close>

theorem threads_hold_each_message_once:
  assumes "reach (\<lambda>d. d = process_threads e p s0) (moves_ok (foreign_packet (own_id s0))) c" "fresh s0"
  shows "let s = shared c; held = deliveryQueue s @ deliveredMessage s in
    distinct (map uid held) \<and> (\<forall>am \<in> set (alreadyAckedMessages s). (am_sender am, am_msg_id am) \<in> uid ` set held)"
proof -
  have "sane (shared c)" using granted.reach_keep [of e p s0 c] assms by simp
  then show ?thesis by (auto simp: sane_def acked_ids_def held_ids_def Let_def)
qed

theorem threads_hold_each_message_once_witness:
  "\<exists>c. map uid (deliveryQueue (shared c) @ deliveredMessage (shared c)) = [(1, 0), (2, 0)] \<and>
     proposals c = (3, [(0, 2, 1)]) \<and>
     distinct (map uid (deliveryQueue (shared c) @ deliveredMessage (shared c)))"
proof -
  let ?q = "push_heap cmp (push_heap cmp [\<lparr>qm_sequence_number = 2, qm_status = UNDELIVERABLE, qm_sender = 1,
      qm_msg_id = 0, qm_data = 0, qm_proposer = 1\<rparr>] @ [\<lparr>qm_sequence_number = 2, qm_status = UNDELIVERABLE,
      qm_sender = 2, qm_msg_id = 0, qm_data = 9, qm_proposer = 1\<rparr>])"
  let ?view = "\<lambda>c. (proposals c, deliveryQueue (shared c) @ deliveredMessage (shared c))"
  have q: "map uid ?q = [(1, 0), (2, 0)]" by code_simp
  have "map_option ?view (schedule (burst 0 15 @ whole_message 0) demo_threads) = Some ((3, [(0, 2, 1)]), ?q)"
    by (simp add: run_simps whole_message_def proposals_def make_queued_msg_def push_msg_to_deliveryqueue_def
        cong: stop_congs)
  then obtain c where c: "reach (\<lambda>d. d = process_threads demo_env one_snapshot (initial_process demo_config 0))
      (moves_ok (foreign_packet (own_id (initial_process demo_config 0)))) c" "?view c = ((3, [(0, 2, 1)]), ?q)"
    by (rule demo_schedule_ok) (simp add: demo_fresh demo_inputs whole_message_def)
  from threads_hold_each_message_once [OF c(1) demo_fresh(1)] c(2) q show ?thesis
    by (intro exI [of _ c]) (simp add: Let_def)
qed



section \<open>Undisturbed threads\<close>

lemma continue_Halt [simp]: "continue r Halt = r"
  by (cases r) simp_all



end
