(* ===== verification/Serializer.thy ===== *)
theory Serializer
  imports Wire
begin

text \<open>
  \<open>serializer.h\<close>: an earlier home of the two packers. Nothing includes it any more. Here the moving
  pointer \<open>*buf++\<close> is followed step by step, and the result compared with the packers of
  \<open>reliable_multicast.cpp\<close>.
\<close>

unbundle bit_operations_syntax

text \<open>\<open>*buf++ = b\<close>: a store through the pointer, which then points to the next byte.\<close>

fun store_next :: "u8 \<Rightarrow> u8 list \<times> nat \<Rightarrow> u8 list \<times> nat" where
  "store_next b (mem, buf) = (mem[buf := b], Suc buf)"

definition header_packi32 :: "u8 list \<Rightarrow> nat \<Rightarrow> u64 \<Rightarrow> u8 list" where
  "header_packi32 mem buf i =
     fst (store_next (ucast i) (store_next (ucast (drop_bit 8 i))
       (store_next (ucast (drop_bit 16 i)) (store_next (ucast (drop_bit 24 i)) (mem, buf)))))"

definition header_unpacku32 :: "u8 list \<Rightarrow> nat \<Rightarrow> u64" where
  "header_unpacku32 mem buf =
     push_bit 24 (ucast (mem ! buf)) OR push_bit 16 (ucast (mem ! (buf + 1))) OR
     push_bit 8 (ucast (mem ! (buf + 2))) OR ucast (mem ! (buf + 3))"

lemma header_packers_agree: "header_packi32 = packi32" "header_unpacku32 = unpacku32"
  by (simp_all add: fun_eq_iff header_packi32_def packi32_def header_unpacku32_def unpacku32_def numeral_3_eq_3)

text \<open>What the header packs it unpacks again, whatever was in the buffer, and nothing else is touched.\<close>

lemma header_roundtrip:
  assumes "buf + 4 \<le> length mem"
  shows "header_unpacku32 (header_packi32 mem buf (ucast w)) buf = ucast (w :: u32) \<and>
    take buf (header_packi32 mem buf (ucast w)) = take buf mem \<and>
    drop (buf + 4) (header_packi32 mem buf (ucast w)) = drop (buf + 4) mem"
  using assms
  by (simp add: header_packers_agree unpacku32_bound flip: put32_def) (simp add: put32_def packi32_def)

end
