(* ===== verification/Prj0.thy ===== *)
theory Prj0
  imports StartUp
begin

text \<open>
  \<open>playground/prj0.c\<close>: the C program from which \<open>waittosync.cpp\<close> was made. It keeps the addresses the
  listener has met in an array with a counter and ends with \<open>READY\<close>. The model follows its arrays and
  counters; the facts say that they never leave their bounds and that the rewritten functions do the
  same. The calls of the operating system answer as in the theory of \<open>waittosync.cpp\<close>.
\<close>

section \<open>The functions\<close>

datatype prj0_exit = ReadFailed file_error | NoLocalAddress | BindExit | SocketExit

text \<open>\<open>read_from_file\<close> fills an array of \<open>ARRAY_MAX_SIZE\<close> pointers from the front.\<close>

function prj0_read_lines :: "nat \<Rightarrow> string list \<Rightarrow> string \<Rightarrow> file_error + (nat \<times> string list)" where
  "prj0_read_lines numHosts lineArray s =
     (if s = [] then Inr (numHosts, lineArray)
      else if numHosts = ARRAY_MAX_SIZE then Inl TooManyHosts
      else case fgets (MAX_HOST_NAME - 1) s of
        (line, rest) \<Rightarrow> prj0_read_lines (numHosts + 1) (lineArray[numHosts := cut_line line]) rest)"
  by pat_completeness auto
termination
  by (relation "measure (\<lambda>(n, a, s). length s)") (auto simp: MAX_HOST_NAME_def intro: fgets_progress)

declare prj0_read_lines.simps [simp del]

fun prj0_read_from_file :: "string option \<Rightarrow> string list \<Rightarrow> file_error + (nat \<times> string list)" where
  "prj0_read_from_file None lineArray = Inl CannotOpen"
| "prj0_read_from_file (Some s) lineArray = prj0_read_lines 0 lineArray s"

text \<open>
  The listener. The search goes through the first \<open>num_encountered_ips\<close> entries of the array; a store
  behind the end of the array is \<open>None\<close>.
\<close>

function already_added :: "string list \<Rightarrow> string \<Rightarrow> nat \<Rightarrow> nat \<Rightarrow> bool" where
  "already_added encountered_ips their_ip i num_encountered_ips =
     (if i < num_encountered_ips
      then if encountered_ips ! i = their_ip then True
           else already_added encountered_ips their_ip (i + 1) num_encountered_ips
      else False)"
  by pat_completeness auto
termination
  by (relation "measure (\<lambda>(ips, ip, i, n). n - i)") auto

declare already_added.simps [simp del]

fun prj0_listener_pass :: "arrival \<Rightarrow> nat \<times> string list \<Rightarrow> (nat \<times> string list) option" where
  "prj0_listener_pass RecvfromFailed (n, ips) = Some (n, ips)"
| "prj0_listener_pass (Packet their_ip sent) (n, ips) =
     (if \<not> sent then Some (n, ips)
      else if already_added ips their_ip 0 n then Some (n, ips)
      else if n < length ips then Some (n + 1, ips[n := their_ip]) else None)"

fun prj0_listener_loop :: "int \<Rightarrow> arrival list \<Rightarrow> nat \<times> string list \<Rightarrow> (bool \<times> nat \<times> string list) option" where
  "prj0_listener_loop numHostminus1 [] st = Some (\<not> int (fst st) < numHostminus1, st)"
| "prj0_listener_loop numHostminus1 (a # arrivals) st =
     (if int (fst st) < numHostminus1
      then (case prj0_listener_pass a st of
              None \<Rightarrow> None
            | Some st' \<Rightarrow> prj0_listener_loop numHostminus1 arrivals st')
      else Some (True, st))"

text \<open>
  \<open>receive_signals_and_send_ack\<close>: the result says whether the thread has come to its end, the outer
  \<open>None\<close> is a store behind the array. \<open>junk\<close> fills the array, which is not initialised.
\<close>

definition prj0_receive_signals_and_send_ack ::
    "candidate list option \<Rightarrow> int list \<Rightarrow> int \<Rightarrow> string \<Rightarrow> arrival list \<Rightarrow> (prj0_exit + bool) option" where
  "prj0_receive_signals_and_send_ack servinfo fds numHost junk arrivals =
     (case servinfo of
        None \<Rightarrow> Some (Inr True)
      | Some ps \<Rightarrow>
          (case fst (udp_bind_loop ps fds) of
             None \<Rightarrow> Some (Inl BindExit)
           | Some sockfd \<Rightarrow>
               map_option (\<lambda>(ended, st). Inr ended)
                 (prj0_listener_loop (numHost - 1) arrivals (0, replicate (nat (numHost - 1)) junk))))"

text \<open>The sender, with its variable \<open>received_ack\<close>, and the number of times ``hi'' was sent.\<close>

fun prj0_sender_loop :: "int \<Rightarrow> attempt list \<Rightarrow> bool \<times> nat" where
  "prj0_sender_loop received_ack [] = (received_ack \<noteq> 0, 0)"
| "prj0_sender_loop received_ack (a # tries) =
     (if received_ack = 0
      then (case a of
              SendtoFailed \<Rightarrow> prj0_sender_loop received_ack tries
            | Sent poll \<Rightarrow>
                apsnd Suc (prj0_sender_loop
                  (case poll of Readable received \<Rightarrow> if received then 1 else received_ack
                   | _ \<Rightarrow> received_ack) tries))
      else (True, 0))"

definition prj0_send_signals_and_wait_for_acks :: "int \<Rightarrow> attempt list \<Rightarrow> prj0_exit + bool" where
  "prj0_send_signals_and_wait_for_acks sockfd tries =
     (if sockfd < 0 then Inl SocketExit else Inr (fst (prj0_sender_loop 0 tries)))"

text \<open>What a thread meets, and the function it runs; \<open>Inr False\<close> is a thread that has not returned.\<close>

record thread_input =
  ti_resolver :: "nat \<Rightarrow> string option"
  ti_servinfo :: "candidate list option"
  ti_fds :: "int list"
  ti_arrivals :: "arrival list"
  ti_socket :: int
  ti_tries :: "attempt list"
  ti_junk :: string

definition prj0_check_up_with_host :: "string option \<Rightarrow> int \<Rightarrow> thread_input \<Rightarrow> (prj0_exit + bool) option" where
  "prj0_check_up_with_host local_ip numHost t =
     (case local_ip of
        None \<Rightarrow> Some (Inl NoLocalAddress)
      | Some localipstr \<Rightarrow>
          (case resolve_host (ti_resolver t) 0 of
             None \<Rightarrow> Some (Inr False)
           | Some hostipstr \<Rightarrow>
               if localipstr = hostipstr
               then prj0_receive_signals_and_send_ack (ti_servinfo t) (ti_fds t) numHost (ti_junk t) (ti_arrivals t)
               else Some (prj0_send_signals_and_wait_for_acks (ti_socket t) (ti_tries t))))"

text \<open>
  \<open>main\<close>: one thread per line, all of them joined. A thread that ends the process ends it for all;
  of several the first in the order of the lines is reported.
\<close>

datatype prj0_result = Usage | Ended prj0_exit | Overrun | Ready | Waiting

fun join_threads :: "(prj0_exit + bool) option list \<Rightarrow> prj0_result" where
  "join_threads [] = Ready"
| "join_threads (None # rs) = Overrun"
| "join_threads (Some (Inl err) # rs) = Ended err"
| "join_threads (Some (Inr finished) # rs) =
     (case join_threads rs of Ready \<Rightarrow> if finished then Ready else Waiting | r \<Rightarrow> r)"

definition prj0_main ::
    "string list \<Rightarrow> string option \<Rightarrow> string list \<Rightarrow> string option \<Rightarrow> (string \<Rightarrow> thread_input) \<Rightarrow> prj0_result" where
  "prj0_main argv file lines local_ip input =
     (if length argv \<noteq> 2 then Usage
      else case prj0_read_from_file file lines of
        Inl err \<Rightarrow> Ended (ReadFailed err)
      | Inr (numHosts, lines') \<Rightarrow>
          join_threads (map (\<lambda>h. prj0_check_up_with_host local_ip (int numHosts) (input h))
            (take numHosts lines')))"

section \<open>The array of names\<close>

lemma read_lines_extends: "read_lines acc s = Inr hs \<Longrightarrow> \<exists>ys. hs = acc @ ys"
proof (induction acc s rule: read_lines.induct)
  case (1 acc s)
  show ?case
  proof (cases "s = []")
    case True
    with "1.prems" show ?thesis by (simp add: read_lines.simps)
  next
    case False
    obtain line rest where f: "(line, rest) = fgets (MAX_HOST_NAME - 1) s" by (metis surj_pair)
    from False "1.prems" f [symmetric] have full: "length acc \<noteq> ARRAY_MAX_SIZE"
      and r: "read_lines (acc @ [cut_line line]) rest = Inr hs"
      by (auto simp: read_lines.simps [of acc s] split: if_splits)
    from 1(1) [OF False full f r] show ?thesis by auto
  qed
qed

lemma prj0_read_lines_agrees:
  "length lineArray = ARRAY_MAX_SIZE \<Longrightarrow> n \<le> ARRAY_MAX_SIZE \<Longrightarrow>
   prj0_read_lines n lineArray s =
     (case read_lines (take n lineArray) s of
        Inl err \<Rightarrow> Inl err | Inr hs \<Rightarrow> Inr (length hs, hs @ drop (length hs) lineArray))"
proof (induction n lineArray s rule: prj0_read_lines.induct)
  case (1 n arr s)
  show ?case
  proof (cases "s = [] \<or> n = ARRAY_MAX_SIZE")
    case True
    with "1.prems" show ?thesis
      by (auto simp: prj0_read_lines.simps [of n] read_lines.simps [of "take n arr"])
  next
    case False
    obtain line rest where f: "(line, rest) = fgets (MAX_HOST_NAME - 1) s" by (metis surj_pair)
    from False "1.prems" have n: "n < length arr" by simp
    have drop: "drop k (arr[n := x]) = drop k arr" if "Suc n \<le> k" for k x using that by (simp add: drop_update_cancel)
    have "Suc n \<le> length hs" if "read_lines (take n arr @ [x]) rest = Inr hs" for hs x
      using read_lines_extends [OF that] n by auto
    moreover have "fgets (MAX_HOST_NAME - Suc 0) s = (line, rest)" using f by simp
    ultimately show ?thesis using False 1(1) [OF _ _ f] "1.prems" n
      by (simp add: prj0_read_lines.simps [of n] read_lines.simps [of "take n arr"]
          take_Suc_conv_app_nth drop split: sum.split)
  qed
qed

lemma prj0_read_from_file_agrees:
  assumes "length lineArray = ARRAY_MAX_SIZE"
  shows "prj0_read_from_file file lineArray =
    (case read_from_file file of
       Inl err \<Rightarrow> Inl err | Inr hs \<Rightarrow> Inr (length hs, hs @ drop (length hs) lineArray))"
  using prj0_read_lines_agrees [OF assms, of 0] by (cases "file") simp_all

section \<open>The array of addresses\<close>

lemma already_added_iff:
  "n \<le> length ips \<Longrightarrow> already_added ips ip i n \<longleftrightarrow> (\<exists>j. i \<le> j \<and> j < n \<and> ips ! j = ip)"
proof (induction ips ip i n rule: already_added.induct)
  case (1 ips ip i n)
  show ?case
    using 1 by (subst already_added.simps) (auto simp: Suc_le_eq, (metis le_eq_less_or_eq)+)
qed

lemma already_added_set: "n \<le> length ips \<Longrightarrow> already_added ips ip 0 n \<longleftrightarrow> ip \<in> set (take n ips)"
  by (auto simp: already_added_iff in_set_conv_nth)

lemma prj0_listener_pass_agrees:
  assumes "n < length ips"
  shows "\<exists>n1 ips1. prj0_listener_pass a (n, ips) = Some (n1, ips1) \<and> n1 \<le> length ips1 \<and>
    length ips1 = length ips \<and> listener_pass a (take n ips) = take n1 ips1"
proof (cases a)
  case (Packet ip sent)
  have "list_ex (\<lambda>x. x = ip) (take n ips) \<longleftrightarrow> already_added ips ip 0 n"
    using assms by (simp add: already_added_set list_ex_iff)
  with Packet assms show ?thesis
    by (cases "sent"; cases "already_added ips ip 0 n") (simp_all add: take_Suc_conv_app_nth)
qed (use assms in simp)

lemma prj0_listener_agrees:
  "n \<le> length ips \<Longrightarrow> int (length ips) = N - 1 \<Longrightarrow>
   \<exists>n' ips'. prj0_listener_loop (N - 1) arrivals (n, ips) =
      Some (fst (listener_loop N arrivals (take n ips)), n', ips') \<and>
     snd (listener_loop N arrivals (take n ips)) = take n' ips' \<and> n' \<le> length ips' \<and> length ips' = length ips"
proof (induction arrivals arbitrary: n ips)
  case Nil
  then show ?case by (auto simp: listening_def min_def)
next
  case (Cons a arrivals)
  show ?case
  proof (cases "int n < N - 1")
    case False
    with Cons.prems show ?thesis by (auto simp: listening_def min_def)
  next
    case True
    then have l: "listening N (take n ips)" and n: "n < length ips"
      using Cons.prems by (simp_all add: listening_def)
    obtain n1 ips1 where p: "prj0_listener_pass a (n, ips) = Some (n1, ips1)" "n1 \<le> length ips1"
      "length ips1 = length ips" "listener_pass a (take n ips) = take n1 ips1"
      using prj0_listener_pass_agrees [OF n, of a] by blast
    show ?thesis using Cons.IH [of n1 ips1] Cons.prems(2) p True l by simp
  qed
qed

text \<open>The array of a group of at least one host is never written behind its end.\<close>

lemma prj0_receive_eq:
  assumes "1 \<le> numHost"
  shows "prj0_receive_signals_and_send_ack servinfo fds numHost junk arrivals =
    Some (case receive_signals_and_send_ack servinfo fds numHost arrivals of
            Inl err \<Rightarrow> Inl BindExit | Inr r \<Rightarrow> Inr (fst r))"
proof -
  obtain n' ips' where l: "prj0_listener_loop (numHost - 1) arrivals (0, replicate (nat (numHost - 1)) junk) =
      Some (fst (listener_loop numHost arrivals []), n', ips')"
    using prj0_listener_agrees [of 0 "replicate (nat (numHost - 1)) junk" numHost arrivals] assms by auto
  show ?thesis
  proof (cases servinfo)
    case (Some ps)
    obtain fd fds' where "udp_bind_loop ps fds = (fd, fds')" by fastforce
    with Some l show ?thesis
      by (cases fd) (simp_all add: prj0_receive_signals_and_send_ack_def receive_signals_and_send_ack_def)
  qed (simp add: prj0_receive_signals_and_send_ack_def receive_signals_and_send_ack_def)
qed

lemma prj0_sender_agrees: "prj0_sender_loop 0 tries = send_signals_and_wait_for_acks tries"
proof (induction tries)
  case (Cons a tries)
  have one: "prj0_sender_loop 1 tries = (True, 0)" by (cases tries) simp_all
  show ?case
    using Cons one by (cases a rule: sender_pass.cases) (auto simp: Let_def split: prod.split)
qed simp

section \<open>READY\<close>

lemma join_threads_ready: "join_threads rs = Ready \<longleftrightarrow> (\<forall>r \<in> set rs. r = Some (Inr True))"
  by (induction rs rule: join_threads.induct) (auto split: prj0_result.splits)

lemma prj0_thread_done:
  assumes "1 \<le> n"
  shows "prj0_check_up_with_host (Some ip) n t = Some (Inr True) \<longleftrightarrow>
    (\<exists>hostip. resolve_host (ti_resolver t) 0 = Some hostip \<and>
       (if hostip = ip
        then (case ti_servinfo t of
                None \<Rightarrow> True
              | Some ps \<Rightarrow> fst (udp_bind_loop ps (ti_fds t)) \<noteq> None \<and> n - 1 \<le> int (card (answered (ti_arrivals t))))
        else 0 \<le> ti_socket t \<and> Sent (Readable True) \<in> set (ti_tries t)))"
proof (cases "resolve_host (ti_resolver t) 0")
  case (Some hostip)
  have l: "fst (listener_loop n arrivals []) \<longleftrightarrow> n - 1 \<le> int (card (answered arrivals))" for arrivals
    using listener_loop_ends [of "[]"] by simp
  show ?thesis
  proof (cases "hostip = ip")
    case True
    with Some assms l show ?thesis
      by (cases "ti_servinfo t")
        (auto simp: prj0_check_up_with_host_def prj0_receive_eq receive_signals_and_send_ack_def
          split: prod.splits option.splits)
  next
    case False
    with Some show ?thesis
      by (auto simp: prj0_check_up_with_host_def prj0_send_signals_and_wait_for_acks_def
          prj0_sender_agrees sender_ends_on_reply)
  qed
qed (simp add: prj0_check_up_with_host_def)

text \<open>
  C40. The program prints \<open>READY\<close> exactly when it got one argument, the file was read, and for every line
  of it the name was found and either led to another address, from which something came back, or to
  the own one, for which the listener has answered as many different addresses as there are other
  lines, or never had an address to listen on, in which case it has answered nobody.
\<close>

theorem prj0_ready_iff:
  assumes "length lines = ARRAY_MAX_SIZE"
  shows "prj0_main argv file lines (Some ip) input = Ready \<longleftrightarrow>
    length argv = 2 \<and> (\<exists>hs. read_from_file file = Inr hs \<and>
      (\<forall>h \<in> set hs. \<exists>hostip. resolve_host (ti_resolver (input h)) 0 = Some hostip \<and>
         (if hostip = ip
          then (case ti_servinfo (input h) of
                  None \<Rightarrow> True
                | Some ps \<Rightarrow> fst (udp_bind_loop ps (ti_fds (input h))) \<noteq> None \<and>
                    int (length hs) - 1 \<le> int (card (answered (ti_arrivals (input h)))))
          else 0 \<le> ti_socket (input h) \<and> Sent (Readable True) \<in> set (ti_tries (input h)))))"
proof (cases "read_from_file file")
  case (Inl err)
  then show ?thesis by (simp add: prj0_main_def prj0_read_from_file_agrees [OF assms])
next
  case (Inr hs)
  then have "prj0_main argv file lines (Some ip) input = Ready \<longleftrightarrow> length argv = 2 \<and>
      (\<forall>h \<in> set hs. prj0_check_up_with_host (Some ip) (int (length hs)) (input h) = Some (Inr True))"
    by (simp add: prj0_main_def prj0_read_from_file_agrees [OF assms] join_threads_ready)
  moreover have "1 \<le> int (length hs)" if "h \<in> set hs" for h using that by (cases hs) auto
  ultimately show ?thesis using Inr prj0_thread_done by auto
qed

text \<open>Two hosts; the other one says ``hi'' twice and answers on the third attempt.\<close>

definition prj0_input :: "string \<Rightarrow> thread_input" where
  "prj0_input h = \<lparr>ti_resolver = (\<lambda>k. Some (''10.'' @ h)),
     ti_servinfo = Some [\<lparr>c_socket = Some 4, c_setsockopt = True, c_usable = True\<rparr>], ti_fds = [],
     ti_arrivals = [RecvfromFailed, Packet ''10.b'' True, Packet ''10.b'' True], ti_socket = 5,
     ti_tries = [SendtoFailed, Sent TimedOut, Sent (Readable True)], ti_junk = []\<rparr>"

theorem prj0_ready_iff_witness:
  "prj0_main [''prj0'', ''Hostfile''] (Some (''a'' @ [LF] @ ''b'' @ [LF])) (replicate 16 []) (Some ''10.a'') prj0_input = Ready"
proof -
  have r: "read_from_file (Some (''a'' @ [LF] @ ''b'' @ [LF])) = Inr [''a'', ''b'']"
    using read_lines_all [of "[''a'', ''b'']" "[LF]" "[]"]
    by (simp add: plain_name_def MAX_HOST_NAME_def ARRAY_MAX_SIZE_def)
  have a: "answered (ti_arrivals (prj0_input h)) = {''10.b''}" for h by (auto simp: answered_def prj0_input_def)
  have f: "resolve_host (ti_resolver (prj0_input h)) 0 = Some (''10.'' @ h)" for h
    by (rule resolve_found_at) (auto simp: found_at_def prj0_input_def intro: exI [of _ 0])
  show ?thesis
    using prj0_ready_iff [of "replicate 16 []" "[''prj0'', ''Hostfile'']" "Some (''a'' @ [LF] @ ''b'' @ [LF])"
        "''10.a''" prj0_input] r a f
    by (simp add: ARRAY_MAX_SIZE_def) (simp add: prj0_input_def)
qed

end
