(* ===== verification/TestHeap.thy ===== *)
theory TestHeap
  imports DeliveryQueue CText
begin

text \<open>
  \<open>playground/testheap.cpp\<close>: the author's experiment with the heap functions before the delivery queue
  was written. It has a type and a comparison of its own, prints a queue by emptying it, and puts its
  last message into the vector without \<open>push_heap\<close>.
\<close>

section \<open>The program\<close>

record TestMessage =
  tm_sequence_number :: u32
  tm_status :: u8
  tm_sender :: u32
  tm_msg_id :: u32
  tm_data :: u32
  tm_proposer :: u32

definition makeQM :: "int \<Rightarrow> int \<Rightarrow> int \<Rightarrow> TestMessage" where
  "makeQM seq proposer data =
     \<lparr>tm_sequence_number = to_u32 seq, tm_status = 2, tm_sender = 1, tm_msg_id = 2,
      tm_data = to_u32 data, tm_proposer = to_u32 proposer\<rparr>"

definition test_cmp :: "TestMessage \<Rightarrow> TestMessage \<Rightarrow> bool" where
  "test_cmp left right =
     (if tm_sequence_number left = tm_sequence_number right
      then tm_proposer left > tm_proposer right
      else tm_sequence_number left > tm_sequence_number right)"

text \<open>One entry as \<open>std::cout\<close> prints it.\<close>

definition show_entry :: "TestMessage \<Rightarrow> string" where
  "show_entry m = int_to_string (uint (tm_sequence_number m)) @ '':'' @ int_to_string (uint (tm_proposer m)) @ '' ''"

text \<open>The loop of \<open>print_queue\<close>: the messages in the order in which they are printed.\<close>

function popped :: "TestMessage list \<Rightarrow> TestMessage list" where
  "popped q = (if q = [] then [] else hd q # popped (butlast (pop_heap test_cmp q)))"
  by pat_completeness auto
termination
  by (relation "measure length") auto

declare popped.simps [simp del]

definition print_queue :: "TestMessage list \<Rightarrow> string" where
  "print_queue q = concat (map show_entry (popped q)) @ [CHR 0x0A]"

fun push_all :: "int list \<Rightarrow> TestMessage list \<Rightarrow> TestMessage list" where
  "push_all [] q = q"
| "push_all (i # is) q = push_all is (push_heap test_cmp (q @ [makeQM i i 3]))"

definition testheap_queue :: "TestMessage list" where
  "testheap_queue = push_all [1, 8, 5, 6, 3, 4, 0, 9, 7, 2] [] @ [makeQM 3 4 5]"

definition testheap_main :: string where
  "testheap_main = print_queue testheap_queue"

section \<open>Its queue is the one of the program\<close>

definition test_key :: "TestMessage \<Rightarrow> seq_key" where
  "test_key m = SeqKey (tm_sequence_number m) (tm_proposer m)"

lemma test_cmp_key: "test_cmp l r \<longleftrightarrow> test_key r < test_key l"
  by (auto simp: test_cmp_def test_key_def less_seq_key_def)

interpretation test_order: strict_weak_order test_cmp
  by unfold_locales (auto simp: test_cmp_key)

interpretation tq: priority_queue test_cmp "is_heap test_cmp" "\<lambda>x q. push_heap test_cmp (q @ [x])"
    "\<lambda>q. butlast (pop_heap test_cmp q)" "make_heap test_cmp"
  by (rule test_order.heap_is_priority_queue)

interpretation tq: drained_queue test_cmp "is_heap test_cmp" "\<lambda>x q. push_heap test_cmp (q @ [x])"
    "\<lambda>q. butlast (pop_heap test_cmp q)" "make_heap test_cmp" "\<lambda>m. True" "\<lambda>q d. ([], d @ popped q)"
  by unfold_locales (simp_all add: popped.simps)

lemma popped_sorted:
  assumes "is_heap test_cmp q"
  shows "mset (popped q) = mset q" "sorted (map test_key (popped q))"
proof -
  obtain rest out where r: "([], [] @ popped q) = (rest, [] @ out)" "tq.drained q rest out"
    using tq.loop_drains [OF assms, of "[]"] by blast
  then show "mset (popped q) = mset q" by (simp add: tq.drained_def)
  from r show "sorted (map test_key (popped q))"
    by (simp add: tq.drained_def sorted_map test_cmp_key not_less)
qed

lemma push_all_heap:
  "is_heap test_cmp q \<Longrightarrow> is_heap test_cmp (push_all is q) \<and>
     mset (push_all is q) = mset q + mset (map (\<lambda>i. makeQM i i 3) is)"
  by (induction "is" q rule: push_all.induct) (simp_all add: tq.inv_push tq.mset_push)

text \<open>
  \<open>pop_heap\<close> moves the last element to the place of the front and lets it sink, so that a heap with
  one more element behind it is a heap again after the first \<open>pop_heap\<close>.
\<close>

context strict_weak_order
begin

lemma pop_mends_last:
  assumes "is_heap lt xs" "xs \<noteq> []"
  shows "is_heap lt (butlast (pop_heap lt (xs @ [m])))"
    and "add_mset (hd xs) (mset (butlast (pop_heap lt (xs @ [m])))) = add_mset m (mset xs)"
proof -
  have "heap_from lt (Suc 0) xs" using assms(1) by (auto simp: heap_from_def is_heap_def)
  note adj = adjust_heap_correct [OF this, of m]
  have p: "butlast (pop_heap lt (xs @ [m])) = adjust_heap lt xs 0 (length xs) m"
    using assms(2) by (simp add: pop_heap_def butlast_append)
  show "is_heap lt (butlast (pop_heap lt (xs @ [m])))"
    using adj assms(2) by (simp add: p is_heap_def)
  show "add_mset (hd xs) (mset (butlast (pop_heap lt (xs @ [m])))) = add_mset m (mset xs)"
    unfolding p using adj assms(2) by (cases xs) simp_all
qed

end

text \<open>The comparison orders the messages as that of the delivery queue does.\<close>

definition as_queued :: "TestMessage \<Rightarrow> QueuedMessage" where
  "as_queued m = make_queued_msg (tm_sequence_number m) (tm_status m) (tm_sender m) (tm_msg_id m)
     (tm_data m) (tm_proposer m)"

lemma test_cmp_as_cmp: "test_cmp l r = cmp (as_queued l) (as_queued r)"
  by (simp add: test_cmp_def cmp_def as_queued_def make_queued_msg_def)

section \<open>What it prints\<close>

text \<open>A vector that is a heap is printed in order, every message once.\<close>

lemma print_queue_sorts:
  assumes "is_heap test_cmp q"
  shows "\<exists>ms. print_queue q = concat (map show_entry ms) @ [CHR 0x0A] \<and> mset ms = mset q \<and>
    sorted (map test_key ms)"
  using popped_sorted [OF assms] by (intro exI [of _ "popped q"]) (simp add: print_queue_def)

text \<open>
  The message that is put behind a heap without \<open>push_heap\<close>, as the last one of the program is, does
  no harm unless it belongs to the front: the old front is printed first, and then all other messages
  in the order of sequence numbers and proposers, the forgotten one among them, every one once.
\<close>

lemma forgotten_push_is_mended:
  assumes "is_heap test_cmp q" "q \<noteq> []"
  shows "\<exists>ms. print_queue (q @ [m]) = show_entry (hd q) @ concat (map show_entry ms) @ [CHR 0x0A] \<and>
    add_mset (hd q) (mset ms) = add_mset m (mset q) \<and> sorted (map test_key ms)"
proof -
  let ?r = "butlast (pop_heap test_cmp (q @ [m]))"
  note r = test_order.pop_mends_last [OF assms, of m]
  have "print_queue (q @ [m]) = show_entry (hd q) @ concat (map show_entry (popped ?r)) @ [CHR 0x0A]"
    using assms(2) by (simp add: print_queue_def popped.simps [of "q @ [m]"])
  then show ?thesis using popped_sorted [OF r(1)] r(2) by (intro exI [of _ "popped ?r"]) simp
qed

text \<open>A forgotten message that belongs to the front is printed behind it.\<close>

lemma forgotten_front: "print_queue (push_all [1, 2] [] @ [makeQM 0 0 5]) = ''1:1 0:0 2:2 '' @ [CHR 0x0A]"
  by code_simp

end
