(* ===== verification/Echo.thy ===== *)
theory Echo
  imports Sockets
begin

text \<open>
  \<open>playground/echo_client.cpp\<close> and \<open>playground/echo_server.cpp\<close>: a client that sends a word over TCP and
  prints what comes back, and a server that sends back what it gets. They are the only users of
  \<open>TCP_Server::sendtcp\<close> and use \<open>accept_and_recv\<close> as the snapshot daemon does. A buffer is a list of 256 characters; what
  it holds before it is written is a parameter.
\<close>

definition MAX_BUF_LEN :: nat where "MAX_BUF_LEN = 256"

datatype echo_exit = UsageExit | RecvExit | NoWord | WriteOutsideBuffer | ReadOutsideBuffer

section \<open>The server\<close>

text \<open>
  \<open>accept_and_recv\<close> with a buffer of any size: the failure of \<open>accept\<close>, that of \<open>recv\<close>, or a new
  descriptor with the bytes that are there.
\<close>

datatype accepted_tcp = NotAccepted | NotReceived int | Got int string

definition store_received :: "nat \<Rightarrow> string \<Rightarrow> string \<Rightarrow> string" where
  "store_received max_size bytes buf =
     (let n = min (length bytes) (max_size - 1) in take n bytes @ [CHR 0x00] @ drop (Suc n) buf)"

fun tcp_accept_and_recv :: "nat \<Rightarrow> accepted_tcp \<Rightarrow> string \<Rightarrow> int list \<Rightarrow> echo_exit + (int \<times> string \<times> int list)" where
  "tcp_accept_and_recv max_size NotAccepted buf fds = Inr (- 1, buf, fds)"
| "tcp_accept_and_recv max_size (NotReceived fd) buf fds = Inl RecvExit"
| "tcp_accept_and_recv max_size (Got fd bytes) buf fds = Inr (fd, store_received max_size bytes buf, fds @ [fd])"

text \<open>The C string in a buffer; without a zero the end of the buffer is passed.\<close>

definition c_string :: "string \<Rightarrow> string option" where
  "c_string buf = (if CHR 0x00 \<in> set buf then Some (takeWhile (\<lambda>c. c \<noteq> CHR 0x00) buf) else None)"

text \<open>
  One turn of the loop of the server: the descriptors that are open afterwards, and the text handed to
  \<open>send\<close> with the descriptor it goes to. The descriptor is not closed.
\<close>

definition echo_server_turn :: "accepted_tcp \<Rightarrow> string \<Rightarrow> int list \<Rightarrow> echo_exit + (int list \<times> int \<times> string)" where
  "echo_server_turn a buf fds =
     (case tcp_accept_and_recv MAX_BUF_LEN a buf fds of
        Inl err \<Rightarrow> Inl err
      | Inr (sockfd, buf', fds') \<Rightarrow>
          (case c_string buf' of None \<Rightarrow> Inl ReadOutsideBuffer | Some text \<Rightarrow> Inr (fds', sockfd, text)))"

fun echo_server :: "(accepted_tcp \<times> string) list \<Rightarrow> int list \<Rightarrow> echo_exit + (int list \<times> (int \<times> string) list)" where
  "echo_server [] fds = Inr (fds, [])"
| "echo_server ((a, buf) # turns) fds =
     (case echo_server_turn a buf fds of
        Inl err \<Rightarrow> Inl err
      | Inr (fds', reply) \<Rightarrow>
          (case echo_server turns fds' of Inl err \<Rightarrow> Inl err | Inr (fds'', replies) \<Rightarrow> Inr (fds'', reply # replies)))"

section \<open>The client\<close>

text \<open>\<open>std::cin >> msg\<close>: the next word of the input, without a limit on its length.\<close>

definition is_space :: "char \<Rightarrow> bool" where
  "is_space c \<longleftrightarrow> c \<in> {CHR 0x20, CHR 0x09, CHR 0x0A, CHR 0x0B, CHR 0x0C, CHR 0x0D}"

definition next_word :: "string \<Rightarrow> string" where
  "next_word input = takeWhile (\<lambda>c. \<not> is_space c) (dropWhile is_space input)"

text \<open>
  The client: what it sends, and what it prints of the answer of \<open>recv\<close>, where \<open>None\<close> is the error
  that the program does not look for: it writes the zero in front of the buffer then, and behind it
  when 256 bytes have come.
\<close>

definition sendtcp :: "int \<Rightarrow> string \<Rightarrow> nat \<Rightarrow> int \<times> string" where
  "sendtcp sock msg msg_size = (sock, take msg_size msg)"

definition echo_client :: "string list \<Rightarrow> string \<Rightarrow> int \<Rightarrow> (int \<times> string \<Rightarrow> string option) \<Rightarrow> echo_exit + string" where
  "echo_client argv input sockfd answer =
     (if length argv \<noteq> 2 then Inl UsageExit
      else let msg = next_word input in
        if msg = [] then Inl NoWord
        else if MAX_BUF_LEN \<le> length msg then Inl WriteOutsideBuffer
        else case answer (sendtcp sockfd msg (length (takeWhile (\<lambda>c. c \<noteq> CHR 0x00) msg))) of
          None \<Rightarrow> Inl WriteOutsideBuffer
        | Some bytes \<Rightarrow>
            if MAX_BUF_LEN \<le> length bytes then Inl WriteOutsideBuffer
            else Inr (takeWhile (\<lambda>c. c \<noteq> CHR 0x00) bytes))"

section \<open>Facts\<close>

text \<open>The snapshot daemon stores a marker by the same function.\<close>

lemma store_marker_received: "store_marker = store_received MAX_MARKER_SIZE"
  by (simp add: fun_eq_iff store_marker_def store_received_def Let_def)

lemma length_store_received:
  "0 < max_size \<Longrightarrow> length buf = max_size \<Longrightarrow> length (store_received max_size bytes buf) = max_size"
  by (simp add: store_received_def Let_def min_def)

lemma store_received_string:
  "c_string (store_received max_size bytes buf) = Some (takeWhile (\<lambda>c. c \<noteq> CHR 0x00) (take (max_size - 1) bytes))"
proof -
  have t: "take (min (length bytes) (max_size - Suc 0)) bytes = take (max_size - 1) bytes" by (simp add: min_def)
  show ?thesis by (simp add: c_string_def store_received_def Let_def t takeWhile_tail)
qed

lemma echo_turn_got:
  "echo_server_turn (Got fd bytes) buf fds =
     Inr (fds @ [fd], fd, takeWhile (\<lambda>c. c \<noteq> CHR 0x00) (take (MAX_BUF_LEN - 1) bytes))"
  by (simp add: echo_server_turn_def store_received_string)

text \<open>
  The echo: the client prints the word that was typed if the word is shorter than the buffers, holds
  no zero, and the server's turn gets it in one piece; and every connection the server has served
  leaves a descriptor open.
\<close>

lemma echo_returns_the_word:
  assumes "next_word input = w" "w \<noteq> []" "length w < MAX_BUF_LEN" "CHR 0x00 \<notin> set w" "length argv = 2"
  shows "echo_client argv input sockfd (\<lambda>(sock, sent).
      case echo_server_turn (Got fd sent) buf fds of Inl err \<Rightarrow> None | Inr (fds', fd', reply) \<Rightarrow> Some reply) = Inr w \<and>
    (\<exists>replies. echo_server (map (\<lambda>fd. (Got fd w, buf)) conns) fds = Inr (fds @ conns, replies) \<and>
       replies = map (\<lambda>fd. (fd, w)) conns)"
proof
  have nz: "\<forall>c \<in> set w. c \<noteq> CHR 0x00" using assms(4) by auto
  from nz have turn: "echo_server_turn (Got fd w) buf fds = Inr (fds @ [fd], fd, w)"
    and sent: "sendtcp sockfd w (length (takeWhile (\<lambda>c. c \<noteq> CHR 0x00) w)) = (sockfd, w)" for fd fds
    using assms(3) by (simp_all add: echo_turn_got sendtcp_def takeWhile_eq_all_conv [THEN iffD2])
  show "echo_client argv input sockfd (\<lambda>(sock, sent).
      case echo_server_turn (Got fd sent) buf fds of Inl err \<Rightarrow> None | Inr (fds', fd', reply) \<Rightarrow> Some reply) = Inr w"
    using assms nz by (simp add: echo_client_def sendtcp_def turn Let_def takeWhile_eq_all_conv [THEN iffD2])
  show "\<exists>replies. echo_server (map (\<lambda>fd. (Got fd w, buf)) conns) fds = Inr (fds @ conns, replies) \<and>
       replies = map (\<lambda>fd. (fd, w)) conns"
  proof (induction conns arbitrary: fds)
    case (Cons fd conns)
    from Cons [of "fds @ [fd]"] show ?case by (simp add: turn)
  qed simp
qed

end
