(* ===== verification/Spec2Isabelle.thy ===== *)
theory Spec2Isabelle
  imports SyncGroup MainProgram ProtocolFacts Interleaving Report Repair Errors SnapshotRace Watchdogs
    Concurrency Serializer Prj0 TestHeap Echo
begin

text \<open>
  A total-order reliable multicast over UDP with a Chandy-Lamport style snapshot daemon, as written in
  \<open>src/\<close>. A process (\<open>main.cpp\<close>) parses its command line, reads the host file and waits for the other
  hosts (\<open>waittosync.cpp\<close>), and then runs four kinds of threads on one \<open>ReliableMulticast\<close> object
  (\<open>reliable_multicast.cpp\<close>): the main thread multicasts data messages, the receiver handles data,
  acknowledgement and sequence messages, a watchdog per unanswered message sends it again, and the
  snapshot listener (\<open>CL_global_snapshot.cpp\<close>) reacts to markers. Sockets are wrapped in
  \<open>networkagent.cpp\<close>.

  \<^bold>\<open>Theories.\<close>
  \<^item> \<open>Prelude\<close>: machine types (words for \<open>unsigned\<close> types, integers kept in \<open>int_range\<close> for \<open>int\<close>),
    conversions, lists.
  \<^item> \<open>Wire\<close>: message structs and packers of \<open>reliable_multicast.h/.cpp\<close>; the interface
    \<open>message_format\<close>. \<open>CText\<close>: \<open>strtol\<close>, \<open>atoi\<close>, decimal output, \<open>extract_int_from_string\<close>.
    \<open>StdMap\<close>: \<open>std::map\<close> as a sorted list of pairs, interface \<open>ordered_map\<close>. \<open>StdHeap\<close>: \<open>push_heap\<close>,
    \<open>pop_heap\<close> and \<open>make_heap\<close> of the C++ library as index loops. \<open>DeliveryQueue\<close>: \<open>cmp\<close>, the
    operations on the delivery queue, interfaces \<open>priority_queue\<close> and \<open>drained_queue\<close>.
  \<^item> \<open>Process\<close>: the data members of \<open>ReliableMulticast\<close> (record \<open>rm\<close>), constructor, sending with simulated
    drops, the handlers, \<open>multicast_datamsg\<close>, one pass of each watchdog, one turn of the receiver.
    \<open>Snapshot\<close>: \<open>CL_Global_Snapshot\<close>, the listener thread from one \<open>accept\<close> to the next.
  \<^item> \<open>Group\<close>: the processes of all hosts over a network that may lose, delay, reorder and repeat
    datagrams; interface \<open>invariant\<close>. \<open>GroupInv\<close> to \<open>GroupReach\<close>: the invariant of reachable groups,
    event by event. \<open>Safety\<close>: its consequences. \<open>Runs\<close>: concrete runs, evaluated.
  \<^item> \<open>HandlerFacts\<close>, \<open>ProtocolFacts\<close>, \<open>SnapshotFacts\<close>: what each operation does on its branches, the
    wire format, names, delivery against a reference, the daemon's bookkeeping. \<open>Interleaving\<close>:
    \<open>multicast_datamsg\<close> and \<open>handle_datamsg\<close> statement by statement, in any order of their statements.
    \<open>SnapshotRace\<close>: \<open>initiate_snapshot\<close> statement by statement among turns of other threads.
    \<open>Report\<close>: the texts of the \<open>print_*\<close> functions. \<open>Errors\<close>: when and why a receiver turn or a multicast
    ends the process. \<open>Watchdogs\<close>: each watchdog thread from start to end, interface \<open>resend_loop\<close>.
  \<^item> \<open>Threads\<close>, \<open>LockDiscipline\<close>: threads of one process, split at every access to shared memory, over
    any shared state; mutexes, races, deadlocks; interface \<open>mutex_discipline\<close>. \<open>ThreadPrograms\<close>: every
    function of every thread of \<open>reliable_multicast.cpp\<close>, \<open>CL_global_snapshot.cpp\<close> and the loop of
    \<open>main.cpp\<close> as such a program, with its \<open>pthread_mutex_lock\<close> and \<open>unlock\<close> calls. \<open>ThreadsAlone\<close>: a program
    that nobody disturbs is the function of \<open>Process\<close> or \<open>Snapshot\<close>. \<open>ThreadLocks\<close>: who may touch what
    under which mutex. \<open>ThreadSteps\<close>: what a single step does to the shared state.
    \<open>RelyGuarantee\<close>: what threads assume of and promise to each other, interface \<open>rely_guarantee\<close>, which
    extends \<open>mutex_discipline\<close>; \<open>ThreadInvariants\<close>: the promises of the four threads. \<open>Concurrency\<close>: the
    properties of all interleavings, and runs.
  \<^item> \<open>Flow\<close>, \<open>Progress\<close>: in a group without losses every acknowledgement, proposal and final number that
    is still missing somewhere is in an outbox, and receiving it uses up one of finitely many open
    tasks; interface \<open>server\<close>. \<open>Tending\<close>, \<open>Repair\<close>: in a group with losses everything still unanswered has
    a live watchdog, whose next sending starts an exchange that settles a task.
  \<^item> \<open>HostFile\<close>, \<open>StartUp\<close>, \<open>SyncGroup\<close>: \<open>waittosync.cpp\<close>, from the host file to READY, and the
    composition with the constructor. \<open>Sockets\<close>: \<open>networkagent.cpp\<close>, interface \<open>candidate_loop\<close>.
    \<open>CommandLine\<close>: \<open>main.cpp\<close>. \<open>MainProgram\<close>: the way from the command line to the initial state.
  \<^item> \<open>Serializer\<close>, \<open>Prj0\<close>, \<open>TestHeap\<close>, \<open>Echo\<close>: \<open>serializer.h\<close> and the programs in \<open>playground/\<close>, each beside
    the part of the program it became.

  \<^bold>\<open>Correspondence.\<close> Definitions carry the names of the functions they translate. A handler maps the
  state to the next state or to the reason why the process called \<open>exit\<close>, with the state it died in.
  A \<open>group_step\<close> is one turn of one thread: a \<open>Multicast\<close> or \<open>InitiateSnapshot\<close> call of the main thread,
  one received datagram, one pass of a watchdog, one \<open>accept\<close> of the listener. What the program asks
  the system (\<open>rand\<close>, the results of \<open>sendto\<close>, \<open>connect\<close> and \<open>send\<close>, the old contents of stack
  buffers) comes from oracles in \<open>env\<close>, over which the theorems quantify. Undefined behaviour (a write
  past a buffer, overflow of \<open>int\<close>) is a reason to end.

  \<^bold>\<open>What is shown.\<close> C1 to C8: of every reachable group of any size, whatever the network does: no
  protocol errors, agreement, integrity, no duplication, delivery only after everyone holds the
  message, final numbers as maxima over a complete set of proposals, and total order under the
  condition that deliveries ascend. C9: without losses no reachable group is stuck, three receiver
  turns per message and pair of hosts are enough to deliver everything everywhere. C10: losses are
  repaired by the watchdogs as long as none has given up. C11 and C12: the
  condition of C8 fails, two evaluated runs in which the order differs although nothing is lost.
  C13, C14: deliveries are final, and equal to a reference definition by sorting. C15 to C22: all
  threads of a process, interleaved at every shared access: no deadlock, the three members with
  data races and no others, the shape of the queue, every message held once and every acknowledged
  message held, every record found where it is looked up, coming to rest, agreement with the turns of
  the group model when undisturbed, and a counter that goes back because of a race. C23, C27: the
  exact cases in which a receiver turn or a multicast ends the process. C24, C25, C30, C31, C33:
  start-up, its barrier, its dead end after a lost answer, the way from the command line to the initial
  state. C26, C29: the last acknowledgement, the watchdogs. C28: a snapshot taken between turns of
  other threads. C32, C39: bytes and buffers. C34, C35: the main thread and the command
  line. C36 to C38: the snapshot and its report. C40: the playground.

  \<^bold>\<open>Bounds.\<close> Nothing is bounded but what the code bounds (\<open>RECV_CAP\<close>, \<open>WATCHDOG_RESEND_CAP\<close>, 16 hosts, the
  sizes of its buffers). The bounded loops of the thread programs carry their counters as arguments. All
  functions terminate; the one loop that may not, waiting for a name to resolve, is an \<open>option\<close>-valued
  partial function, and the exchange of start-up packets is a step relation.

  \<^bold>\<open>Not modelled.\<close> In the group (C1 to C10) a turn of a thread is one step. The code guards the queue and
  the histories by mutexes one access at a time, and the counter by none, so real turns may be split
  by another thread; \<open>ThreadPrograms\<close> splits all threads at every access to a shared member, for one
  process whose network brings anything, with accesses that are themselves indivisible and seen by
  all threads in one order (the language promises nothing after a data race). Real
  time: sleeps and timeouts become the freedom of when a turn is taken. Rounding: random numbers and the drop rate are rationals, \<open>atof\<close> is a parameter. The
  \<open>DPRINTF\<close> lines, the destructor of \<open>ReliableMulticast\<close>, which only frees memory and never runs, the
  signal handler, the getters and \<open>get_in_addr\<close>. Memory is never exhausted. In the playground a TCP message
  arrives in one piece.
\<close>

section \<open>The group\<close>

text \<open>
  C1. Whatever the network loses, delays, reorders or repeats, and whatever the system calls return,
  a process of a group with distinguishable host names ends only because a receive, a send or a
  marker transmission failed or a signed counter is at its limit: no process ever meets a message
  of a wrong type, a final number for a message it does not know, a missing history entry or a
  datagram larger than its buffer.
\<close>

theorem no_protocol_error:
  assumes "config_ok c" "reachable c envs g" "i < length g" "g ! i = Inl (err, s)"
  shows "err \<in> {RecvFailed, SendFailed, MarkerSendFailed, MarkerRecvFailed, SignedOverflow}"
  using reachableD(5) [OF assms(1,2,3,4)] by (cases err) simp_all

theorem no_protocol_error_witness:
  "\<exists>g err s. reachable demo_config (\<lambda>i. demo_env) g \<and> g ! 0 = Inl (err, s) \<and>
     err \<in> {RecvFailed, SendFailed, MarkerSendFailed, MarkerRecvFailed, SignedOverflow}"
proof -
  let ?s = "initial_process demo_config 0"
  let ?g = "demo_start[0 := Inl (RecvFailed, ?s)]"
  have "demo_run [(0, Receive None)] = Some ?g"
    by (simp add: demo_start_def msg_receiver_turn_def RECV_CAP_def)
  then have r: "reachable demo_config (\<lambda>i. demo_env) ?g" by (rule demo_reachable)
  moreover have g0: "?g ! 0 = Inl (RecvFailed, ?s)" "0 < length ?g" by (simp_all add: demo_start_def)
  moreover note no_protocol_error [OF demo_config_ok r g0(2,1)]
  ultimately show ?thesis by blast
qed

text \<open>
  C2. Agreement: when two processes of a reachable group have both delivered the message with a
  given sender and number, they have delivered the same message: same data, same final sequence
  number, same proposer of that number.
\<close>

theorem agreement:
  assumes "config_ok c" "reachable c envs g" "i < length g" "j < length g"
    and "m \<in> set (deliveredMessage (state_of (g ! i)))"
    and "n \<in> set (deliveredMessage (state_of (g ! j)))" and "uid m = uid n"
  shows "m = n"
proof -
  have "m \<in> set (held (view g i))" "qm_status m = DELIVERABLE"
    and "n \<in> set (held (view g j))" "qm_status n = DELIVERABLE"
    using delivered_held [OF assms(1,2)] assms(3-6) by (simp_all add: view_def)
  with assms(1-4) show ?thesis using assms(7) by (rule same_message)
qed

theorem agreement_witness:
  "\<exists>g. reachable demo_config (\<lambda>i. demo_env) g \<and> length (deliveredMessage (state_of (g ! 0))) = 2 \<and>
     hd (deliveredMessage (state_of (g ! 0))) = last (deliveredMessage (state_of (g ! 1)))"
proof -
  obtain g where g: "reachable demo_config (\<lambda>i. demo_env) g" "length g = 2"
    "deliveredMessage (state_of (g ! 0)) = [msg1, msg2]" "deliveryQueue (state_of (g ! 0)) = []"
    "deliveredMessage (state_of (g ! Suc 0)) = [msg2, msg1]" "deliveryQueue (state_of (g ! Suc 0)) = []"
    using demo_group [OF both_run] .
  have "hd (deliveredMessage (state_of (g ! 0))) = last (deliveredMessage (state_of (g ! 1)))"
    by (rule agreement [OF demo_config_ok g(1), of 0 1]) (simp_all add: g(2) g(3) g(5))
  moreover have "length (deliveredMessage (state_of (g ! 0))) = 2" by (simp add: g(3))
  ultimately show ?thesis using g(1) by blast
qed

text \<open>
  C3. Integrity: a message that is queued or delivered anywhere was multicast by its sender, under
  its number and with its data; the sender is one of the hosts.
\<close>

theorem delivered_was_multicast:
  assumes "config_ok c" "reachable c envs g" "i < length g"
    and "m \<in> set (deliveredMessage (state_of (g ! i)) @ deliveryQueue (state_of (g ! i)))"
  shows "\<exists>j < length g. qm_sender m = to_u32 (extract_int_from_string (c_hosts c ! j)) \<and>
    map_of (dataHistory (state_of (g ! j))) (to_int (qm_msg_id m)) = Some (to_int (qm_data m))"
proof -
  have "m \<in> set (held (view g i))" using assms(4) by (simp add: held_def view_def)
  from held_data [OF assms(1-3) this] show ?thesis
    unfolding hidw_def hid_def view_def by blast
qed

theorem delivered_was_multicast_witness:
  "\<exists>g. reachable demo_config (\<lambda>i. demo_env) g \<and> (\<exists>j < length g.
     qm_sender msg1 = to_u32 (extract_int_from_string (c_hosts demo_config ! j)) \<and>
     map_of (dataHistory (state_of (g ! j))) (to_int (qm_msg_id msg1)) = Some (to_int (qm_data msg1)))"
proof -
  obtain g where g: "reachable demo_config (\<lambda>i. demo_env) g" "length g = 2"
    "deliveredMessage (state_of (g ! 0)) = [msg1]" "deliveryQueue (state_of (g ! 0)) = []"
    "deliveredMessage (state_of (g ! Suc 0)) = [msg1]" "deliveryQueue (state_of (g ! Suc 0)) = []"
    using demo_group [OF delivered_run] .
  then have "msg1 \<in> set (deliveredMessage (state_of (g ! 1)) @ deliveryQueue (state_of (g ! 1)))"
    by simp
  from delivered_was_multicast [OF demo_config_ok g(1) _ this] g(1,2) show ?thesis by force
qed

text \<open>
  C4. No duplication: however often a datagram arrives, a process queues and delivers the message of
  a given sender and number at most once, in the queue and the delivered messages together.
\<close>

theorem no_duplicates:
  assumes "config_ok c" "reachable c envs g" "i < length g"
  shows "distinct (map uid (deliveredMessage (state_of (g ! i)) @ deliveryQueue (state_of (g ! i))))"
  using local_invD(3) [OF reachableD(3) [OF assms]] by (simp add: queue_inv_def held_def view_def)

theorem no_duplicates_witness:
  "\<exists>g. reachable demo_config (\<lambda>i. demo_env) g \<and>
     deliveredMessage (state_of (g ! 0)) = [msg1, msg2] \<and>
     distinct (map uid (deliveredMessage (state_of (g ! 0)) @ deliveryQueue (state_of (g ! 0))))"
proof -
  obtain g where g: "reachable demo_config (\<lambda>i. demo_env) g" "length g = 2"
    "deliveredMessage (state_of (g ! 0)) = [msg1, msg2]" "deliveryQueue (state_of (g ! 0)) = []"
    "deliveredMessage (state_of (g ! Suc 0)) = [msg2, msg1]" "deliveryQueue (state_of (g ! Suc 0)) = []"
    using demo_group [OF both_run] .
  then show ?thesis using no_duplicates [OF demo_config_ok g(1), of 0] by auto
qed

text \<open>
  C5. Nothing is delivered before every process has it: when one process has delivered a message,
  every process of the group, also one that has exited since, has it in its queue or among its
  delivered messages.
\<close>

theorem delivered_is_held_by_all:
  assumes "config_ok c" "reachable c envs g" "i < length g" "j < length g"
    and "m \<in> set (deliveredMessage (state_of (g ! i)))"
  shows "uid m \<in> uid ` set (deliveredMessage (state_of (g ! j)) @ deliveryQueue (state_of (g ! j)))"
proof -
  have "m \<in> set (held (view g i))" "qm_status m = DELIVERABLE"
    using delivered_held [OF assms(1-3)] assms(5) by (simp_all add: view_def)
  then obtain k a pm where "settled c g k a pm m" using deliverable_settled [OF assms(1-3)] by blast
  from settled_held [OF assms(1,2) this assms(4)] show ?thesis by (simp add: held_def view_def)
qed

theorem delivered_is_held_by_all_witness:
  "\<exists>g. reachable demo_config (\<lambda>i. demo_env) g \<and> deliveredMessage (state_of (g ! 1)) = [] \<and>
     uid msg1 \<in> uid ` set (deliveredMessage (state_of (g ! 1)) @ deliveryQueue (state_of (g ! 1)))"
proof -
  obtain g where g: "reachable demo_config (\<lambda>i. demo_env) g" "length g = 2"
    "deliveredMessage (state_of (g ! 0)) = [msg1]" "deliveryQueue (state_of (g ! 0)) = []"
    "deliveredMessage (state_of (g ! Suc 0)) = []" "deliveryQueue (state_of (g ! Suc 0)) = [msg1_queued]"
    using demo_group [OF decided_run] .
  with delivered_is_held_by_all [OF demo_config_ok g(1), of 0 1 msg1] show ?thesis by auto
qed








text \<open>
  C12. The cause: sequence number and proposer do not identify a message. In the same kind of run the
  two messages get the same final sequence number from the same proposer, because a process offers
  the number it has just given to its own message to the next message it receives, and a tie of
  proposals goes to the least host.
\<close>

theorem one_number_two_messages:
  "\<exists>c envs g m n. config_ok c \<and> reachable c envs g \<and> m \<in> set (deliveredMessage (state_of (g ! 0))) \<and>
     n \<in> set (deliveredMessage (state_of (g ! 0))) \<and> uid m \<noteq> uid n \<and>
     qm_sequence_number m = qm_sequence_number n \<and> qm_proposer m = qm_proposer n"
proof -
  obtain g where g: "reachable demo_config (\<lambda>i. demo_env) g" "length g = 2"
    "deliveredMessage (state_of (g ! 0)) = [msg1, msg2]" "deliveryQueue (state_of (g ! 0)) = []"
    "deliveredMessage (state_of (g ! Suc 0)) = [msg2, msg1]" "deliveryQueue (state_of (g ! Suc 0)) = []"
    using demo_group [OF both_run] .
  have "msg1 \<in> set (deliveredMessage (state_of (g ! 0)))" "msg2 \<in> set (deliveredMessage (state_of (g ! 0)))"
    by (simp_all add: g(3))
  moreover have "uid msg1 \<noteq> uid msg2" "qm_sequence_number msg1 = qm_sequence_number msg2"
    "qm_proposer msg1 = qm_proposer msg2"
    by (simp_all add: msg1_def msg2_def make_queued_msg_def uid_def)
  ultimately show ?thesis using demo_config_ok g(1) by blast
qed

end
